(* ===== verification/Prelude.thy ===== *)
theory Prelude
  imports Main "HOL-Library.Word"
begin

text \<open>
  Shared vocabulary of the development: machine integers and byte strings, the
  outcome of a Rust function (a value, an error value, or a panic), checked
  slicing and \<open>usize\<close> arithmetic, and the little-endian integer codec that every
  on-disk and wire format of the repository uses.  The lemmas here are the ones
  more than one component theory needs.
\<close>

unbundle bit_operations_syntax

section \<open>Machine integers and byte strings\<close>

type_synonym byte = "8 word"
type_synonym bytes = "byte list"
type_synonym u16 = "16 word"
type_synonym u32 = "32 word"
type_synonym u64 = "64 word"

text \<open>
  A Rust array \<open>[u8; 32]\<close> is the 256-bit word whose byte number \<open>i\<close> (in
  little-endian order) is element \<open>i\<close> of the array; \<open>to_le_bytes 32\<close> and
  \<open>from_le_bytes\<close> below are the two directions of that bijection.
\<close>

type_synonym hash32 = "256 word"

text \<open>A Rust byte-string literal \<open>b"..."\<close>.\<close>

definition ascii :: "string \<Rightarrow> bytes" where
  "ascii s = map of_char s"

lemma length_ascii [simp]: "length (ascii s) = length s"
  by (simp add: ascii_def)

text \<open>Facts of the codec, for \<open>simp add: le_codec\<close>.\<close>

named_theorems le_codec

text \<open>Facts that show an operation never panics.\<close>

named_theorems no_panic

section \<open>Outcomes\<close>

text \<open>
  A Rust function returns \<open>Ok\<close>, returns \<open>Err\<close>, or panics (an index or a slice out
  of range, \<open>unwrap\<close> of \<open>None\<close>).
\<close>

datatype ('e, 'a) outcome = Ok 'a | Err 'e | Panic

text \<open>Sequencing, as the \<open>?\<close> operator and unwinding do it.\<close>

fun obind :: "('e, 'a) outcome \<Rightarrow> ('a \<Rightarrow> ('e, 'b) outcome) \<Rightarrow> ('e, 'b) outcome" where
  "obind (Ok x) f = f x"
| "obind (Err e) f = Err e"
| "obind Panic f = Panic"

lemma obind_eq_Ok: "obind m f = Ok y \<longleftrightarrow> (\<exists>x. m = Ok x \<and> f x = Ok y)"
  by (cases m) auto

lemma obind_eq_Err: "obind m f = Err e \<longleftrightarrow> m = Err e \<or> (\<exists>x. m = Ok x \<and> f x = Err e)"
  by (cases m) auto

lemma obind_eq_Panic: "obind m f = Panic \<longleftrightarrow> m = Panic \<or> (\<exists>x. m = Ok x \<and> f x = Panic)"
  by (cases m) auto

lemma obind_assoc: "obind (obind m f) g = obind m (\<lambda>x. obind (f x) g)"
  by (cases m) auto

text \<open>\<open>map_err\<close>: rename the error, keep the rest.\<close>

fun map_err :: "('e \<Rightarrow> 'f) \<Rightarrow> ('e, 'a) outcome \<Rightarrow> ('f, 'a) outcome" where
  "map_err f (Ok x) = Ok x"
| "map_err f (Err e) = Err (f e)"
| "map_err f Panic = Panic"

lemma map_err_eq_Ok [simp]: "map_err f m = Ok y \<longleftrightarrow> m = Ok y"
  by (cases m) auto

lemma map_err_eq_Panic [simp]: "map_err f m = Panic \<longleftrightarrow> m = Panic"
  by (cases m) auto

text \<open>\<open>ok_or(e)?\<close> on an option, and \<open>unwrap\<close>/\<open>expect\<close>.\<close>

fun ok_or :: "'e \<Rightarrow> 'a option \<Rightarrow> ('e, 'a) outcome" where
  "ok_or e None = Err e"
| "ok_or e (Some x) = Ok x"

fun unwrap :: "'a option \<Rightarrow> ('e, 'a) outcome" where
  "unwrap None = Panic"
| "unwrap (Some x) = Ok x"

lemma ok_or_eq [simp]:
  "ok_or e m = Ok x \<longleftrightarrow> m = Some x" "ok_or e m = Panic \<longleftrightarrow> False"
  by (cases m; auto)+

lemma unwrap_eq [simp]:
  "unwrap m = Ok x \<longleftrightarrow> m = Some x" "unwrap m = Panic \<longleftrightarrow> m = None"
  by (cases m; auto)+

text \<open>
  The same with a mutable state: an operation returns its outcome and the state it leaves,
  also when it fails.
\<close>

type_synonym ('s, 'e, 'a) op = "'s \<Rightarrow> ('e, 'a) outcome \<times> 's"

definition sreturn :: "'a \<Rightarrow> ('s, 'e, 'a) op" where
  "sreturn x s = (Ok x, s)"

definition slift :: "('e, 'a) outcome \<Rightarrow> ('s, 'e, 'a) op" where
  "slift r s = (r, s)"

definition sbind :: "('s, 'e, 'a) op \<Rightarrow> ('a \<Rightarrow> ('s, 'e, 'b) op) \<Rightarrow> ('s, 'e, 'b) op" where
  "sbind m f s =
     (case m s of (Ok x, s) \<Rightarrow> f x s | (Err e, s) \<Rightarrow> (Err e, s) | (Panic, s) \<Rightarrow> (Panic, s))"

lemma sbind_Ok: "m s = (Ok x, s') \<Longrightarrow> sbind m f s = f x s'"
  by (simp add: sbind_def)

lemma sbind_eq_Ok:
  "sbind m f s = (Ok y, s'') \<longleftrightarrow> (\<exists>x s'. m s = (Ok x, s') \<and> f x s' = (Ok y, s''))"
  by (auto simp: sbind_def split: prod.splits outcome.splits)

lemma sbind_sreturn [simp]: "sbind (sreturn x) f = f x"
  by (simp add: sbind_def sreturn_def fun_eq_iff)

lemma sbind_slift [simp]: "sbind (slift (Ok x)) f = f x"
  by (simp add: sbind_def slift_def fun_eq_iff)

section \<open>Slices and checked arithmetic\<close>

text \<open>\<open>&buf[a..b]\<close>: panics unless \<open>a \<le> b \<le> buf.len()\<close>.\<close>

definition slice :: "nat \<Rightarrow> nat \<Rightarrow> 'a list \<Rightarrow> ('e, 'a list) outcome" where
  "slice a b xs = (if a \<le> b \<and> b \<le> length xs then Ok (take (b - a) (drop a xs)) else Panic)"

text \<open>\<open>xs[i]\<close>: panics out of range.\<close>

definition index :: "'a list \<Rightarrow> nat \<Rightarrow> ('e, 'a) outcome" where
  "index xs i = (if i < length xs then Ok (xs ! i) else Panic)"

lemma slice_Ok [simp]:
  "slice a b xs = Ok ys \<longleftrightarrow> a \<le> b \<and> b \<le> length xs \<and> ys = take (b - a) (drop a xs)"
  by (auto simp: slice_def)

lemma slice_not_Err [simp]: "slice a b xs \<noteq> Err e"
  by (simp add: slice_def)

lemma slice_Panic: "slice a b xs = Panic \<longleftrightarrow> \<not> (a \<le> b \<and> b \<le> length xs)"
  by (simp add: slice_def)

lemma index_Ok [simp]: "index xs i = Ok x \<longleftrightarrow> i < length xs \<and> x = xs ! i"
  by (auto simp: index_def)

text \<open>
  The targets of the repository are 64-bit, so \<open>usize\<close> is a natural number below
  \<open>2 ^ 64\<close>; \<open>checked_add\<close> and \<open>checked_mul\<close> return \<open>None\<close> above it.
\<close>

definition usize_limit :: nat where
  "usize_limit = 2 ^ 64"

definition checked_add :: "nat \<Rightarrow> nat \<Rightarrow> nat option" where
  "checked_add a b = (if a + b < usize_limit then Some (a + b) else None)"

definition checked_mul :: "nat \<Rightarrow> nat \<Rightarrow> nat option" where
  "checked_mul a b = (if a * b < usize_limit then Some (a * b) else None)"

lemma checked_add_Some [simp]: "checked_add a b = Some c \<longleftrightarrow> a + b < usize_limit \<and> c = a + b"
  by (auto simp: checked_add_def)

lemma checked_mul_Some [simp]: "checked_mul a b = Some c \<longleftrightarrow> a * b < usize_limit \<and> c = a * b"
  by (auto simp: checked_mul_def)

text \<open>\<open>saturating_add\<close> on \<open>u64\<close>, and \<open>saturating_sub\<close>.\<close>

definition saturating_add :: "'a::len word \<Rightarrow> 'a word \<Rightarrow> 'a word" where
  "saturating_add a b = (if unat a + unat b < 2 ^ LENGTH('a) then a + b else - 1)"

definition saturating_sub :: "'a::len word \<Rightarrow> 'a word \<Rightarrow> 'a word" where
  "saturating_sub a b = (if b \<le> a then a - b else 0)"

section \<open>Little-endian integers\<close>

primrec to_le_bytes :: "nat \<Rightarrow> 'a::len word \<Rightarrow> bytes" where
  "to_le_bytes 0 w = []"
| "to_le_bytes (Suc n) w = ucast w # to_le_bytes n (drop_bit 8 w)"

primrec from_le_bytes :: "bytes \<Rightarrow> 'a::len word" where
  "from_le_bytes [] = 0"
| "from_le_bytes (b # bs) = ucast b OR push_bit 8 (from_le_bytes bs)"

text \<open>\<open>uN::from_le_bytes(buf[a..a+n].try_into().unwrap())\<close>.\<close>

definition read_le :: "nat \<Rightarrow> nat \<Rightarrow> bytes \<Rightarrow> ('e, 'a::len word) outcome" where
  "read_le n a buf = obind (slice a (a + n) buf) (\<lambda>bs. Ok (from_le_bytes bs))"

lemma length_to_le_bytes [simp]: "length (to_le_bytes n w) = n"
  by (induction n arbitrary: w) auto

lemma bit_from_le_bytes_aux:
  "bit (from_le_bytes bs :: 'a::len word) i \<longleftrightarrow>
     i < LENGTH('a) \<and> i < 8 * length bs \<and> bit (bs ! (i div 8)) (i mod 8)"
proof (induction bs arbitrary: i)
  case Nil
  then show ?case by simp
next
  case (Cons b bs)
  show ?case
  proof (cases "i < 8")
    case True
    then show ?thesis
      by (auto simp: bit_simps Cons.IH)
  next
    case False
    then have "i div 8 = Suc ((i - 8) div 8)" and "i mod 8 = (i - 8) mod 8"
      by (simp_all add: le_div_geq le_mod_geq not_less)
    moreover have "\<not> bit b i"
      using False bit_imp_le_length[of b i] by auto
    ultimately show ?thesis
      using False by (auto simp: bit_simps Cons.IH)
  qed
qed

lemma nth_to_le_bytes: "i < n \<Longrightarrow> to_le_bytes n w ! i = ucast (drop_bit (8 * i) w)"
proof (induction n arbitrary: w i)
  case 0
  then show ?case by simp
next
  case (Suc n)
  then show ?case
    by (cases i) (auto simp: drop_bit_drop_bit add.commute)
qed

lemma from_to_le_bytes [le_codec]:
  "LENGTH('a) \<le> 8 * n \<Longrightarrow> from_le_bytes (to_le_bytes n w) = (w :: 'a::len word)"
  by (rule bit_word_eqI)
    (auto simp: bit_from_le_bytes_aux nth_to_le_bytes bit_simps)

lemma to_from_le_bytes [le_codec]:
  assumes "length bs = n" "8 * n \<le> LENGTH('a)"
  shows "to_le_bytes n (from_le_bytes bs :: 'a::len word) = bs"
proof (rule nth_equalityI)
  show "length (to_le_bytes n (from_le_bytes bs :: 'a word)) = length bs"
    using assms by simp
next
  fix i assume "i < length (to_le_bytes n (from_le_bytes bs :: 'a word))"
  then have i: "i < n" by simp
  show "to_le_bytes n (from_le_bytes bs :: 'a word) ! i = bs ! i"
  proof (rule bit_word_eqI)
    fix k assume "k < LENGTH(8)"
    then have k: "k < 8" by simp
    have "8 * i + k < 8 * n"
      using i k by simp
    then show "bit (to_le_bytes n (from_le_bytes bs :: 'a word) ! i) k = bit (bs ! i) k"
      using i k assms
      by (auto simp: nth_to_le_bytes bit_from_le_bytes_aux bit_simps div_add1_eq mod_add_eq)
  qed
qed

lemma to_le_bytes_inject [le_codec]:
  "LENGTH('a) \<le> 8 * n \<Longrightarrow> to_le_bytes n (v :: 'a::len word) = to_le_bytes n w \<longleftrightarrow> v = w"
  by (metis from_to_le_bytes)

lemma read_le_Ok [simp]:
  "read_le n a buf = Ok w \<longleftrightarrow> a + n \<le> length buf \<and> w = from_le_bytes (take n (drop a buf))"
  by (auto simp: read_le_def obind_eq_Ok)

lemma read_le_not_Err [simp]: "read_le n a buf \<noteq> Err e"
  by (auto simp: read_le_def obind_eq_Err)

lemma read_le_Panic: "read_le n a buf = Panic \<longleftrightarrow> length buf < a + n"
  by (auto simp: read_le_def obind_eq_Panic slice_Panic)

section \<open>Indices as words\<close>

lemma upt_Cons_add: "[i..<Suc (i + n)] = i # [Suc i..<Suc (i + n)]"
  by (simp add: upt_conv_Cons del: upt_Suc)

lemma sorted_wrt_map_of_nat:
  "n \<le> 2 ^ LENGTH('a) \<Longrightarrow> sorted_wrt (<) (map (of_nat :: nat \<Rightarrow> 'a::len word) [0..<n])"
  by (auto simp: sorted_wrt_iff_nth_less word_less_nat_alt unsigned_of_nat take_bit_nat_eq_self)

lemma unat_of_nat_u64: "n < usize_limit \<Longrightarrow> unat (of_nat n :: u64) = n"
  by (simp add: usize_limit_def unsigned_of_nat take_bit_nat_eq_self)

lemma unat_less_usize_limit [simp]: "unat (w :: u64) < usize_limit"
  using unsigned_less[where 'a=nat and w=w] by (simp add: usize_limit_def)

section \<open>Options\<close>

lemma option_eqI: "(\<And>x. a = Some x \<longleftrightarrow> b = Some x) \<Longrightarrow> a = b"
  by (cases a; cases b) auto

section \<open>Adjacent fields\<close>

text \<open>Consecutive fields of a buffer, put together again: rewriting with these collapses
  the concatenation of all the fields of a header into one prefix.\<close>

lemma take_drop_join:
  "b = a + k \<Longrightarrow> take k (drop a xs) @ take l (drop b xs) = take (k + l) (drop a xs)"
  by (simp add: take_add add.commute)

lemma take_join: "b = k \<Longrightarrow> take k xs @ take l (drop b xs) = take (k + l) xs"
  by (simp add: take_add)

lemma take_drop_rest: "b = a + k \<Longrightarrow> take k (drop a xs) @ drop b xs = drop a xs"
  using append_take_drop_id[of k "drop a xs"] by (simp add: add.commute)

lemmas join_fields = take_drop_join take_join take_drop_rest

section \<open>Chunks\<close>

text \<open>\<open>slice::chunks(n)\<close>.\<close>

function chunks :: "nat \<Rightarrow> 'a list \<Rightarrow> 'a list list" where
  "chunks n xs = (if xs = [] \<or> n = 0 then [] else take n xs # chunks n (drop n xs))"
  by auto
termination
  by (relation "measure (length \<circ> snd)") auto

declare chunks.simps [simp del]

lemma chunks_Nil [simp]: "chunks n [] = []"
  by (simp add: chunks.simps)

lemma concat_chunks [simp]: "0 < n \<Longrightarrow> concat (chunks n xs) = xs"
  by (induction n xs rule: chunks.induct) (subst chunks.simps, simp)

lemma in_chunks: "c \<in> set (chunks n xs) \<Longrightarrow> 0 < length c \<and> length c \<le> n"
proof (induction n xs rule: chunks.induct)
  case (1 n xs)
  then show ?case
    by (subst (asm) (2) chunks.simps) (auto split: if_splits)
qed

lemma length_chunks: "length (chunks n xs) \<le> length xs"
proof (induction n xs rule: chunks.induct)
  case (1 n xs)
  show ?case
  proof (cases "xs = [] \<or> n = 0")
    case False
    then have "Suc (length (chunks n (drop n xs))) \<le> length xs"
      using 1 by (cases xs) auto
    with False show ?thesis
      by (subst chunks.simps) simp
  qed (subst chunks.simps, auto)
qed

end
