(* ===== verification/Snap_Types.thy ===== *)
theory Snap_Types
  imports Prelude
begin

text \<open>
  The identifiers shared by all crates (\<open>crates/snapstore-types/src/lib.rs\<close>): page
  hashes, pack ids and page locations, snapshot refs, log ids, node ids, validated
  experiment ids, and the node status with its byte encoding.
\<close>

definition PAGE_SIZE :: nat where
  "PAGE_SIZE = 4096"

section \<open>Identifiers\<close>

datatype page_hash = PageHash hash32

definition page_hash_zero :: page_hash where
  "page_hash_zero = PageHash 0"

primrec page_hash_as_bytes :: "page_hash \<Rightarrow> bytes" where
  "page_hash_as_bytes (PageHash h) = to_le_bytes 32 h"

definition page_hash_from_bytes :: "bytes \<Rightarrow> page_hash" where
  "page_hash_from_bytes b = PageHash (from_le_bytes b)"

datatype pack_id = PackId u32

primrec pack_num :: "pack_id \<Rightarrow> u32" where
  "pack_num (PackId n) = n"

record page_loc =
  loc_pack :: pack_id
  loc_offset :: u64

datatype snapshot_ref = SnapshotRef hash32

definition snapshot_ref_zero :: snapshot_ref where
  "snapshot_ref_zero = SnapshotRef 0"

primrec snapshot_ref_to_bytes :: "snapshot_ref \<Rightarrow> bytes" where
  "snapshot_ref_to_bytes (SnapshotRef h) = to_le_bytes 32 h"

definition snapshot_ref_from_bytes :: "bytes \<Rightarrow> snapshot_ref" where
  "snapshot_ref_from_bytes b = SnapshotRef (from_le_bytes b)"

datatype log_id = LogId hash32

primrec log_id_to_bytes :: "log_id \<Rightarrow> bytes" where
  "log_id_to_bytes (LogId h) = to_le_bytes 32 h"

definition log_id_from_bytes :: "bytes \<Rightarrow> log_id" where
  "log_id_from_bytes b = LogId (from_le_bytes b)"

datatype node_id = NodeId u64

primrec node_num :: "node_id \<Rightarrow> u64" where
  "node_num (NodeId n) = n"

definition node_root :: node_id where
  "node_root = NodeId 0"

definition is_root :: "node_id \<Rightarrow> bool" where
  "is_root n = (node_num n = 0)"

text \<open>The derived orders of \<open>PackId\<close> and \<open>NodeId\<close> compare the numbers.\<close>

instantiation pack_id :: linorder
begin

definition less_eq_pack_id :: "pack_id \<Rightarrow> pack_id \<Rightarrow> bool" where
  "less_eq_pack_id a b = (pack_num a \<le> pack_num b)"

definition less_pack_id :: "pack_id \<Rightarrow> pack_id \<Rightarrow> bool" where
  "less_pack_id a b = (pack_num a < pack_num b)"

instance
proof
  fix x y z :: pack_id
  show "x < y \<longleftrightarrow> x \<le> y \<and> \<not> y \<le> x"
    by (auto simp: less_pack_id_def less_eq_pack_id_def)
  show "x \<le> x"
    by (simp add: less_eq_pack_id_def)
  show "x \<le> y \<Longrightarrow> y \<le> z \<Longrightarrow> x \<le> z"
    by (simp add: less_eq_pack_id_def)
  show "x \<le> y \<Longrightarrow> y \<le> x \<Longrightarrow> x = y"
    by (cases x; cases y) (simp add: less_eq_pack_id_def)
  show "x \<le> y \<or> y \<le> x"
    by (auto simp: less_eq_pack_id_def)
qed

end

instantiation node_id :: linorder
begin

definition less_eq_node_id :: "node_id \<Rightarrow> node_id \<Rightarrow> bool" where
  "less_eq_node_id a b = (node_num a \<le> node_num b)"

definition less_node_id :: "node_id \<Rightarrow> node_id \<Rightarrow> bool" where
  "less_node_id a b = (node_num a < node_num b)"

instance
proof
  fix x y z :: node_id
  show "x < y \<longleftrightarrow> x \<le> y \<and> \<not> y \<le> x"
    by (auto simp: less_node_id_def less_eq_node_id_def)
  show "x \<le> x"
    by (simp add: less_eq_node_id_def)
  show "x \<le> y \<Longrightarrow> y \<le> z \<Longrightarrow> x \<le> z"
    by (simp add: less_eq_node_id_def)
  show "x \<le> y \<Longrightarrow> y \<le> x \<Longrightarrow> x = y"
    by (cases x; cases y) (simp add: less_eq_node_id_def)
  show "x \<le> y \<or> y \<le> x"
    by (auto simp: less_eq_node_id_def)
qed

end

section \<open>Experiment ids\<close>

definition EXPERIMENT_ID_MAX_BYTES :: nat where
  "EXPERIMENT_ID_MAX_BYTES = 128"

text \<open>A Rust \<open>String\<close> is its UTF-8 bytes; a \<open>char\<close> of HOL is one byte.\<close>

datatype experiment_id = ExperimentId string

datatype experiment_id_error = Empty | TooLong nat

definition experiment_id_new :: "string \<Rightarrow> (experiment_id_error, experiment_id) outcome" where
  "experiment_id_new s =
     (if s = [] then Err Empty
      else if length s > EXPERIMENT_ID_MAX_BYTES then Err (TooLong (length s))
      else Ok (ExperimentId s))"

primrec experiment_str :: "experiment_id \<Rightarrow> string" where
  "experiment_str (ExperimentId s) = s"

section \<open>Node status\<close>

datatype node_status = Frontier | Expanded | Pruned | Goal

definition node_status_from_u8 :: "byte \<Rightarrow> node_status option" where
  "node_status_from_u8 v =
     (if v = 0 then Some Frontier
      else if v = 1 then Some Expanded
      else if v = 2 then Some Pruned
      else if v = 3 then Some Goal
      else None)"

primrec node_status_as_u8 :: "node_status \<Rightarrow> byte" where
  "node_status_as_u8 Frontier = 0"
| "node_status_as_u8 Expanded = 1"
| "node_status_as_u8 Pruned = 2"
| "node_status_as_u8 Goal = 3"

section \<open>Laws of the identifiers\<close>

lemma page_hash_from_as_bytes [simp]: "page_hash_from_bytes (page_hash_as_bytes h) = h"
  by (cases h) (simp add: page_hash_from_bytes_def le_codec)

lemma page_hash_as_from_bytes [simp]:
  "length b = 32 \<Longrightarrow> page_hash_as_bytes (page_hash_from_bytes b) = b"
  by (simp add: page_hash_from_bytes_def le_codec)

lemma length_page_hash_as_bytes [simp]: "length (page_hash_as_bytes h) = 32"
  by (cases h) simp

lemma page_hash_as_bytes_inject [simp]: "page_hash_as_bytes a = page_hash_as_bytes b \<longleftrightarrow> a = b"
  by (cases a; cases b) (simp add: le_codec)

lemma snapshot_ref_from_to_bytes [simp]: "snapshot_ref_from_bytes (snapshot_ref_to_bytes r) = r"
  by (cases r) (simp add: snapshot_ref_from_bytes_def le_codec)

lemma snapshot_ref_to_from_bytes [simp]:
  "length b = 32 \<Longrightarrow> snapshot_ref_to_bytes (snapshot_ref_from_bytes b) = b"
  by (simp add: snapshot_ref_from_bytes_def le_codec)

lemma length_snapshot_ref_to_bytes [simp]: "length (snapshot_ref_to_bytes r) = 32"
  by (cases r) simp

lemma log_id_from_to_bytes [simp]: "log_id_from_bytes (log_id_to_bytes r) = r"
  by (cases r) (simp add: log_id_from_bytes_def le_codec)

lemma length_log_id_to_bytes [simp]: "length (log_id_to_bytes r) = 32"
  by (cases r) simp

lemma pack_num_inject [simp]: "pack_num a = pack_num b \<longleftrightarrow> a = b"
  by (cases a; cases b) simp

lemma node_num_inject [simp]: "node_num a = node_num b \<longleftrightarrow> a = b"
  by (cases a; cases b) simp

lemma node_status_roundtrip [simp]: "node_status_from_u8 (node_status_as_u8 s) = Some s"
  by (cases s) (simp_all add: node_status_from_u8_def)

lemma experiment_id_new_Ok:
  "experiment_id_new s = Ok e \<longleftrightarrow> e = ExperimentId s \<and> 1 \<le> length s \<and> length s \<le> 128"
  by (cases s) (auto simp: experiment_id_new_def EXPERIMENT_ID_MAX_BYTES_def)

end
