(* ===== verification/Manifest.thy ===== *)
theory Manifest
  imports Snap_Types
begin

text \<open>
  The \<open>.spm\<close> snapshot-manifest container (\<open>crates/snapstore-manifest/src/lib.rs\<close>):
  builders, canonical encoding, validating decoder, and the flattening of delta
  chains.  BLAKE3 (\<open>blake3\<close>) and zstd decompression (\<open>zstd\<close>, \<open>None\<close> when
  \<open>zstd::decode_all\<close> fails) are third-party code and are arguments of the
  definitions that call them; no property of either is assumed.
\<close>

section \<open>Data model\<close>

definition MAGIC :: bytes where
  "MAGIC = ascii ''SPSMAN01''"

definition VERSION :: u16 where
  "VERSION = 1"

definition HEADER_LEN :: u32 where
  "HEADER_LEN = 96"

definition PAGE_SIZE_V1 :: u64 where
  "PAGE_SIZE_V1 = 4096"

definition FLAG_DELTA :: u16 where
  "FLAG_DELTA = 1"

definition FLAG_DEV_ZSTD :: u16 where
  "FLAG_DEV_ZSTD = 2"

definition FLAG_KNOWN_BITS :: u16 where
  "FLAG_KNOWN_BITS = FLAG_DELTA OR FLAG_DEV_ZSTD"

definition ENTRY_SIZE :: nat where
  "ENTRY_SIZE = 40"

definition FOOTER_LEN :: nat where
  "FOOTER_LEN = 32"

lemmas manifest_consts = MAGIC_def VERSION_def HEADER_LEN_def PAGE_SIZE_V1_def FLAG_DELTA_def
  FLAG_DEV_ZSTD_def FLAG_KNOWN_BITS_def ENTRY_SIZE_def FOOTER_LEN_def

record manifest_entry =
  page_index :: u64
  page_hash :: page_hash

record device_blob =
  blob_format :: u32
  blob_zstd :: bool
  blob_bytes :: bytes
  blob_raw_len :: u64

record manifest =
  m_version :: u16
  m_delta :: bool
  m_parent :: "snapshot_ref option"
  m_guest_ram_bytes :: u64
  m_entries :: "manifest_entry list"
  m_device_blob :: device_blob

datatype manifest_error =
    BadMagic
  | UnsupportedVersion u16
  | UnknownFlags u16
  | BadHeaderLen u32
  | ReservedNonZero
  | BadPageSize u64
  | GuestRamNotAligned u64
  | EntriesNotAscending
  | FullCountMismatch u64 u64
  | FullNotContiguous
  | FullNonZeroParent
  | DeltaZeroParent
  | DeltaIndexOutOfRange u64 u64
  | FooterMismatch
  | TrailingBytes
  | Truncated
  | ZstdRawLenMismatch nat u64
  | NonZstdRawLenMismatch u64 u64

section \<open>Builders\<close>

text \<open>The loops over \<open>entries\<close>: \<open>windows(2)\<close> strictly ascending, first index out of
  range, and \<open>page_index == i\<close> for the \<open>i\<close>-th entry.\<close>

fun windows_ascending :: "manifest_entry list \<Rightarrow> bool" where
  "windows_ascending (a # b # es) =
     (if page_index a \<ge> page_index b then False else windows_ascending (b # es))"
| "windows_ascending _ = True"

fun check_in_range :: "u64 \<Rightarrow> manifest_entry list \<Rightarrow> (manifest_error, unit) outcome" where
  "check_in_range max_idx [] = Ok ()"
| "check_in_range max_idx (e # es) =
     (if page_index e \<ge> max_idx then Err (DeltaIndexOutOfRange (page_index e) max_idx)
      else check_in_range max_idx es)"

fun check_contiguous :: "nat \<Rightarrow> manifest_entry list \<Rightarrow> (manifest_error, unit) outcome" where
  "check_contiguous i [] = Ok ()"
| "check_contiguous i (e # es) =
     (if page_index e \<noteq> of_nat i then Err FullNotContiguous else check_contiguous (Suc i) es)"

definition validate_device_blob :: "device_blob \<Rightarrow> (manifest_error, unit) outcome" where
  "validate_device_blob blob =
     (if \<not> blob_zstd blob \<and> blob_raw_len blob \<noteq> of_nat (length (blob_bytes blob))
      then Err (NonZstdRawLenMismatch (blob_raw_len blob) (of_nat (length (blob_bytes blob))))
      else Ok ())"

definition new_full ::
  "u64 \<Rightarrow> manifest_entry list \<Rightarrow> device_blob \<Rightarrow> (manifest_error, manifest) outcome" where
  "new_full guest_ram_bytes entries0 blob =
     (if guest_ram_bytes mod PAGE_SIZE_V1 \<noteq> 0 then Err (GuestRamNotAligned guest_ram_bytes)
      else
        let entries = sort_key page_index entries0;
            expected_pages = guest_ram_bytes div PAGE_SIZE_V1
        in if of_nat (length entries) \<noteq> expected_pages
           then Err (FullCountMismatch (of_nat (length entries)) expected_pages)
           else obind (check_contiguous 0 entries) (\<lambda>_.
                obind (validate_device_blob blob) (\<lambda>_.
                Ok \<lparr>m_version = VERSION, m_delta = False, m_parent = None,
                    m_guest_ram_bytes = guest_ram_bytes, m_entries = entries,
                    m_device_blob = blob\<rparr>)))"

definition new_delta ::
  "snapshot_ref \<Rightarrow> u64 \<Rightarrow> manifest_entry list \<Rightarrow> device_blob \<Rightarrow> (manifest_error, manifest) outcome"
where
  "new_delta parent guest_ram_bytes entries0 blob =
     (if guest_ram_bytes mod PAGE_SIZE_V1 \<noteq> 0 then Err (GuestRamNotAligned guest_ram_bytes)
      else
        let entries = sort_key page_index entries0 in
        if \<not> windows_ascending entries then Err EntriesNotAscending
        else
          obind (check_in_range (guest_ram_bytes div PAGE_SIZE_V1) entries) (\<lambda>_.
          obind (validate_device_blob blob) (\<lambda>_.
          Ok \<lparr>m_version = VERSION, m_delta = True, m_parent = Some parent,
              m_guest_ram_bytes = guest_ram_bytes, m_entries = entries,
              m_device_blob = blob\<rparr>)))"

section \<open>Encode\<close>

definition encode_flags :: "bool \<Rightarrow> bool \<Rightarrow> u16" where
  "encode_flags delta zstd_flag =
     (let flags = 0;
          flags = (if delta then flags OR FLAG_DELTA else flags);
          flags = (if zstd_flag then flags OR FLAG_DEV_ZSTD else flags)
      in flags)"

definition encode_entry :: "manifest_entry \<Rightarrow> bytes" where
  "encode_entry e = to_le_bytes 8 (page_index e) @ page_hash_as_bytes (page_hash e)"

definition encode_header :: "manifest \<Rightarrow> bytes" where
  "encode_header m =
     (let entry_count = of_nat (length (m_entries m)) :: u64;
          device_blob_len = of_nat (length (blob_bytes (m_device_blob m))) :: u64;
          device_blob_raw_len = blob_raw_len (m_device_blob m);
          device_blob_format = blob_format (m_device_blob m);
          flags = encode_flags (m_delta m) (blob_zstd (m_device_blob m));
          parent_hash = (case m_parent m of Some r \<Rightarrow> snapshot_ref_to_bytes r
                                          | None \<Rightarrow> to_le_bytes 32 (0 :: hash32))
      in MAGIC
         @ to_le_bytes 2 VERSION
         @ to_le_bytes 2 flags
         @ to_le_bytes 4 HEADER_LEN
         @ parent_hash
         @ to_le_bytes 8 (m_guest_ram_bytes m)
         @ to_le_bytes 8 PAGE_SIZE_V1
         @ to_le_bytes 8 entry_count
         @ to_le_bytes 8 device_blob_len
         @ to_le_bytes 8 device_blob_raw_len
         @ to_le_bytes 4 device_blob_format
         @ to_le_bytes 4 (0 :: u32))"

definition encode_body :: "manifest \<Rightarrow> bytes" where
  "encode_body m =
     encode_header m @ concat (map encode_entry (m_entries m)) @ blob_bytes (m_device_blob m)"

definition encode :: "(bytes \<Rightarrow> hash32) \<Rightarrow> manifest \<Rightarrow> bytes" where
  "encode blake3 m = (let buf = encode_body m in buf @ to_le_bytes 32 (blake3 buf))"

section \<open>Decode\<close>

text \<open>The entry-table loop: entry \<open>i\<close> starts at \<open>96 + i * ENTRY_SIZE\<close>.\<close>

fun parse_entries :: "bytes \<Rightarrow> nat \<Rightarrow> nat \<Rightarrow> (manifest_error, manifest_entry list) outcome" where
  "parse_entries buf off 0 = Ok []"
| "parse_entries buf off (Suc n) =
     obind (read_le 8 off buf) (\<lambda>idx.
     obind (read_le 32 (off + 8) buf) (\<lambda>h.
     obind (parse_entries buf (off + ENTRY_SIZE) n) (\<lambda>es.
     Ok (\<lparr>page_index = idx, page_hash = PageHash h\<rparr> # es))))"

text \<open>The flags / delta / full invariants.\<close>

definition decode_parent ::
  "bool \<Rightarrow> hash32 \<Rightarrow> u64 \<Rightarrow> u64 \<Rightarrow> manifest_entry list \<Rightarrow>
     (manifest_error, snapshot_ref option) outcome" where
  "decode_parent is_delta parent_hash guest_ram_bytes entry_count entries =
     (let parent_all_zero = (parent_hash = 0);
          max_idx = guest_ram_bytes div PAGE_SIZE_V1
      in if is_delta then
           if parent_all_zero then Err DeltaZeroParent
           else obind (check_in_range max_idx entries) (\<lambda>_. Ok (Some (SnapshotRef parent_hash)))
         else
           if \<not> parent_all_zero then Err FullNonZeroParent
           else if entry_count \<noteq> max_idx then Err (FullCountMismatch entry_count max_idx)
           else obind (check_contiguous 0 entries) (\<lambda>_. Ok None))"

definition check_blob ::
  "(bytes \<Rightarrow> bytes option) \<Rightarrow> bool \<Rightarrow> bytes \<Rightarrow> u64 \<Rightarrow> u64 \<Rightarrow> (manifest_error, unit) outcome" where
  "check_blob zstd is_dev_zstd blob raw_len blob_len =
     (if is_dev_zstd then
        (case zstd blob of
           None \<Rightarrow> Err (ZstdRawLenMismatch 0 raw_len)
         | Some decompressed \<Rightarrow>
             if of_nat (length decompressed) \<noteq> raw_len
             then Err (ZstdRawLenMismatch (length decompressed) raw_len)
             else Ok ())
      else if raw_len \<noteq> blob_len then Err (NonZstdRawLenMismatch raw_len blob_len)
      else Ok ())"

definition decode ::
  "(bytes \<Rightarrow> hash32) \<Rightarrow> (bytes \<Rightarrow> bytes option) \<Rightarrow> bytes \<Rightarrow> (manifest_error, manifest) outcome" where
  "decode blake3 zstd buf =
     (if length buf < 96 + FOOTER_LEN then Err Truncated
      else
      let footer_start = length buf - FOOTER_LEN in
      obind (slice 0 footer_start buf) (\<lambda>body.
      obind (read_le 32 footer_start buf) (\<lambda>stored_hash.
      if blake3 body \<noteq> stored_hash then Err FooterMismatch
      else
      obind (slice 0 8 buf) (\<lambda>magic.
      if magic \<noteq> MAGIC then Err BadMagic
      else
      obind (read_le 2 8 buf) (\<lambda>version.
      if version \<noteq> VERSION then Err (UnsupportedVersion version)
      else
      obind (read_le 2 10 buf) (\<lambda>flags.
      let unknown = flags AND NOT FLAG_KNOWN_BITS in
      if unknown \<noteq> 0 then Err (UnknownFlags unknown)
      else
      obind (read_le 4 12 buf) (\<lambda>header_len.
      if header_len \<noteq> HEADER_LEN then Err (BadHeaderLen header_len)
      else
      obind (read_le 32 16 buf) (\<lambda>parent_hash.
      obind (read_le 8 48 buf) (\<lambda>guest_ram_bytes.
      obind (read_le 8 56 buf) (\<lambda>page_size.
      obind (read_le 8 64 buf) (\<lambda>entry_count.
      obind (read_le 8 72 buf) (\<lambda>device_blob_len.
      obind (read_le 8 80 buf) (\<lambda>device_blob_raw_len.
      obind (read_le 4 88 buf) (\<lambda>device_blob_format.
      obind (read_le 4 92 buf) (\<lambda>reserved.
      if reserved \<noteq> (0 :: u32) then Err ReservedNonZero
      else if page_size \<noteq> PAGE_SIZE_V1 then Err (BadPageSize page_size)
      else if guest_ram_bytes mod PAGE_SIZE_V1 \<noteq> 0 then Err (GuestRamNotAligned guest_ram_bytes)
      else
      obind (ok_or Truncated (checked_mul (unat (entry_count :: u64)) ENTRY_SIZE)) (\<lambda>entries_bytes.
      let blob_len_usize = unat (device_blob_len :: u64) in
      obind (ok_or Truncated (Option.bind (checked_add 96 entries_bytes)
                                (\<lambda>n. checked_add n blob_len_usize))) (\<lambda>expected_body.
      if length body \<noteq> expected_body
      then (if length body < expected_body then Err Truncated else Err TrailingBytes)
      else
      let entries_end = 96 + entries_bytes in
      obind (parse_entries buf 96 (unat entry_count)) (\<lambda>entries.
      if \<not> windows_ascending entries then Err EntriesNotAscending
      else
      let is_delta = (flags AND FLAG_DELTA \<noteq> 0);
          is_dev_zstd = (flags AND FLAG_DEV_ZSTD \<noteq> 0) in
      obind (decode_parent is_delta parent_hash guest_ram_bytes entry_count entries) (\<lambda>parent_opt.
      obind (slice entries_end (entries_end + blob_len_usize) buf) (\<lambda>bb.
      obind (check_blob zstd is_dev_zstd bb device_blob_raw_len device_blob_len) (\<lambda>_.
      Ok \<lparr>m_version = version, m_delta = is_delta, m_parent = parent_opt,
          m_guest_ram_bytes = guest_ram_bytes, m_entries = entries,
          m_device_blob = \<lparr>blob_format = device_blob_format, blob_zstd = is_dev_zstd,
                           blob_bytes = bb, blob_raw_len = device_blob_raw_len\<rparr>\<rparr>)))))))))))))))))))))"

text \<open>\<open>snapshot_ref\<close> hashes everything before the footer (\<open>saturating_sub\<close>).\<close>

definition snapshot_ref_of :: "(bytes \<Rightarrow> hash32) \<Rightarrow> bytes \<Rightarrow> snapshot_ref" where
  "snapshot_ref_of blake3 buf =
     (let body_len = length buf - FOOTER_LEN in SnapshotRef (blake3 (take body_len buf)))"

section \<open>The validation loops, declaratively\<close>

lemma windows_ascending_iff: "windows_ascending es \<longleftrightarrow> sorted_wrt (<) (map page_index es)"
proof (induction es rule: windows_ascending.induct)
  case (1 a b es)
  then show ?case
    by (auto simp: not_le)
qed auto

lemma check_in_range_Ok: "check_in_range k es = Ok () \<longleftrightarrow> (\<forall>e\<in>set es. page_index e < k)"
  by (induction es) auto

lemma check_in_range_no_panic [no_panic]: "check_in_range k es \<noteq> Panic"
  by (induction es) auto

lemma check_contiguous_Ok:
  "check_contiguous i es = Ok () \<longleftrightarrow> map page_index es = map of_nat [i..<i + length es]"
  by (induction es arbitrary: i) (auto simp: upt_Cons_add simp del: upt_Suc)

lemma check_contiguous_no_panic [no_panic]: "check_contiguous i es \<noteq> Panic"
  by (induction es arbitrary: i) auto

lemma validate_device_blob_Ok:
  "validate_device_blob b = Ok () \<longleftrightarrow>
     (\<not> blob_zstd b \<longrightarrow> blob_raw_len b = of_nat (length (blob_bytes b)))"
  by (auto simp: validate_device_blob_def)

lemma decode_parent_no_panic [no_panic]: "decode_parent d h r n es \<noteq> Panic"
  by (auto simp: decode_parent_def Let_def obind_eq_Panic no_panic)

lemma check_blob_no_panic [no_panic]: "check_blob z d b r n \<noteq> Panic"
  by (auto simp: check_blob_def split: option.splits)

section \<open>Well-formed manifests\<close>

text \<open>The invariants the struct documents.\<close>

definition manifest_inv :: "manifest \<Rightarrow> bool" where
  "manifest_inv m \<longleftrightarrow>
     m_version m = VERSION \<and>
     m_guest_ram_bytes m mod PAGE_SIZE_V1 = 0 \<and>
     sorted_wrt (<) (map page_index (m_entries m)) \<and>
     (if m_delta m
      then m_parent m \<noteq> None \<and>
           (\<forall>e\<in>set (m_entries m). page_index e < m_guest_ram_bytes m div PAGE_SIZE_V1)
      else m_parent m = None \<and>
           map page_index (m_entries m) = map of_nat [0..<unat (m_guest_ram_bytes m div PAGE_SIZE_V1)]) \<and>
     (\<not> blob_zstd (m_device_blob m) \<longrightarrow>
        blob_raw_len (m_device_blob m) = of_nat (length (blob_bytes (m_device_blob m))))"

text \<open>What the wire form needs beyond them: a delta's parent is not the all-zero ref, a
  compressed blob decompresses to its recorded length, and the body fits \<open>usize\<close>.\<close>

definition manifest_wire_ok :: "(bytes \<Rightarrow> bytes option) \<Rightarrow> manifest \<Rightarrow> bool" where
  "manifest_wire_ok zstd m \<longleftrightarrow>
     manifest_inv m \<and>
     m_parent m \<noteq> Some snapshot_ref_zero \<and>
     (blob_zstd (m_device_blob m) \<longrightarrow>
        (case zstd (blob_bytes (m_device_blob m)) of None \<Rightarrow> False
         | Some d \<Rightarrow> of_nat (length d) = blob_raw_len (m_device_blob m))) \<and>
     96 + length (m_entries m) * ENTRY_SIZE + length (blob_bytes (m_device_blob m)) < usize_limit"

lemma check_blob_Ok:
  "check_blob zstd (blob_zstd b) (blob_bytes b) (blob_raw_len b) (of_nat (length (blob_bytes b))) = Ok ()
   \<longleftrightarrow> (blob_zstd b \<longrightarrow> (case zstd (blob_bytes b) of None \<Rightarrow> False
                         | Some d \<Rightarrow> of_nat (length d) = blob_raw_len b)) \<and>
       (\<not> blob_zstd b \<longrightarrow> blob_raw_len b = of_nat (length (blob_bytes b)))"
  by (auto simp: check_blob_def split: option.splits)

lemma new_full_inv:
  assumes ok: "new_full ram es blob = Ok m" and len: "length es < usize_limit"
  shows "manifest_inv m"
proof -
  define ss where "ss = sort_key page_index es"
  define n where "n = unat (ram div PAGE_SIZE_V1)"
  have cnt: "of_nat (length ss) = ram div PAGE_SIZE_V1"
    and cont: "map page_index ss = map of_nat [0..<length ss]"
    and m: "m = \<lparr>m_version = VERSION, m_delta = False, m_parent = None,
                 m_guest_ram_bytes = ram, m_entries = ss, m_device_blob = blob\<rparr>"
    and rest: "ram mod PAGE_SIZE_V1 = 0" "validate_device_blob blob = Ok ()"
    using ok by (auto simp: new_full_def Let_def obind_eq_Ok check_contiguous_Ok ss_def
        split: if_splits)
  have n: "length ss = n"
    using len by (simp add: n_def cnt[symmetric] ss_def unat_of_nat_u64)
  have "n \<le> 2 ^ 64"
    using unat_less_usize_limit[of "ram div PAGE_SIZE_V1"] by (simp add: n_def usize_limit_def)
  then have "sorted_wrt (<) (map page_index ss)"
    by (simp add: cont n sorted_wrt_map_of_nat)
  then show ?thesis
    using rest cont n
    by (simp add: manifest_inv_def m validate_device_blob_Ok n_def)
qed

lemma new_delta_inv:
  "new_delta p ram es blob = Ok m \<Longrightarrow> manifest_inv m \<and> m_parent m = Some p"
  by (auto simp: new_delta_def Let_def obind_eq_Ok check_in_range_Ok windows_ascending_iff
      validate_device_blob_Ok manifest_inv_def split: if_splits del: mod_0_imp_dvd)

section \<open>Layout of the container\<close>

lemma length_MAGIC [simp]: "length MAGIC = 8"
  by (simp add: MAGIC_def)

lemma length_encode_header [simp]: "length (encode_header m) = 96"
  by (simp add: encode_header_def Let_def split: option.split)

lemma length_encode_entry [simp]: "length (encode_entry e) = 40"
  by (simp add: encode_entry_def)

lemma length_encode_entries [simp]:
  "length (concat (map encode_entry es)) = 40 * length es"
  by (induction es) auto

lemma parse_entries_not_Err [simp]: "parse_entries buf off n \<noteq> Err e"
  by (induction n arbitrary: off) (auto simp: obind_eq_Err)

lemma parse_entries_no_panic [no_panic]:
  "off + 40 * n \<le> length buf \<Longrightarrow> parse_entries buf off n \<noteq> Panic"
  by (induction n arbitrary: off) (auto simp: obind_eq_Panic read_le_Panic ENTRY_SIZE_def)

lemma parse_entries_encode:
  "length pre = off \<Longrightarrow>
   parse_entries (pre @ concat (map encode_entry es) @ post) off (length es) = Ok es"
proof (induction es arbitrary: pre off)
  case Nil
  then show ?case by simp
next
  case (Cons e es)
  have "parse_entries ((pre @ encode_entry e) @ concat (map encode_entry es) @ post) (off + 40) (length es)
        = Ok es"
    by (rule Cons.IH) (simp add: Cons.prems)
  moreover have "PageHash (from_le_bytes (page_hash_as_bytes (page_hash e))) = page_hash e"
    using page_hash_from_as_bytes[of "page_hash e"] by (simp add: page_hash_from_bytes_def)
  ultimately show ?case
    using Cons.prems
    by (simp add: read_le_def slice_def ENTRY_SIZE_def le_codec encode_entry_def[of e])
qed

lemma parse_entries_inverse:
  "parse_entries buf off n = Ok es \<Longrightarrow>
   length es = n \<and> (off \<le> length buf \<longrightarrow> off + 40 * n \<le> length buf) \<and>
   take (40 * n) (drop off buf) = concat (map encode_entry es)"
proof (induction n arbitrary: off es)
  case 0
  then show ?case by simp
next
  case (Suc n)
  let ?x = "take 8 (drop off buf)" and ?h = "take 32 (drop (off + 8) buf)"
  from Suc.prems obtain es' where
    rest: "parse_entries buf (off + 40) n = Ok es'" and len: "off + 40 \<le> length buf"
    and es: "es = \<lparr>page_index = from_le_bytes ?x, page_hash = PageHash (from_le_bytes ?h)\<rparr> # es'"
    by (auto simp: obind_eq_Ok ENTRY_SIZE_def)
  note IH = Suc.IH[OF rest]
  have "encode_entry (hd es) = ?x @ ?h"
    using len by (simp add: es encode_entry_def le_codec)
  also have "\<dots> = take 40 (drop off buf)"
    by (simp add: take_add[of 8 32, simplified] add.commute)
  finally have "concat (map encode_entry es) =
      take 40 (drop off buf) @ take (40 * n) (drop (off + 40) buf)"
    using IH by (simp add: es)
  also have "\<dots> = take (40 + 40 * n) (drop off buf)"
    by (simp add: take_add add.commute)
  finally show ?case
    using IH len by (simp add: es)
qed

section \<open>Reading the header back\<close>

definition parent_word :: "manifest \<Rightarrow> hash32" where
  "parent_word m = (case m_parent m of Some (SnapshotRef h) \<Rightarrow> h | None \<Rightarrow> 0)"

lemma encode_header_fields:
  "encode_header m =
     MAGIC @ to_le_bytes 2 VERSION
     @ to_le_bytes 2 (encode_flags (m_delta m) (blob_zstd (m_device_blob m)))
     @ to_le_bytes 4 HEADER_LEN @ to_le_bytes 32 (parent_word m)
     @ to_le_bytes 8 (m_guest_ram_bytes m) @ to_le_bytes 8 PAGE_SIZE_V1
     @ to_le_bytes 8 (of_nat (length (m_entries m)) :: u64)
     @ to_le_bytes 8 (of_nat (length (blob_bytes (m_device_blob m))) :: u64)
     @ to_le_bytes 8 (blob_raw_len (m_device_blob m))
     @ to_le_bytes 4 (blob_format (m_device_blob m)) @ to_le_bytes 4 (0 :: u32)"
  by (auto simp: encode_header_def parent_word_def Let_def snapshot_ref_to_bytes_def
      split: option.split snapshot_ref.split)

lemma encode_flags_bits [simp]:
  "encode_flags d z AND NOT FLAG_KNOWN_BITS = 0"
  "encode_flags d z AND FLAG_DELTA = 0 \<longleftrightarrow> \<not> d"
  "encode_flags d z AND FLAG_DEV_ZSTD = 0 \<longleftrightarrow> \<not> z"
  by (cases d; cases z; simp add: encode_flags_def manifest_consts)+

lemma encode_flags_decode:
  assumes "flags AND NOT FLAG_KNOWN_BITS = 0"
  shows "encode_flags (flags AND FLAG_DELTA \<noteq> 0) (flags AND FLAG_DEV_ZSTD \<noteq> 0) = flags"
proof -
  have hi: "\<not> bit flags k" if "k \<noteq> 0" "k \<noteq> 1" for k
  proof (cases "k < 16")
    case True
    have "\<not> bit (flags AND NOT FLAG_KNOWN_BITS) k"
      using assms by simp
    moreover have mask: "(3 :: u16) = mask 2"
      by (simp add: mask_eq_exp_minus_1)
    have "\<not> bit (3 :: u16) k"
      unfolding mask using that by (simp add: bit_mask_iff)
    ultimately show ?thesis
      using True by (simp add: manifest_consts bit_simps)
  qed (auto dest: bit_imp_le_length)
  have "flags AND 1 \<noteq> 0 \<longleftrightarrow> bit flags 0" "flags AND 2 \<noteq> 0 \<longleftrightarrow> bit flags 1"
    using and_exp_eq_0_iff_not_bit[of flags 0] and_exp_eq_0_iff_not_bit[of flags 1] by simp_all
  then show ?thesis
    using hi[of k for k] by (intro bit_word_eqI)
      (case_tac "n = 0 \<or> n = 1"; auto simp: encode_flags_def manifest_consts bit_simps bit_1_iff bit_numeral_rec
        split: nat.split)
qed

lemma read_header:
  fixes m r
  defines "buf \<equiv> encode_header m @ r"
  shows "slice 0 8 buf = Ok MAGIC"
    "read_le 2 8 buf = Ok VERSION"
    "read_le 2 10 buf = Ok (encode_flags (m_delta m) (blob_zstd (m_device_blob m)))"
    "read_le 4 12 buf = Ok HEADER_LEN"
    "read_le 32 16 buf = Ok (parent_word m)"
    "read_le 8 48 buf = Ok (m_guest_ram_bytes m)"
    "read_le 8 56 buf = Ok PAGE_SIZE_V1"
    "read_le 8 64 buf = Ok (of_nat (length (m_entries m)) :: u64)"
    "read_le 8 72 buf = Ok (of_nat (length (blob_bytes (m_device_blob m))) :: u64)"
    "read_le 8 80 buf = Ok (blob_raw_len (m_device_blob m))"
    "read_le 4 88 buf = Ok (blob_format (m_device_blob m))"
    "read_le 4 92 buf = Ok (0 :: u32)"
  by (simp_all add: buf_def encode_header_fields le_codec)

lemma decode_parent_encode:
  assumes "manifest_inv m" "m_parent m \<noteq> Some snapshot_ref_zero"
  shows "decode_parent (m_delta m) (parent_word m) (m_guest_ram_bytes m)
           (of_nat (length (m_entries m))) (m_entries m) = Ok (m_parent m)"
proof (cases "m_delta m")
  case True
  then show ?thesis
    using assms by (auto simp: decode_parent_def manifest_inv_def Let_def parent_word_def
        snapshot_ref_zero_def check_in_range_Ok obind_eq_Ok split: snapshot_ref.splits)
next
  case False
  then have *: "map page_index (m_entries m) =
      map of_nat [0..<unat (m_guest_ram_bytes m div PAGE_SIZE_V1)]"
    using assms by (simp add: manifest_inv_def)
  then have "length (m_entries m) = unat (m_guest_ram_bytes m div PAGE_SIZE_V1)"
    by (metis length_map length_upt minus_nat.diff_0)
  then show ?thesis
    using assms False * by (auto simp: decode_parent_def manifest_inv_def Let_def parent_word_def
        check_contiguous_Ok obind_eq_Ok)
qed

section \<open>Round trip and canonicity\<close>

lemma decode_encode:
  assumes ok: "manifest_wire_ok zstd m"
  shows "decode blake3 zstd (encode blake3 m) = Ok m"
proof -
  let ?E = "concat (map encode_entry (m_entries m))" and ?b = "blob_bytes (m_device_blob m)"
  let ?f = "to_le_bytes 32 (blake3 (encode_body m))"
  let ?buf = "encode_header m @ ?E @ ?b @ ?f"
  have inv: "manifest_inv m" and fits: "96 + 40 * length (m_entries m) + length ?b < usize_limit"
    and par: "m_parent m \<noteq> Some snapshot_ref_zero"
    using ok by (simp_all add: manifest_wire_ok_def ENTRY_SIZE_def mult.commute)
  have buf: "encode blake3 m = ?buf"
    by (simp add: encode_def encode_body_def Let_def)
  have entries: "parse_entries ?buf 96 (length (m_entries m)) = Ok (m_entries m)"
    by (rule parse_entries_encode) simp
  have blob: "check_blob zstd (blob_zstd (m_device_blob m)) ?b (blob_raw_len (m_device_blob m))
      (of_nat (length ?b)) = Ok ()"
    using ok inv by (simp add: check_blob_Ok manifest_wire_ok_def manifest_inv_def)
  have asc: "windows_ascending (m_entries m)" and ver: "m_version m = VERSION"
    and al: "m_guest_ram_bytes m mod PAGE_SIZE_V1 = 0"
    using inv by (simp_all add: manifest_inv_def windows_ascending_iff)
  have n: "unat (of_nat (length (m_entries m)) :: u64) = length (m_entries m)"
    "unat (of_nat (length ?b) :: u64) = length ?b"
    using fits by (simp_all add: unat_of_nat_u64)
  let ?n = "length (m_entries m) * 40"
  have frame: "length ?buf = 128 + (?n + length ?b)"
    "slice 0 (96 + (?n + length ?b)) ?buf = Ok (encode_body m)"
    "read_le 32 (96 + (?n + length ?b)) ?buf = Ok (blake3 (encode_body m))"
    "slice (96 + ?n) (96 + ?n + length ?b) ?buf = Ok ?b"
    "length (encode_body m) = 96 + (?n + length ?b)"
    by (simp_all add: encode_body_def le_codec)
  show ?thesis
    unfolding buf decode_def
    using fits
    by (simp add: FOOTER_LEN_def ENTRY_SIZE_def checked_mul_def checked_add_def Let_def mult.commute
        frame read_header n entries asc al blob ver decode_parent_encode[OF inv par]
        del: slice_Ok read_le_Ok length_append)
qed

lemma decode_no_panic [no_panic]: "decode blake3 zstd buf \<noteq> Panic"
proof
  assume "decode blake3 zstd buf = Panic"
  then show False
    by (auto simp: decode_def Let_def obind_eq_Panic slice_Panic read_le_Panic FOOTER_LEN_def
        ENTRY_SIZE_def split: if_splits bind_splits
        dest!: parse_entries_no_panic[THEN notE, rotated] 
          decode_parent_no_panic[THEN notE] check_blob_no_panic[THEN notE])
qed

text \<open>The facts the decoder has checked when it returns.\<close>

lemma decode_OkE:
  assumes "decode blake3 zstd buf = Ok m"
  obtains flags :: u16 and h :: hash32 and n len :: u64 where
    "length buf = 128 + unat n * 40 + unat len"
    "96 + unat n * 40 + unat len < usize_limit"
    "blake3 (take (length buf - 32) buf) = from_le_bytes (drop (length buf - 32) buf)"
    "MAGIC = take 8 buf" "VERSION = from_le_bytes (take 2 (drop 8 buf))"
    "flags = from_le_bytes (take 2 (drop 10 buf))" "flags AND NOT FLAG_KNOWN_BITS = 0"
    "HEADER_LEN = from_le_bytes (take 4 (drop 12 buf))"
    "h = from_le_bytes (take 32 (drop 16 buf))"
    "m_guest_ram_bytes m = from_le_bytes (take 8 (drop 48 buf))"
    "PAGE_SIZE_V1 = from_le_bytes (take 8 (drop 56 buf))"
    "n = from_le_bytes (take 8 (drop 64 buf))"
    "len = from_le_bytes (take 8 (drop 72 buf))"
    "blob_raw_len (m_device_blob m) = from_le_bytes (take 8 (drop 80 buf))"
    "blob_format (m_device_blob m) = from_le_bytes (take 4 (drop 88 buf))"
    "(0 :: u32) = from_le_bytes (take 4 (drop 92 buf))"
    "m_guest_ram_bytes m mod PAGE_SIZE_V1 = 0"
    "parse_entries buf 96 (unat n) = Ok (m_entries m)" "windows_ascending (m_entries m)"
    "m_delta m \<longleftrightarrow> flags AND FLAG_DELTA \<noteq> 0"
    "blob_zstd (m_device_blob m) \<longleftrightarrow> flags AND FLAG_DEV_ZSTD \<noteq> 0"
    "decode_parent (m_delta m) h (m_guest_ram_bytes m) n (m_entries m) = Ok (m_parent m)"
    "blob_bytes (m_device_blob m) = take (unat len) (drop (96 + unat n * 40) buf)"
    "check_blob zstd (blob_zstd (m_device_blob m)) (blob_bytes (m_device_blob m))
       (blob_raw_len (m_device_blob m)) len = Ok ()"
    "m_version m = VERSION"
proof -
  show thesis
    using assms
    apply (simp add: decode_def Let_def obind_eq_Ok FOOTER_LEN_def ENTRY_SIZE_def
      Option.bind_eq_Some_conv split: if_split_asm)
    apply (elim exE conjE)
    apply (drule sym[where t = m])
    apply (rule that[where flags = "from_le_bytes (take 2 (drop 10 buf))" and
      h = "from_le_bytes (take 32 (drop 16 buf))" and n = "from_le_bytes (take 8 (drop 64 buf))" and
      len = "from_le_bytes (take 8 (drop 72 buf))"])
    apply (rule refl | assumption | erule sym | simp (no_asm_simp) | linarith)+
    done
qed

lemma decode_parent_Ok:
  assumes "decode_parent d h ram n es = Ok p" "length es = unat n"
  shows "(case p of Some (SnapshotRef k) \<Rightarrow> k | None \<Rightarrow> 0) = h \<and> p \<noteq> Some snapshot_ref_zero \<and>
    (if d then p \<noteq> None \<and> (\<forall>e\<in>set es. page_index e < ram div PAGE_SIZE_V1)
     else p = None \<and> map page_index es = map of_nat [0..<unat (ram div PAGE_SIZE_V1)])"
  using assms
  by (auto simp: decode_parent_def Let_def obind_eq_Ok check_in_range_Ok check_contiguous_Ok
      snapshot_ref_zero_def split: if_splits)

lemma decode_Ok:
  assumes ok: "decode blake3 zstd buf = Ok m"
  shows "encode blake3 m = buf" and "manifest_wire_ok zstd m"
proof -
  from ok show "encode blake3 m = buf"
  proof (rule decode_OkE, goal_cases)
    case (1 flags h n len)
    note pe = parse_entries_inverse[OF 1(18)]
    have par: "parent_word m = h"
      using decode_parent_Ok[OF 1(22)] pe by (simp add: parent_word_def)
    have flags: "encode_flags (m_delta m) (blob_zstd (m_device_blob m)) = flags"
      using encode_flags_decode[OF 1(7)] 1(20,21) by simp
    have len: "length (blob_bytes (m_device_blob m)) = unat len"
      using 1(1,23) by simp
    have hdr: "encode_header m = take 96 buf"
      unfolding encode_header_fields par flags len pe[THEN conjunct1] of_nat_unat ucast_id
        1(4) 1(5) 1(6) 1(8) 1(9) 1(10) 1(11) 1(12) 1(13) 1(14) 1(15) 1(16)
      using 1(1) by (simp add: le_codec join_fields)
    have body: "encode_body m = take (length buf - 32) buf"
      unfolding encode_body_def hdr pe[THEN conjunct2, THEN conjunct2, symmetric] 1(23)
      using 1(1) by (simp add: join_fields mult.commute)
    show ?case
      using 1(1,3) by (simp add: encode_def body Let_def le_codec)
  qed
  from ok show "manifest_wire_ok zstd m"
  proof (rule decode_OkE, goal_cases)
    case (1 flags h n len)
    have es: "length (m_entries m) = unat n"
      using parse_entries_inverse[OF 1(18)] by simp
    have bl: "length (blob_bytes (m_device_blob m)) = unat len"
      using 1(1,23) by simp
    then have len: "len = of_nat (length (blob_bytes (m_device_blob m)))"
      by simp
    note blob = 1(24)[unfolded len check_blob_Ok]
    show ?case
      using decode_parent_Ok[OF 1(22) es] 1(2,17,19,25) es bl blob
      by (simp add: manifest_wire_ok_def manifest_inv_def windows_ascending_iff ENTRY_SIZE_def
          mult.commute)
  qed
qed

section \<open>Properties\<close>

text \<open>C1: The decoder accepts exactly the canonical encodings of well-formed manifests: a
  buffer decodes to \<open>m\<close> if and only if \<open>m\<close> satisfies the documented invariants and the
  buffer is, byte for byte, \<open>encode m\<close>.  In particular decoding inverts encoding, and no
  two buffers decode to the same manifest.\<close>

theorem decode_iff_encode:
  "decode blake3 zstd buf = Ok m \<longleftrightarrow> manifest_wire_ok zstd m \<and> buf = encode blake3 m"
  using decode_Ok decode_encode by metis

text \<open>C2: The decoder never panics, whatever the bytes: every slice and every size
  computation is guarded.\<close>

theorem decode_total:
  "decode blake3 zstd buf \<noteq> Panic"
  by (rule decode_no_panic)

end
