(* ===== verification/Flatten.thy ===== *)
theory Flatten
  imports Manifest
begin

text \<open>
  \<open>flatten\<close> and \<open>flatten_delta\<close> of \<^verbatim>\<open>crates/snapstore-manifest/src/lib.rs\<close>: the effective
  page table of a chain of manifests, child first.  \<open>flatten\<close> fills one slot per guest
  page from a chain that ends in a full manifest; \<open>flatten_delta\<close> collects the pages a
  segment of deltas touches.  The lemmas relate both to a lookup that walks the chain.
\<close>

section \<open>Flatten\<close>

datatype flatten_error = EmptyChain | RootNotFull | RootNotDelta | RamMismatch | Coverage

text \<open>One manifest written over the slots that are still empty; \<open>result[idx]\<close> panics
  when the index is out of range.\<close>

fun fill_slots ::
  "manifest_entry list \<Rightarrow> manifest_entry option list \<Rightarrow>
     (flatten_error, manifest_entry option list) outcome" where
  "fill_slots [] slots = Ok slots"
| "fill_slots (e # es) slots =
     (let idx = unat (page_index e) in
      obind (index slots idx) (\<lambda>s.
      fill_slots es (if s = None then slots[idx := Some e] else slots)))"

fun fill_chain ::
  "manifest list \<Rightarrow> manifest_entry option list \<Rightarrow>
     (flatten_error, manifest_entry option list) outcome" where
  "fill_chain [] slots = Ok slots"
| "fill_chain (m # ms) slots = obind (fill_slots (m_entries m) slots) (fill_chain ms)"

fun collect_slots :: "manifest_entry option list \<Rightarrow> (flatten_error, manifest_entry list) outcome" where
  "collect_slots [] = Ok []"
| "collect_slots (s # ss) =
     (case s of None \<Rightarrow> Err Coverage
      | Some e \<Rightarrow> obind (collect_slots ss) (\<lambda>es. Ok (e # es)))"

definition flatten :: "manifest list \<Rightarrow> (flatten_error, manifest_entry list) outcome" where
  "flatten chain =
     (if chain = [] then Err EmptyChain
      else if m_delta (last chain) then Err RootNotFull
      else
        let ram = m_guest_ram_bytes (hd chain) in
        if \<not> list_all (\<lambda>m. m_guest_ram_bytes m = ram) chain then Err RamMismatch
        else
          let total_pages = unat (ram div PAGE_SIZE_V1) in
          obind (fill_chain chain (replicate total_pages None)) collect_slots)"

text \<open>\<open>flatten_delta\<close> keeps a \<open>seen\<close> bitmap and an output vector.\<close>

fun push_unseen ::
  "manifest_entry list \<Rightarrow> bool list \<Rightarrow> manifest_entry list \<Rightarrow>
     (flatten_error, bool list \<times> manifest_entry list) outcome" where
  "push_unseen [] seen out = Ok (seen, out)"
| "push_unseen (e # es) seen out =
     (let idx = unat (page_index e) in
      obind (index seen idx) (\<lambda>b.
      if \<not> b then push_unseen es (seen[idx := True]) (out @ [e]) else push_unseen es seen out))"

fun push_chain ::
  "manifest list \<Rightarrow> bool list \<Rightarrow> manifest_entry list \<Rightarrow>
     (flatten_error, bool list \<times> manifest_entry list) outcome" where
  "push_chain [] seen out = Ok (seen, out)"
| "push_chain (m # ms) seen out =
     obind (push_unseen (m_entries m) seen out) (\<lambda>(seen, out). push_chain ms seen out)"

definition flatten_delta :: "manifest list \<Rightarrow> (flatten_error, manifest_entry list) outcome" where
  "flatten_delta chain =
     (if chain = [] then Err EmptyChain
      else if \<not> m_delta (last chain) then Err RootNotDelta
      else
        let ram = m_guest_ram_bytes (hd chain) in
        if \<not> list_all (\<lambda>m. m_guest_ram_bytes m = ram) chain then Err RamMismatch
        else
          let total_pages = unat (ram div PAGE_SIZE_V1) in
          obind (push_chain chain (replicate total_pages False) []) (\<lambda>(_, out).
          Ok (sort_key page_index out)))"

section \<open>Flattening a chain\<close>

text \<open>A page of a chain, read child-first: the entry of the first manifest that has it.\<close>

definition entry_at :: "manifest_entry list \<Rightarrow> u64 \<Rightarrow> manifest_entry option" where
  "entry_at es p = find (\<lambda>e. page_index e = p) es"

fun chain_lookup :: "manifest list \<Rightarrow> u64 \<Rightarrow> manifest_entry option" where
  "chain_lookup [] p = None"
| "chain_lookup (m # ms) p =
     (case entry_at (m_entries m) p of Some e \<Rightarrow> Some e | None \<Rightarrow> chain_lookup ms p)"

lemma entry_at_simps [simp]:
  "entry_at [] p = None"
  "entry_at (e # es) p = (if page_index e = p then Some e else entry_at es p)"
  by (simp_all add: entry_at_def)

lemma entry_at_Some: "entry_at es p = Some e \<Longrightarrow> e \<in> set es \<and> page_index e = p"
  by (induction es) (auto split: if_splits)

lemma entry_at_None: "entry_at es p = None \<longleftrightarrow> p \<notin> page_index ` set es"
  by (induction es) auto

lemma entry_at_in: "p \<in> page_index ` set es \<Longrightarrow> \<exists>e. entry_at es p = Some e"
  using entry_at_None[of es p] by (cases "entry_at es p") auto

lemma chain_lookup_Some: "chain_lookup ms p = Some e \<Longrightarrow> page_index e = p"
  by (induction ms) (auto split: option.splits dest: entry_at_Some)

lemma chain_lookup_append:
  "chain_lookup (as @ bs) p =
     (case chain_lookup as p of Some e \<Rightarrow> Some e | None \<Rightarrow> chain_lookup bs p)"
  by (induction as) (auto split: option.splits)

lemma index_less [simp]: "i < length xs \<Longrightarrow> index xs i = Ok (xs ! i)"
  by simp

lemma fill_slots_Ok:
  assumes "\<forall>e\<in>set es. unat (page_index e) < length slots"
  shows "\<exists>slots'. fill_slots es slots = Ok slots' \<and> length slots' = length slots \<and>
    (\<forall>p. unat p < length slots \<longrightarrow>
       slots' ! unat p = (case slots ! unat p of Some e \<Rightarrow> Some e | None \<Rightarrow> entry_at es p))"
  using assms
proof (induction es arbitrary: slots)
  case Nil
  then show ?case by (auto split: option.split)
next
  case (Cons e es)
  let ?i = "unat (page_index e)"
  let ?s = "if slots ! ?i = None then slots[?i := Some e] else slots"
  have len: "length ?s = length slots" by simp
  obtain slots' where IH: "fill_slots es ?s = Ok slots'" "length slots' = length slots"
    "\<forall>p. unat p < length slots \<longrightarrow>
       slots' ! unat p = (case ?s ! unat p of Some e \<Rightarrow> Some e | None \<Rightarrow> entry_at es p)"
    using Cons.IH[of ?s] Cons.prems unfolding len by auto
  have "slots' ! unat p = (case slots ! unat p of Some e \<Rightarrow> Some e | None \<Rightarrow> entry_at (e # es) p)"
    if "unat p < length slots" for p
  proof -
    have "unat (page_index e) = unat p \<longleftrightarrow> page_index e = p"
      by (simp add: word_unat_eq_iff)
    then show ?thesis
      using IH(3)[rule_format, OF that] that
      by (cases "page_index e = p") (auto split: option.splits if_splits)
  qed
  then show ?case
    using IH(1,2) Cons.prems by (auto simp: Let_def)
qed

lemma fill_chain_Ok:
  assumes "\<forall>m\<in>set ms. \<forall>e\<in>set (m_entries m). unat (page_index e) < length slots"
  shows "\<exists>slots'. fill_chain ms slots = Ok slots' \<and> length slots' = length slots \<and>
    (\<forall>p. unat p < length slots \<longrightarrow>
       slots' ! unat p = (case slots ! unat p of Some e \<Rightarrow> Some e | None \<Rightarrow> chain_lookup ms p))"
  using assms
proof (induction ms arbitrary: slots)
  case Nil
  then show ?case by (auto split: option.split)
next
  case (Cons m ms)
  obtain s1 where s1: "fill_slots (m_entries m) slots = Ok s1" "length s1 = length slots"
    "\<forall>p. unat p < length slots \<longrightarrow>
       s1 ! unat p = (case slots ! unat p of Some e \<Rightarrow> Some e | None \<Rightarrow> entry_at (m_entries m) p)"
    using fill_slots_Ok[of "m_entries m" slots] Cons.prems by auto
  obtain s2 where s2: "fill_chain ms s1 = Ok s2" "length s2 = length slots"
    "\<forall>p. unat p < length slots \<longrightarrow>
       s2 ! unat p = (case s1 ! unat p of Some e \<Rightarrow> Some e | None \<Rightarrow> chain_lookup ms p)"
    using Cons.IH[of s1] Cons.prems s1(2) by auto
  show ?case
    using s1 s2 by (auto split: option.splits)
qed

lemma collect_slots_Ok:
  "collect_slots ss = Ok es \<longleftrightarrow> ss = map Some es"
  by (induction ss arbitrary: es) (auto simp: obind_eq_Ok Cons_eq_map_conv split: option.splits)

lemma collect_slots_no_panic [no_panic]: "collect_slots ss \<noteq> Panic"
  by (induction ss) (auto simp: obind_eq_Panic split: option.splits)

text \<open>What a chain that the store accepts looks like: every manifest well formed and of one
  size, deltas down to one full root.\<close>

definition chain_ok :: "manifest list \<Rightarrow> bool" where
  "chain_ok ms \<longleftrightarrow>
     ms \<noteq> [] \<and> list_all manifest_inv ms \<and> \<not> m_delta (last ms) \<and>
     list_all (\<lambda>m. m_guest_ram_bytes m = m_guest_ram_bytes (hd ms)) ms"

definition total_pages :: "manifest \<Rightarrow> nat" where
  "total_pages m = unat (m_guest_ram_bytes m div PAGE_SIZE_V1)"

lemma full_indices:
  assumes "manifest_inv m" "\<not> m_delta m"
  shows "page_index ` set (m_entries m) = of_nat ` {0..<total_pages m}"
proof -
  have "map page_index (m_entries m) = map of_nat [0..<total_pages m]"
    using assms by (simp add: manifest_inv_def total_pages_def)
  from arg_cong[OF this, of set] show ?thesis
    by simp
qed

lemma manifest_inv_index_less:
  assumes "manifest_inv m" "e \<in> set (m_entries m)"
  shows "unat (page_index e) < total_pages m"
proof (cases "m_delta m")
  case True
  then show ?thesis
    using assms by (simp add: manifest_inv_def total_pages_def flip: word_less_nat_alt)
next
  case False
  then have "page_index e \<in> of_nat ` {0..<total_pages m}"
    using full_indices[OF assms(1)] assms(2) by auto
  moreover have "total_pages m < usize_limit"
    by (simp add: total_pages_def)
  ultimately show ?thesis
    by (auto simp: unat_of_nat_u64)
qed

lemma full_entry_at:
  assumes "manifest_inv m" "\<not> m_delta m" "unat p < total_pages m"
  shows "\<exists>e. entry_at (m_entries m) p = Some e"
proof (rule entry_at_in)
  have "p \<in> of_nat ` {0..<total_pages m}"
    using assms(3) by (intro image_eqI[of _ _ "unat p"]) simp_all
  then show "p \<in> page_index ` set (m_entries m)"
    using full_indices[OF assms(1,2)] by simp
qed

lemma chain_lookup_root:
  assumes "ms \<noteq> []" "manifest_inv (last ms)" "\<not> m_delta (last ms)" "unat p < total_pages (last ms)"
  shows "\<exists>e. chain_lookup ms p = Some e"
proof -
  obtain e where "entry_at (m_entries (last ms)) p = Some e"
    using full_entry_at[OF assms(2-4)] by blast
  then have "\<exists>e. chain_lookup [last ms] p = Some e"
    by simp
  moreover have "chain_lookup ms p = chain_lookup (butlast ms @ [last ms]) p"
    using assms(1) by simp
  ultimately show ?thesis
    unfolding chain_lookup_append by (auto split: option.split)
qed

lemma chain_ok_total:
  assumes "chain_ok ms" "m \<in> set ms"
  shows "manifest_inv m" and "total_pages m = total_pages (hd ms)"
proof -
  have "m_guest_ram_bytes m = m_guest_ram_bytes (hd ms)" and "manifest_inv m"
    using assms unfolding chain_ok_def list_all_iff by blast+
  then show "manifest_inv m" and "total_pages m = total_pages (hd ms)"
    by (simp_all add: total_pages_def)
qed

lemma flatten_chain_ok:
  assumes ok: "chain_ok ms"
  shows "\<exists>es. flatten ms = Ok es \<and> length es = total_pages (hd ms) \<and>
    (\<forall>i < total_pages (hd ms). chain_lookup ms (of_nat i) = Some (es ! i))"
proof -
  let ?n = "total_pages (hd ms)"
  have ne: "ms \<noteq> []" and lst: "last ms \<in> set ms"
    using ok by (auto simp: chain_ok_def)
  have "unat (page_index e) < ?n" if "m \<in> set ms" "e \<in> set (m_entries m)" for m e
    using manifest_inv_index_less[OF chain_ok_total(1)[OF ok that(1)] that(2)]
    by (simp add: chain_ok_total(2)[OF ok that(1)])
  then obtain ss where ss: "fill_chain ms (replicate ?n None) = Ok ss" "length ss = ?n"
    and get: "\<forall>p. unat p < ?n \<longrightarrow> ss ! unat p = chain_lookup ms p"
    using fill_chain_Ok[of ms "replicate ?n None"] by auto
  have some: "\<exists>e. ss ! i = Some e \<and> chain_lookup ms (of_nat i) = Some e" if "i < ?n" for i
  proof -
    have "i < usize_limit"
      using that by (rule less_trans) (simp add: total_pages_def)
    then have i: "unat (of_nat i :: u64) = i"
      by (rule unat_of_nat_u64)
    have "\<exists>e. chain_lookup ms (of_nat i) = Some e"
      using chain_lookup_root[OF ne, of "of_nat i"] chain_ok_total[OF ok lst] that i ok
      by (simp add: chain_ok_def)
    then show ?thesis
      using get[rule_format, of "of_nat i"] that i by simp
  qed
  have "ss ! i = Some (the (ss ! i))" if "i < length ss" for i
    using some[of i] that ss(2) by auto
  then have "ss = map Some (map the ss)"
    by (intro nth_equalityI) simp_all
  then have "collect_slots ss = Ok (map the ss)"
    using collect_slots_Ok by blast
  then have "flatten ms = Ok (map the ss)"
    using ok ss(1) by (simp add: flatten_def chain_ok_def Let_def total_pages_def)
  moreover have "chain_lookup ms (of_nat i) = Some (map the ss ! i)" if "i < ?n" for i
    using some[OF that] ss(2) that by auto
  ultimately show ?thesis
    using ss(2) by (intro exI[of _ "map the ss"]) simp
qed

section \<open>The delta segment\<close>

lemma entry_at_distinct:
  "distinct (map page_index es) \<Longrightarrow> entry_at es p = Some e \<longleftrightarrow> e \<in> set es \<and> page_index e = p"
  by (induction es) (auto simp: image_iff)

lemma entry_at_sort_key:
  assumes "distinct (map page_index es)"
  shows "entry_at (sort_key page_index es) p = entry_at es p"
proof -
  have "distinct (map page_index (sort_key page_index es))"
    using assms by (simp add: distinct_map)
  then have "entry_at (sort_key page_index es) p = Some e \<longleftrightarrow> entry_at es p = Some e" for e
    using assms by (simp add: entry_at_distinct)
  then show ?thesis
    by (rule option_eqI)
qed

lemma entry_at_append:
  "entry_at (as @ bs) p = (case entry_at as p of Some e \<Rightarrow> Some e | None \<Rightarrow> entry_at bs p)"
  by (induction as) auto

definition push_inv :: "bool list \<Rightarrow> manifest_entry list \<Rightarrow> bool" where
  "push_inv seen out \<longleftrightarrow> distinct (map page_index out) \<and>
     (\<forall>p. unat p < length seen \<longrightarrow> (seen ! unat p \<longleftrightarrow> p \<in> page_index ` set out))"

lemma push_inv_step:
  assumes "push_inv seen out" "unat (page_index e) < length seen" "\<not> seen ! unat (page_index e)"
  shows "push_inv (seen[unat (page_index e) := True]) (out @ [e])"
proof -
  have new: "page_index e \<notin> page_index ` set out"
    using assms by (auto simp: push_inv_def)
  have eq: "unat (page_index e) = unat p \<longleftrightarrow> page_index e = p" for p
    by (simp add: word_unat_eq_iff)
  show ?thesis
    using assms new unfolding push_inv_def by (auto simp: nth_list_update eq)
qed

lemma push_unseen_Ok:
  assumes "push_inv seen out" "\<forall>e\<in>set es. unat (page_index e) < length seen"
  shows "\<exists>seen' out'. push_unseen es seen out = Ok (seen', out') \<and> length seen' = length seen \<and>
    push_inv seen' out' \<and> (\<forall>p. entry_at out' p = entry_at (out @ es) p)"
  using assms
proof (induction es arbitrary: seen out)
  case Nil
  then show ?case by simp
next
  case (Cons e es)
  let ?i = "unat (page_index e)"
  show ?case
  proof (cases "seen ! ?i")
    case True
    then have "page_index e \<in> page_index ` set out"
      using Cons.prems by (auto simp: push_inv_def)
    then have "entry_at (out @ es) p = entry_at (out @ e # es) p" for p
      using entry_at_None[of out p] by (auto simp: entry_at_append split: option.splits)
    then show ?thesis
      using Cons.IH[OF Cons.prems(1)] Cons.prems(2) True by (simp add: Let_def)
  next
    case False
    have "push_inv (seen[?i := True]) (out @ [e])"
      using push_inv_step Cons.prems False by simp
    from Cons.IH[OF this] show ?thesis
      using Cons.prems(2) False by (simp add: Let_def)
  qed
qed

lemma push_chain_Ok:
  assumes "push_inv seen out"
    "\<forall>m\<in>set ms. \<forall>e\<in>set (m_entries m). unat (page_index e) < length seen"
  shows "\<exists>seen' out'. push_chain ms seen out = Ok (seen', out') \<and> push_inv seen' out' \<and>
    (\<forall>p. entry_at out' p = (case entry_at out p of Some e \<Rightarrow> Some e | None \<Rightarrow> chain_lookup ms p))"
  using assms
proof (induction ms arbitrary: seen out)
  case Nil
  then show ?case by (auto split: option.split)
next
  case (Cons m ms)
  obtain s1 o1 where 1: "push_unseen (m_entries m) seen out = Ok (s1, o1)"
    "length s1 = length seen" "push_inv s1 o1"
    "\<forall>p. entry_at o1 p = entry_at (out @ m_entries m) p"
    using push_unseen_Ok[of seen out "m_entries m"] Cons.prems by auto
  obtain s2 o2 where 2: "push_chain ms s1 o1 = Ok (s2, o2)" "push_inv s2 o2"
    "\<forall>p. entry_at o2 p = (case entry_at o1 p of Some e \<Rightarrow> Some e | None \<Rightarrow> chain_lookup ms p)"
    using Cons.IH[OF 1(3)] Cons.prems(2) 1(2) by auto
  show ?case
    using 1 2 by (auto simp: entry_at_append split: option.splits)
qed

text \<open>A segment of well-formed deltas of one size.\<close>

definition segment_ok :: "manifest list \<Rightarrow> bool" where
  "segment_ok ms \<longleftrightarrow>
     ms \<noteq> [] \<and> list_all manifest_inv ms \<and> list_all m_delta ms \<and>
     list_all (\<lambda>m. m_guest_ram_bytes m = m_guest_ram_bytes (hd ms)) ms"

lemma flatten_delta_segment_ok:
  assumes ok: "segment_ok ms"
  shows "\<exists>es. flatten_delta ms = Ok es \<and> sorted_wrt (<) (map page_index es) \<and>
    (\<forall>p. entry_at es p = chain_lookup ms p)"
proof -
  let ?n = "total_pages (hd ms)"
  have ram: "m_guest_ram_bytes m = m_guest_ram_bytes (hd ms)" and inv: "manifest_inv m"
    if "m \<in> set ms" for m
    using ok that unfolding segment_ok_def list_all_iff by blast+
  have "unat (page_index e) < ?n" if "m \<in> set ms" "e \<in> set (m_entries m)" for m e
    using manifest_inv_index_less[OF inv[OF that(1)] that(2)] by (simp add: total_pages_def ram[OF that(1)])
  moreover have "push_inv (replicate ?n False) []"
    by (simp add: push_inv_def)
  ultimately obtain seen out where out: "push_chain ms (replicate ?n False) [] = Ok (seen, out)"
    "push_inv seen out" "\<forall>p. entry_at out p = chain_lookup ms p"
    using push_chain_Ok[of "replicate ?n False" "[]" ms] by auto
  have d: "distinct (map page_index out)"
    using out(2) by (simp add: push_inv_def)
  have "m_delta (last ms)"
    using ok by (simp add: segment_ok_def list_all_iff)
  then have "flatten_delta ms = Ok (sort_key page_index out)"
    using ok out(1) by (simp add: flatten_delta_def segment_ok_def total_pages_def Let_def)
  moreover have "sorted_wrt (<) (map page_index (sort_key page_index out))"
    using d by (simp add: strict_sorted_iff distinct_map)
  ultimately show ?thesis
    using out(3) d by (simp add: entry_at_sort_key)
qed

text \<open>The page table \<open>bs\<close> with the pages of the delta \<open>ds\<close> written over it.\<close>

definition overlay :: "manifest_entry list \<Rightarrow> manifest_entry list \<Rightarrow> manifest_entry list" where
  "overlay ds bs = map (\<lambda>e. case entry_at ds (page_index e) of Some d \<Rightarrow> d | None \<Rightarrow> e) bs"

lemma chain_ok_suffix:
  assumes ok: "chain_ok (seg @ base)" and ne: "base \<noteq> []"
  shows "chain_ok base" and "total_pages (hd (seg @ base)) = total_pages (hd base)"
proof -
  have ram: "m_guest_ram_bytes m = m_guest_ram_bytes (hd (seg @ base))" if "m \<in> set base" for m
    using ok that unfolding chain_ok_def list_all_iff by (metis Un_iff set_append)
  have "m_guest_ram_bytes m = m_guest_ram_bytes (hd base)" if "m \<in> set base" for m
    using ram[OF that] ram[of "hd base"] ne by simp
  then show "chain_ok base"
    using ok ne unfolding chain_ok_def list_all_iff by simp
  show "total_pages (hd (seg @ base)) = total_pages (hd base)"
    using ram[of "hd base"] ne by (simp add: total_pages_def)
qed

lemma flatten_overlay:
  assumes ok: "chain_ok (seg @ base)" "segment_ok seg" "base \<noteq> []"
    and ds: "flatten_delta seg = Ok ds" and bs: "flatten base = Ok bs"
  shows "flatten (seg @ base) = Ok (overlay ds bs)"
proof -
  note base = chain_ok_suffix[OF ok(1,3)]
  let ?n = "total_pages (hd base)"
  have ds': "entry_at ds p = chain_lookup seg p" for p
    using flatten_delta_segment_ok[OF ok(2)] ds by auto
  have bs': "length bs = ?n" "chain_lookup base (of_nat i) = Some (bs ! i)" if "i < ?n" for i
    using flatten_chain_ok[OF base(1)] bs that by auto
  have len: "length bs = ?n"
    using flatten_chain_ok[OF base(1)] bs by auto
  obtain es where es: "flatten (seg @ base) = Ok es" "length es = ?n"
    "\<And>i. i < ?n \<Longrightarrow> chain_lookup (seg @ base) (of_nat i) = Some (es ! i)"
    using flatten_chain_ok[OF ok(1)] unfolding base(2) by blast
  have "es ! i = overlay ds bs ! i" if i: "i < ?n" for i
  proof -
    have "page_index (bs ! i) = of_nat i"
      using chain_lookup_Some[OF bs'(2)[OF i]] .
    then show ?thesis
      using es(3)[OF i] bs'(2)[OF i] i len
      by (auto simp: overlay_def ds' chain_lookup_append split: option.splits)
  qed
  then have "es = overlay ds bs"
    using es(2) len by (intro nth_equalityI) (auto simp: overlay_def)
  then show ?thesis
    using es(1) by simp
qed

section \<open>Properties\<close>

text \<open>C3: Every chain of well-formed manifests of one size that ends in a full manifest
  flattens without an error or a panic to one entry per guest page, and the entry of page
  \<open>i\<close> is the one of the manifest closest to the child that has page \<open>i\<close>.\<close>

theorem flatten_complete_child_first:
  assumes "chain_ok ms"
  shows "\<exists>es. flatten ms = Ok es \<and> length es = total_pages (hd ms) \<and>
    (\<forall>i < total_pages (hd ms). page_index (es ! i) = of_nat i \<and>
        chain_lookup ms (of_nat i) = Some (es ! i))"
  using flatten_chain_ok[OF assms] chain_lookup_Some by fast

definition demo_full :: manifest where
  "demo_full = \<lparr>m_version = 1, m_delta = False, m_parent = None, m_guest_ram_bytes = 8192,
     m_entries = [\<lparr>page_index = 0, page_hash = PageHash 7\<rparr>, \<lparr>page_index = 1, page_hash = PageHash 8\<rparr>],
     m_device_blob = \<lparr>blob_format = 1, blob_zstd = False, blob_bytes = [9], blob_raw_len = 1\<rparr>\<rparr>"

definition demo_delta :: manifest where
  "demo_delta = \<lparr>m_version = 1, m_delta = True, m_parent = Some (SnapshotRef 5), m_guest_ram_bytes = 8192,
     m_entries = [\<lparr>page_index = 1, page_hash = PageHash 3\<rparr>],
     m_device_blob = \<lparr>blob_format = 1, blob_zstd = False, blob_bytes = [], blob_raw_len = 0\<rparr>\<rparr>"

lemma demo_chain:
  "chain_ok [demo_delta, demo_full]" "chain_ok [demo_full]" "segment_ok [demo_delta]"
  by code_simp+

theorem flatten_complete_child_first_witness:
  "chain_ok [demo_delta, demo_full] \<and>
   (\<exists>es. flatten [demo_delta, demo_full] = Ok es \<and> length es = 2 \<and> page_hash (es ! 1) = PageHash 3)"
proof -
  have n: "total_pages (hd [demo_delta, demo_full]) = 2"
    by (simp add: total_pages_def demo_delta_def manifest_consts)
  obtain es where es: "flatten [demo_delta, demo_full] = Ok es" "length es = 2"
    "\<forall>i<2. chain_lookup [demo_delta, demo_full] (of_nat i) = Some (es ! i)"
    using flatten_complete_child_first[OF demo_chain(1)] unfolding n by blast
  have "es ! 1 = \<lparr>page_index = 1, page_hash = PageHash 3\<rparr>"
    using es(3)[rule_format, of 1] by (simp add: demo_delta_def)
  then show ?thesis
    using es demo_chain(1) by simp
qed

text \<open>C4: Flattening the delta segment of a chain and writing it over the flattened baseline
  gives exactly the flattened full chain, so a client that already holds the baseline can
  fetch only the pages of \<open>flatten_delta\<close>.\<close>

theorem flatten_delta_over_baseline:
  assumes "chain_ok (seg @ base)" "segment_ok seg" "base \<noteq> []"
  shows "\<exists>ds bs. flatten_delta seg = Ok ds \<and> flatten base = Ok bs \<and>
    sorted_wrt (<) (map page_index ds) \<and> flatten (seg @ base) = Ok (overlay ds bs)"
  using flatten_delta_segment_ok[OF assms(2)] flatten_chain_ok[OF chain_ok_suffix(1)[OF assms(1,3)]]
    flatten_overlay[OF assms] by blast

theorem flatten_delta_over_baseline_witness:
  "chain_ok ([demo_delta] @ [demo_full]) \<and> segment_ok [demo_delta] \<and>
   (\<exists>ds bs. flatten_delta [demo_delta] = Ok ds \<and> flatten [demo_full] = Ok bs \<and>
      flatten [demo_delta, demo_full] = Ok (overlay ds bs))"
  using flatten_delta_over_baseline[of "[demo_delta]" "[demo_full]"] demo_chain by auto

end
