(* ===== verification/Pack.thy ===== *)
theory Pack
  imports Snap_Types
begin

text \<open>
  Pack files (\<^verbatim>\<open>crates/snapstore-pagestore/src/pack.rs\<close>): an append-only log of page
  records behind a 20-byte header, closed by a 44-byte footer when it is sealed.  A file
  is its byte contents as the operating system sees them together with the cursor of the
  open handle; a write at the cursor overwrites.  The incremental hasher of the body is
  the bytes fed to it so far.  A missing file, an existing one on creation and an end-of-file on a read are the error
  \<open>PkIo\<close>; failures of the device itself are not modelled.  Offsets are natural numbers: they are bounded by
  the size of a file, so the \<open>u64\<close> sums of the source cannot wrap.
\<close>

section \<open>Constants and errors\<close>

definition PACK_MAGIC :: bytes where
  "PACK_MAGIC = ascii ''SPK1''"

definition FOOTER_MAGIC :: bytes where
  "FOOTER_MAGIC = ascii ''SPKF''"

definition PACK_FORMAT_VERSION :: u32 where
  "PACK_FORMAT_VERSION = 1"

definition PACK_MAX_BYTES :: nat where
  "PACK_MAX_BYTES = 2 ^ 30"

definition RECORD_HEADER_SIZE :: nat where
  "RECORD_HEADER_SIZE = 37"

definition PACK_HEADER_SIZE :: nat where
  "PACK_HEADER_SIZE = 20"

definition PACK_FOOTER_SIZE :: nat where
  "PACK_FOOTER_SIZE = 44"

definition WRITE_BUF_FLUSH_THRESHOLD :: nat where
  "WRITE_BUF_FLUSH_THRESHOLD = 4 * 1024 * 1024"

lemmas pack_consts = RECORD_HEADER_SIZE_def PACK_HEADER_SIZE_def PACK_FOOTER_SIZE_def PAGE_SIZE_def

text \<open>The kinds of \<open>std::io::Error\<close> that the contents of the files determine.\<close>

datatype io_kind = NotFound | AlreadyExists | UnexpectedEof

datatype pack_error =
    PkIo io_kind
  | PkSealed
  | PkFull
  | PkBadMagic
  | PkBadFooterMagic
  | PkFooterMismatch nat nat
  | PkHashMismatch nat
  | PkTruncatedRecord nat

section \<open>Files\<close>

text \<open>\<open>read_exact_at\<close> and \<open>write_all\<close> at a cursor.\<close>

definition read_exact_at :: "'e \<Rightarrow> bytes \<Rightarrow> nat \<Rightarrow> nat \<Rightarrow> ('e, bytes) outcome" where
  "read_exact_at e file off n =
     (if off + n \<le> length file then Ok (take n (drop off file)) else Err e)"

definition write_at :: "nat \<Rightarrow> bytes \<Rightarrow> bytes \<Rightarrow> bytes" where
  "write_at pos data file = take pos file @ data @ drop (pos + length data) file"

lemma read_exact_at_Ok [simp]:
  "read_exact_at e file off n = Ok bs \<longleftrightarrow> off + n \<le> length file \<and> bs = take n (drop off file)"
  by (auto simp: read_exact_at_def)

lemma read_exact_at_no_panic [simp]: "read_exact_at e file off n \<noteq> Panic"
  by (simp add: read_exact_at_def)

lemma write_at_end [simp]: "pos = length file \<Longrightarrow> write_at pos data file = file @ data"
  by (simp add: write_at_def)

section \<open>The writer\<close>

record pack_writer =
  pw_file :: bytes
  pw_pos :: nat
  pw_pack_id :: pack_id
  pw_body :: bytes
  pw_write_buf :: bytes
  pw_write_offset :: nat
  pw_record_count :: nat
  pw_sealed :: bool
  pw_max_bytes :: nat

definition pack_header :: "pack_id \<Rightarrow> u64 \<Rightarrow> bytes" where
  "pack_header pid created_unix =
     PACK_MAGIC @ to_le_bytes 4 PACK_FORMAT_VERSION @ to_le_bytes 4 (pack_num pid)
     @ to_le_bytes 8 created_unix"

text \<open>\<open>create_new(true)\<close> fails when the path exists.\<close>

definition create_with_max_bytes ::
  "bytes option \<Rightarrow> pack_id \<Rightarrow> u64 \<Rightarrow> nat \<Rightarrow> (pack_error, pack_writer) outcome" where
  "create_with_max_bytes on_disk pid created_unix max_bytes =
     (case on_disk of
        Some _ \<Rightarrow> Err (PkIo AlreadyExists)
      | None \<Rightarrow>
          Ok \<lparr>pw_file = pack_header pid created_unix, pw_pos = PACK_HEADER_SIZE,
              pw_pack_id = pid, pw_body = [], pw_write_buf = [],
              pw_write_offset = PACK_HEADER_SIZE, pw_record_count = 0,
              pw_sealed = False, pw_max_bytes = max_bytes\<rparr>)"

definition pack_create :: "bytes option \<Rightarrow> pack_id \<Rightarrow> u64 \<Rightarrow> (pack_error, pack_writer) outcome" where
  "pack_create on_disk pid created_unix = create_with_max_bytes on_disk pid created_unix PACK_MAX_BYTES"

definition would_exceed_cap :: "pack_writer \<Rightarrow> bool" where
  "would_exceed_cap w \<longleftrightarrow> pw_write_offset w + RECORD_HEADER_SIZE + PAGE_SIZE > pw_max_bytes w"

definition flush_buf :: "pack_writer \<Rightarrow> pack_writer" where
  "flush_buf w =
     (if pw_write_buf w \<noteq> []
      then w\<lparr>pw_file := write_at (pw_pos w) (pw_write_buf w) (pw_file w),
             pw_pos := pw_pos w + length (pw_write_buf w), pw_write_buf := []\<rparr>
      else w)"

text \<open>One record: hash, flags, length, payload.\<close>

definition encode_record :: "page_hash \<Rightarrow> byte \<Rightarrow> bytes \<Rightarrow> bytes" where
  "encode_record h flags payload =
     page_hash_as_bytes h @ [flags] @ to_le_bytes 4 (of_nat (length payload) :: u32) @ payload"

text \<open>\<open>append\<close>; the payload is a \<open>[u8; PAGE_SIZE]\<close>.\<close>

definition append_record ::
  "pack_writer \<Rightarrow> page_hash \<Rightarrow> bytes \<Rightarrow> (pack_error, nat \<times> pack_writer) outcome" where
  "append_record w h payload =
     (if pw_sealed w then Err PkSealed
      else if would_exceed_cap w then Err PkFull
      else
        let record_offset = pw_write_offset w;
            rec = encode_record h 1 payload;
            w = w\<lparr>pw_write_buf := pw_write_buf w @ rec, pw_body := pw_body w @ rec,
                  pw_write_offset := pw_write_offset w + (RECORD_HEADER_SIZE + PAGE_SIZE),
                  pw_record_count := pw_record_count w + 1\<rparr>;
            w = (if length (pw_write_buf w) \<ge> WRITE_BUF_FLUSH_THRESHOLD then flush_buf w else w)
        in Ok (record_offset, w))"

definition pack_footer :: "nat \<Rightarrow> hash32 \<Rightarrow> bytes" where
  "pack_footer record_count body_hash =
     FOOTER_MAGIC @ to_le_bytes 8 (of_nat record_count :: u64) @ to_le_bytes 32 body_hash"

definition seal_no_sync ::
  "(bytes \<Rightarrow> hash32) \<Rightarrow> pack_writer \<Rightarrow> (pack_error, pack_writer) outcome" where
  "seal_no_sync blake3 w =
     (if pw_sealed w then Err PkSealed
      else
        let w = flush_buf w;
            footer = pack_footer (pw_record_count w) (blake3 (pw_body w))
        in Ok (w\<lparr>pw_file := write_at (pw_pos w) footer (pw_file w),
                 pw_pos := pw_pos w + length footer, pw_sealed := True\<rparr>))"

text \<open>\<open>seal\<close>: also the states at its two \<open>fdatasync\<close> calls, of the records and of the whole
  file.\<close>

definition seal ::
  "(bytes \<Rightarrow> hash32) \<Rightarrow> pack_writer \<Rightarrow> (pack_error, bytes list \<times> pack_writer) outcome" where
  "seal blake3 w =
     (if pw_sealed w then Err PkSealed
      else
        let w = flush_buf w;
            synced_records = pw_file w;
            footer = pack_footer (pw_record_count w) (blake3 (pw_body w));
            w = w\<lparr>pw_file := write_at (pw_pos w) footer (pw_file w), pw_pos := pw_pos w + length footer\<rparr>;
            synced_footer = pw_file w
        in Ok ([synced_records, synced_footer], w\<lparr>pw_sealed := True\<rparr>))"

section \<open>The reader\<close>

record pack_reader =
  pr_file :: bytes
  pr_pack_id :: pack_id
  pr_body_end :: "nat option"

text \<open>The length field of the record at \<open>offset\<close>.\<close>

definition rec_len :: "bytes \<Rightarrow> nat \<Rightarrow> nat" where
  "rec_len file offset = unat (from_le_bytes (take 4 (drop (offset + 33) file)) :: u32)"

text \<open>The scanning loop of \<open>reopen\<close>: end offset, record count and bytes fed to the hasher.\<close>

function reopen_scan :: "bytes \<Rightarrow> nat \<Rightarrow> nat \<Rightarrow> bytes \<Rightarrow> nat \<times> nat \<times> bytes" where
  "reopen_scan file offset count body =
     (if \<not> offset < length file then (offset, count, body)
      else if length file - offset < RECORD_HEADER_SIZE then (offset, count, body)
      else
        let len = rec_len file offset in
        if len > PAGE_SIZE * 2 then (offset, count, body)
        else if offset + RECORD_HEADER_SIZE + len > length file then (offset, count, body)
        else reopen_scan file (offset + (RECORD_HEADER_SIZE + len)) (count + 1)
               (body @ take (RECORD_HEADER_SIZE + len) (drop offset file)))"
  by pat_completeness auto
termination
  by (relation "measure (\<lambda>(file, offset, _, _). length file - offset)")
    (auto simp: RECORD_HEADER_SIZE_def)

definition reopen :: "bytes option \<Rightarrow> pack_id \<Rightarrow> (pack_error, pack_writer) outcome" where
  "reopen on_disk pid =
     (case on_disk of
        None \<Rightarrow> Err (PkIo NotFound)
      | Some file \<Rightarrow>
          obind (read_exact_at (PkIo UnexpectedEof) file 0 4) (\<lambda>magic.
          if magic \<noteq> PACK_MAGIC then Err PkBadMagic
          else
            let (offset, count, body) = reopen_scan file PACK_HEADER_SIZE 0 [] in
            Ok \<lparr>pw_file = file, pw_pos = offset, pw_pack_id = pid, pw_body = body,
                pw_write_buf = [], pw_write_offset = offset, pw_record_count = count,
                pw_sealed = False, pw_max_bytes = PACK_MAX_BYTES\<rparr>))"

text \<open>\<open>count_records_in_file\<close>.\<close>

function count_records :: "bytes \<Rightarrow> nat \<Rightarrow> nat \<Rightarrow> nat \<Rightarrow> (pack_error, nat) outcome" where
  "count_records file body_end offset count =
     (if \<not> offset < body_end then Ok count
      else if body_end - offset < RECORD_HEADER_SIZE then Ok count
      else
        obind (read_exact_at (PkIo UnexpectedEof) file offset RECORD_HEADER_SIZE) (\<lambda>_.
        let record_size = RECORD_HEADER_SIZE + rec_len file offset in
        if offset + record_size > body_end then Ok count
        else count_records file body_end (offset + record_size) (count + 1)))"
  by pat_completeness auto
termination
  by (relation "measure (\<lambda>(_, body_end, offset, _). body_end - offset)")
    (auto simp: RECORD_HEADER_SIZE_def)

definition count_records_in_file :: "bytes \<Rightarrow> nat \<Rightarrow> (pack_error, nat) outcome" where
  "count_records_in_file file body_end = count_records file body_end PACK_HEADER_SIZE 0"

definition open_sealed :: "bytes option \<Rightarrow> pack_id \<Rightarrow> (pack_error, pack_reader) outcome" where
  "open_sealed on_disk pid =
     (case on_disk of
        None \<Rightarrow> Err (PkIo NotFound)
      | Some file \<Rightarrow>
          obind (read_exact_at (PkIo UnexpectedEof) file 0 4) (\<lambda>magic.
          if magic \<noteq> PACK_MAGIC then Err PkBadMagic
          else if length file < PACK_HEADER_SIZE + PACK_FOOTER_SIZE then Err PkBadFooterMagic
          else
            let body_end = length file - PACK_FOOTER_SIZE in
            obind (read_exact_at (PkIo UnexpectedEof) file body_end PACK_FOOTER_SIZE) (\<lambda>footer.
            if take 4 footer \<noteq> FOOTER_MAGIC then Err PkBadFooterMagic
            else
              let footer_record_count = unat (from_le_bytes (take 8 (drop 4 footer)) :: u64) in
              obind (count_records_in_file file body_end) (\<lambda>scanned.
              if scanned \<noteq> footer_record_count
              then Err (PkFooterMismatch footer_record_count scanned)
              else Ok \<lparr>pr_file = file, pr_pack_id = pid, pr_body_end = Some body_end\<rparr>))))"

definition open_sealed_fast :: "bytes option \<Rightarrow> pack_id \<Rightarrow> (pack_error, bytes) outcome" where
  "open_sealed_fast on_disk pid =
     (case on_disk of
        None \<Rightarrow> Err (PkIo NotFound)
      | Some file \<Rightarrow>
          obind (read_exact_at (PkIo UnexpectedEof) file 0 4) (\<lambda>magic.
          if magic \<noteq> PACK_MAGIC then Err PkBadMagic else Ok file))"

definition read_at_from_file ::
  "(bytes \<Rightarrow> hash32) \<Rightarrow> bytes \<Rightarrow> nat \<Rightarrow> page_hash \<Rightarrow> (pack_error, bytes) outcome" where
  "read_at_from_file blake3 file offset expected_hash =
     obind (read_exact_at (PkTruncatedRecord offset) file offset (RECORD_HEADER_SIZE + PAGE_SIZE)) (\<lambda>rec.
     obind (slice 0 32 rec) (\<lambda>stored_hash_bytes.
     obind (read_le 4 33 rec) (\<lambda>len.
     if unat (len :: u32) \<noteq> PAGE_SIZE then Err (PkTruncatedRecord offset)
     else
       let payload = drop RECORD_HEADER_SIZE rec in
       if stored_hash_bytes \<noteq> page_hash_as_bytes expected_hash then Err (PkHashMismatch offset)
       else if to_le_bytes 32 (blake3 payload) \<noteq> stored_hash_bytes then Err (PkHashMismatch offset)
       else Ok payload)))"

text \<open>One turn of the loop of \<open>open_unsealed\<close> with bytes remaining: the length of the record
  at \<open>offset\<close> if it is complete and its payload has the stored hash.\<close>

definition check_record :: "(bytes \<Rightarrow> hash32) \<Rightarrow> bytes \<Rightarrow> nat \<Rightarrow> nat option" where
  "check_record blake3 file offset =
     (if length file - offset < RECORD_HEADER_SIZE then None
      else
        let hash_bytes = take 32 (drop offset file);
            flags = file ! (offset + 32);
            len = rec_len file offset;
            expected_len = (if flags AND 1 \<noteq> 0 then PAGE_SIZE else len)
        in
        if len \<noteq> expected_len \<or> len > PAGE_SIZE * 2 then None
        else if length file - (offset + RECORD_HEADER_SIZE) < len then None
        else
          let payload = take len (drop (offset + RECORD_HEADER_SIZE) file) in
          if to_le_bytes 32 (blake3 payload) \<noteq> hash_bytes then None
          else Some len)"

text \<open>The loop: the end of the good prefix, the number of good records and whether the file
  is cut there.\<close>

function unsealed_scan :: "(bytes \<Rightarrow> hash32) \<Rightarrow> bytes \<Rightarrow> nat \<Rightarrow> nat \<Rightarrow> nat \<times> nat \<times> bool" where
  "unsealed_scan blake3 file offset good_count =
     (if length file - offset = 0 then (offset, good_count, False)
      else
        case check_record blake3 file offset of
          None \<Rightarrow> (offset, good_count, True)
        | Some len \<Rightarrow>
            unsealed_scan blake3 file (offset + (RECORD_HEADER_SIZE + len)) (good_count + 1))"
  by pat_completeness auto
termination
  by (relation "measure (\<lambda>(_, file, offset, _). length file - offset)")
    (auto simp: RECORD_HEADER_SIZE_def)

definition open_unsealed ::
  "(bytes \<Rightarrow> hash32) \<Rightarrow> bytes option \<Rightarrow> pack_id \<Rightarrow> (pack_error, pack_reader \<times> nat) outcome" where
  "open_unsealed blake3 on_disk pid =
     (case on_disk of
        None \<Rightarrow> Err (PkIo NotFound)
      | Some file \<Rightarrow>
          obind (read_exact_at (PkIo UnexpectedEof) file 0 4) (\<lambda>magic.
          if magic \<noteq> PACK_MAGIC then Err PkBadMagic
          else
            let (final_body_end, good_count, torn) = unsealed_scan blake3 file PACK_HEADER_SIZE 0;
                file = (if torn then take final_body_end file else file)
            in Ok (\<lparr>pr_file = file, pr_pack_id = pid, pr_body_end = Some final_body_end\<rparr>, good_count)))"

definition pack_read_at :: "pack_reader \<Rightarrow> nat \<Rightarrow> (pack_error, page_hash \<times> bytes) outcome" where
  "pack_read_at r offset =
     obind (read_exact_at (PkTruncatedRecord offset) (pr_file r) offset RECORD_HEADER_SIZE) (\<lambda>hdr.
     let len = rec_len (pr_file r) offset in
     obind (read_exact_at (PkTruncatedRecord offset) (pr_file r) (offset + RECORD_HEADER_SIZE) len)
       (\<lambda>payload. Ok (page_hash_from_bytes (take 32 hdr), payload)))"

function scan_records ::
  "bytes \<Rightarrow> nat \<Rightarrow> nat \<Rightarrow> (pack_error, (nat \<times> page_hash) list) outcome" where
  "scan_records file scan_end offset =
     (if offset \<ge> scan_end then Ok []
      else if scan_end - offset < RECORD_HEADER_SIZE then Ok []
      else
        obind (read_exact_at (PkTruncatedRecord offset) file offset RECORD_HEADER_SIZE) (\<lambda>hdr.
        obind (scan_records file scan_end (offset + (RECORD_HEADER_SIZE + rec_len file offset))) (\<lambda>rest.
        Ok ((offset, page_hash_from_bytes (take 32 hdr)) # rest))))"
  by pat_completeness auto
termination
  by (relation "measure (\<lambda>(_, scan_end, offset). scan_end - offset)")
    (auto simp: RECORD_HEADER_SIZE_def)

definition pack_scan :: "pack_reader \<Rightarrow> (pack_error, (nat \<times> page_hash) list) outcome" where
  "pack_scan r =
     scan_records (pr_file r)
       (case pr_body_end r of Some e \<Rightarrow> e | None \<Rightarrow> length (pr_file r)) PACK_HEADER_SIZE"

declare reopen_scan.simps [simp del] count_records.simps [simp del] unsealed_scan.simps [simp del]
  scan_records.simps [simp del]

section \<open>Records in a file\<close>

type_synonym page_rec = "page_hash \<times> byte \<times> bytes"

primrec enc :: "page_rec \<Rightarrow> bytes" where
  "enc (h, fp) = encode_record h (fst fp) (snd fp)"

abbreviation enc_all :: "page_rec list \<Rightarrow> bytes" where
  "enc_all rs \<equiv> concat (map enc rs)"

definition rec_payload :: "page_rec \<Rightarrow> bytes" where
  "rec_payload r = snd (snd r)"

text \<open>What the recovery scan demands of a record.\<close>

definition rec_ok :: "(bytes \<Rightarrow> hash32) \<Rightarrow> page_rec \<Rightarrow> bool" where
  "rec_ok blake3 r \<longleftrightarrow>
     (case r of (h, flags, p) \<Rightarrow>
        h = PageHash (blake3 p) \<and> length p \<le> PAGE_SIZE * 2 \<and>
        (flags AND 1 \<noteq> 0 \<longrightarrow> length p = PAGE_SIZE))"

lemma length_page_hash_bytes [simp]: "length (page_hash_as_bytes h) = 32"
  by (cases h) simp

lemma length_encode_record [simp]: "length (encode_record h f p) = 37 + length p"
  by (simp add: encode_record_def)

lemma length_enc [simp]: "length (enc r) = 37 + length (rec_payload r)"
  by (cases r) (simp add: rec_payload_def)

lemma unat_of_nat_u32: "n < 2 ^ 32 \<Longrightarrow> unat (of_nat n :: u32) = n"
  by (simp add: unsigned_of_nat take_bit_nat_eq_self)

lemma rec_len_drop: "off \<le> length file \<Longrightarrow> rec_len file off = rec_len (drop off file) 0"
  by (simp add: rec_len_def add.commute)

lemma rec_len_enc [simp]:
  "length p < 2 ^ 32 \<Longrightarrow> rec_len (encode_record h f p @ rest) 0 = length p"
  by (simp add: rec_len_def encode_record_def le_codec unat_of_nat_u32)

lemma rec_len_at [simp]:
  "off = length pre \<Longrightarrow> length p < 2 ^ 32 \<Longrightarrow>
   rec_len (pre @ encode_record h f p @ rest) off = length p"
  by (subst rec_len_drop) simp_all

lemma encode_record_fields [simp]:
  "take 32 (encode_record h f p) = page_hash_as_bytes h"
  "(encode_record h f p @ rest) ! 32 = f"
  "drop 37 (encode_record h f p) = p"
  by (simp_all add: encode_record_def nth_append)

lemma check_record_drop:
  assumes "off \<le> length file"
  shows "check_record blake3 file off = check_record blake3 (drop off file) 0"
proof -
  have eqs: "length file - off = length (drop off file) - 0"
    "length file - (off + RECORD_HEADER_SIZE) = length (drop off file) - (0 + RECORD_HEADER_SIZE)"
    "file ! (off + 32) = drop off file ! (0 + 32)"
    "drop (off + RECORD_HEADER_SIZE) file = drop (0 + RECORD_HEADER_SIZE) (drop off file)"
    using assms by (simp_all add: add.commute)
  show ?thesis
    unfolding check_record_def rec_len_drop[OF assms] eqs drop_0 ..
qed

lemma check_record_enc:
  assumes "rec_ok blake3 r"
  shows "check_record blake3 (enc r @ rest) 0 = Some (length (rec_payload r))"
proof -
  obtain h f p where r: "r = (h, f, p)" by (cases r)
  have len: "length p < 2 ^ 32"
    using assms by (simp add: r rec_ok_def PAGE_SIZE_def)
  show ?thesis
    using assms len
    by (auto simp: r check_record_def rec_ok_def rec_payload_def pack_consts Let_def)
qed

lemma check_record_Some:
  assumes "check_record blake3 t 0 = Some len"
  shows "\<exists>r. rec_ok blake3 r \<and> length (rec_payload r) = len \<and> t = enc r @ drop (37 + len) t"
proof -
  let ?r = "(page_hash_from_bytes (take 32 t), t ! 32, take len (drop 37 t))"
  have chk: "37 \<le> length t" "len = rec_len t 0" "len \<le> PAGE_SIZE * 2" "37 + len \<le> length t"
    "t ! 32 AND 1 \<noteq> 0 \<Longrightarrow> len = PAGE_SIZE"
    "to_le_bytes 32 (blake3 (take len (drop 37 t))) = take 32 t"
    using assms by (auto simp: check_record_def pack_consts Let_def split: if_splits)
  have "of_nat len = (from_le_bytes (take 4 (drop 33 t)) :: u32)"
    unfolding chk(2) by (simp add: rec_len_def)
  then have len: "to_le_bytes 4 (of_nat len :: u32) = take 4 (drop 33 t)"
    using chk(1) by (simp add: le_codec)
  have "[t ! 32] = take 1 (drop 32 t)"
    using chk(1) by (simp add: take_Suc_conv_app_nth hd_drop_conv_nth take_Suc)
  moreover have l: "length (take len (drop 37 t)) = len"
    using chk(4) by simp
  ultimately have "enc ?r @ drop (37 + len) t =
      take 32 t @ take 1 (drop 32 t) @ take 4 (drop 33 t) @ take len (drop 37 t) @ drop (37 + len) t"
    using chk(1) unfolding enc.simps encode_record_def fst_conv snd_conv l len
    by (simp add: page_hash_from_bytes_def le_codec)
  also have "\<dots> = t"
    by (simp add: join_fields)
  finally have "t = enc ?r @ drop (37 + len) t" ..
  moreover have "rec_ok blake3 ?r"
    using chk(3,5) chk(6)[symmetric] unfolding rec_ok_def prod.case l
    by (simp add: page_hash_from_bytes_def le_codec)
  ultimately show ?thesis
    using l by (intro exI[of _ ?r]) (simp add: rec_payload_def)
qed

lemma check_record_torn:
  assumes "rec_ok blake3 r" "k < length (enc r)"
  shows "check_record blake3 (take k (enc r)) 0 = None"
proof (cases "k < 37")
  case True
  then show ?thesis
    by (simp add: check_record_def RECORD_HEADER_SIZE_def)
next
  case False
  obtain h f p where r: "r = (h, f, p)" by (cases r)
  have "length p < 2 ^ 32"
    using assms(1) by (simp add: r rec_ok_def PAGE_SIZE_def)
  then have "rec_len (take k (enc r)) 0 = length p"
    using False rec_len_enc[of p h f "[]"] by (auto simp: r rec_len_def drop_take min_def)
  then show ?thesis
    using assms(2) False
    by (auto simp: check_record_def pack_consts Let_def r rec_payload_def)
qed

section \<open>Recovery of an unsealed pack\<close>

lemma unsealed_scan_spec:
  assumes "off \<le> length fl" "unsealed_scan blake3 fl off c = (e, n, torn)"
  shows "\<exists>rs. list_all (rec_ok blake3) rs \<and> take e fl = take off fl @ enc_all rs \<and>
    off \<le> e \<and> e \<le> length fl \<and> n = c + length rs \<and> (torn \<longleftrightarrow> e < length fl) \<and>
    (torn \<longrightarrow> check_record blake3 fl e = None)"
  using assms
proof (induction blake3 fl off c rule: unsealed_scan.induct)
  case (1 blake3 fl off c)
  show ?case
  proof (cases "length fl - off = 0")
    case True
    then have "(e, n, torn) = (off, c, False)"
      using "1.prems" unsealed_scan.simps[of blake3 fl off c] by simp
    then show ?thesis
      using True "1.prems"(1) by (intro exI[of _ "[]"]) simp
  next
    case more: False
    show ?thesis
    proof (cases "check_record blake3 fl off")
      case None
      then have "(e, n, torn) = (off, c, True)"
        using "1.prems" unsealed_scan.simps[of blake3 fl off c] more by simp
      then show ?thesis
        using None more by (intro exI[of _ "[]"]) simp
    next
      case (Some len)
      have "check_record blake3 (drop off fl) 0 = Some len"
        using check_record_drop[OF "1.prems"(1)] Some by simp
      from check_record_Some[OF this] obtain r where r: "rec_ok blake3 r"
        "length (rec_payload r) = len" "drop off fl = enc r @ drop (37 + len) (drop off fl)"
        by blast
      have "37 + len \<le> length (drop off fl)"
        using arg_cong[OF r(3), of length] unfolding length_append length_enc r(2) by linarith
      then have fits: "off + (37 + len) \<le> length fl"
        using more by simp
      have next_rec: "take (off + (37 + len)) fl = take off fl @ enc r"
      proof -
        have "take (37 + len) (drop off fl) = enc r"
          using r(2) by (subst r(3)) simp
        then show ?thesis
          by (simp add: take_add)
      qed
      have "unsealed_scan blake3 fl (off + (RECORD_HEADER_SIZE + len)) (c + 1) = (e, n, torn)"
        using "1.prems"(2) unsealed_scan.simps[of blake3 fl off c] more Some by simp
      from "1.IH"[OF more Some _ this] fits obtain rs where
        "list_all (rec_ok blake3) rs" "take e fl = take (off + (37 + len)) fl @ enc_all rs"
        "off + (37 + len) \<le> e" "e \<le> length fl" "n = c + 1 + length rs" "torn \<longleftrightarrow> e < length fl"
        "torn \<longrightarrow> check_record blake3 fl e = None"
        by (auto simp: RECORD_HEADER_SIZE_def)
      then show ?thesis
        using r(1) next_rec by (intro exI[of _ "r # rs"]) auto
    qed
  qed
qed

lemma unsealed_scan_log:
  assumes "list_all (rec_ok blake3) rs" "off = length pre"
    "tail = [] \<or> check_record blake3 tail 0 = None"
  shows "unsealed_scan blake3 (pre @ enc_all rs @ tail) off c =
    (off + length (enc_all rs), c + length rs, tail \<noteq> [])"
  using assms
proof (induction rs arbitrary: pre off c)
  case Nil
  then show ?case
    by (subst unsealed_scan.simps) (auto simp: check_record_drop[of "length pre"])
next
  case (Cons r rs)
  let ?file = "pre @ enc_all (r # rs) @ tail"
  have ok: "rec_ok blake3 r" "list_all (rec_ok blake3) rs"
    using Cons.prems by simp_all
  have "check_record blake3 ?file off = Some (length (rec_payload r))"
    using check_record_enc[OF ok(1), of "enc_all rs @ tail"] Cons.prems
    by (simp add: check_record_drop[of "length pre"])
  moreover have "unsealed_scan blake3 ((pre @ enc r) @ enc_all rs @ tail)
      (length (pre @ enc r)) (c + 1) =
      (length (pre @ enc r) + length (enc_all rs), c + 1 + length rs, tail \<noteq> [])"
    by (rule Cons.IH) (use ok Cons.prems in auto)
  ultimately show ?case
    using Cons.prems by (subst unsealed_scan.simps) (simp add: RECORD_HEADER_SIZE_def add.assoc)
qed

text \<open>The records that lie entirely within the first \<open>k\<close> bytes of a body.\<close>

fun whole_records :: "nat \<Rightarrow> page_rec list \<Rightarrow> page_rec list" where
  "whole_records k [] = []"
| "whole_records k (r # rs) =
     (if length (enc r) \<le> k then r # whole_records (k - length (enc r)) rs else [])"

lemma take_enc_all:
  assumes "list_all (rec_ok blake3) rs"
  shows "\<exists>tail. take k (enc_all rs) = enc_all (whole_records k rs) @ tail \<and>
    (tail = [] \<or> check_record blake3 tail 0 = None)"
  using assms
proof (induction rs arbitrary: k)
  case Nil
  then show ?case by simp
next
  case (Cons r rs)
  show ?case
  proof (cases "length (enc r) \<le> k")
    case True
    then show ?thesis
      using Cons.IH[of "k - length (enc r)"] Cons.prems by auto
  next
    case False
    then have "check_record blake3 (take k (enc r)) 0 = None"
      using check_record_torn[of blake3 r k] Cons.prems by simp
    then show ?thesis
      using False by (intro exI[of _ "take k (enc r)"]) auto
  qed
qed

lemma whole_records_prefix: "\<exists>m. whole_records k rs = take m rs"
proof (induction rs arbitrary: k)
  case (Cons r rs)
  obtain m where "whole_records (k - length (enc r)) rs = take m rs"
    using Cons.IH by blast
  then show ?case
    by (cases "length (enc r) \<le> k") (auto intro: exI[of _ "Suc m"] exI[of _ 0])
qed simp

lemma whole_records_ok: "list_all (rec_ok blake3) rs \<Longrightarrow> list_all (rec_ok blake3) (whole_records k rs)"
  by (induction rs arbitrary: k) auto

definition pack_header_ok :: "bytes \<Rightarrow> bool" where
  "pack_header_ok hdr \<longleftrightarrow> length hdr = PACK_HEADER_SIZE \<and> take 4 hdr = PACK_MAGIC"

lemma pack_header_ok_header [simp]: "pack_header_ok (pack_header pid t)"
  by (simp add: pack_header_ok_def pack_header_def PACK_HEADER_SIZE_def PACK_MAGIC_def)

lemma open_unsealed_torn:
  assumes "pack_header_ok hdr" "list_all (rec_ok blake3) rs"
  shows "open_unsealed blake3 (Some (hdr @ take k (enc_all rs))) pid =
    Ok (\<lparr>pr_file = hdr @ enc_all (whole_records k rs), pr_pack_id = pid,
         pr_body_end = Some (20 + length (enc_all (whole_records k rs)))\<rparr>,
        length (whole_records k rs))"
proof -
  obtain tail where tail: "take k (enc_all rs) = enc_all (whole_records k rs) @ tail"
    "tail = [] \<or> check_record blake3 tail 0 = None"
    using take_enc_all[OF assms(2)] by blast
  have hdr: "length hdr = 20" "take 4 hdr = PACK_MAGIC"
    using assms(1) by (simp_all add: pack_header_ok_def PACK_HEADER_SIZE_def)
  have "unsealed_scan blake3 (hdr @ enc_all (whole_records k rs) @ tail) 20 0 =
      (20 + length (enc_all (whole_records k rs)), 0 + length (whole_records k rs), tail \<noteq> [])"
    by (rule unsealed_scan_log[OF whole_records_ok[OF assms(2)] _ tail(2)]) (simp add: hdr)
  then show ?thesis
    using hdr by (simp add: open_unsealed_def tail(1) read_exact_at_def PACK_HEADER_SIZE_def)
qed

section \<open>The log a writer holds\<close>

text \<open>An unsealed writer holds the records \<open>rs\<close> behind the header \<open>hdr\<close>, part of them still
  in its buffer.\<close>

definition pack_log :: "pack_writer \<Rightarrow> bytes \<Rightarrow> page_rec list \<Rightarrow> bool" where
  "pack_log w hdr rs \<longleftrightarrow>
     pack_header_ok hdr \<and> \<not> pw_sealed w \<and> pw_pos w = length (pw_file w) \<and>
     PACK_HEADER_SIZE \<le> length (pw_file w) \<and>
     pw_file w @ pw_write_buf w = hdr @ enc_all rs \<and>
     pw_body w = enc_all rs \<and> pw_record_count w = length rs \<and>
     pw_write_offset w = PACK_HEADER_SIZE + length (enc_all rs)"

lemma create_pack_log:
  assumes "create_with_max_bytes d pid t cap = Ok w"
  shows "pack_log w (pack_header pid t) [] \<and> pw_pack_id w = pid \<and> pw_max_bytes w = cap"
proof -
  have "length (pack_header pid t) = PACK_HEADER_SIZE"
    using pack_header_ok_header[of pid t] by (simp only: pack_header_ok_def)
  then show ?thesis
    using assms by (auto simp: create_with_max_bytes_def pack_log_def split: option.splits)
qed

lemma flush_buf_log:
  assumes "pack_log w hdr rs"
  shows "pack_log (flush_buf w) hdr rs" and "pw_write_buf (flush_buf w) = []"
    and "pw_file (flush_buf w) = hdr @ enc_all rs"
    and "pw_max_bytes (flush_buf w) = pw_max_bytes w" and "pw_pack_id (flush_buf w) = pw_pack_id w"
proof -
  have "pw_file w @ pw_write_buf w = hdr @ enc_all rs"
    using assms by (simp add: pack_log_def)
  from arg_cong[OF this, of length]
  have "length (pw_file w) + length (pw_write_buf w) = length hdr + length (enc_all rs)"
    by simp
  then show "pack_log (flush_buf w) hdr rs" "pw_write_buf (flush_buf w) = []"
    "pw_file (flush_buf w) = hdr @ enc_all rs"
    "pw_max_bytes (flush_buf w) = pw_max_bytes w" "pw_pack_id (flush_buf w) = pw_pack_id w"
    using assms by (auto simp: flush_buf_def pack_log_def pack_header_ok_def)
qed

lemma append_record_Ok:
  assumes log: "pack_log w hdr rs" and len: "length p = PAGE_SIZE"
    and ok: "append_record w h p = Ok (off, w')"
  shows "pack_log w' hdr (rs @ [(h, 1, p)])" and "off = PACK_HEADER_SIZE + length (enc_all rs)"
    and "pw_write_offset w' \<le> pw_max_bytes w'" and "pw_max_bytes w' = pw_max_bytes w"
    and "pw_pack_id w' = pw_pack_id w"
proof -
  let ?rec = "encode_record h 1 p"
  define v where "v = w\<lparr>pw_write_buf := pw_write_buf w @ ?rec, pw_body := pw_body w @ ?rec,
    pw_write_offset := pw_write_offset w + (RECORD_HEADER_SIZE + PAGE_SIZE),
    pw_record_count := pw_record_count w + 1\<rparr>"
  have cap: "\<not> would_exceed_cap w" and off: "off = pw_write_offset w"
    and w': "w' = (if length (pw_write_buf v) \<ge> WRITE_BUF_FLUSH_THRESHOLD then flush_buf v else v)"
    using ok by (auto simp: append_record_def Let_def v_def split: if_splits)
  have v: "pack_log v hdr (rs @ [(h, 1, p)])"
    using log len by (auto simp: pack_log_def v_def pack_consts simp flip: append_assoc)
  then show "pack_log w' hdr (rs @ [(h, 1, p)])"
    by (simp add: w' flush_buf_log)
  show "off = PACK_HEADER_SIZE + length (enc_all rs)"
    using log by (simp add: off pack_log_def)
  show "pw_write_offset w' \<le> pw_max_bytes w'" "pw_max_bytes w' = pw_max_bytes w"
    "pw_pack_id w' = pw_pack_id w"
    using cap by (auto simp: w' v_def flush_buf_def would_exceed_cap_def)
qed

lemma append_record_Full:
  "pack_log w hdr rs \<Longrightarrow> append_record w h p = Err PkFull \<longleftrightarrow> would_exceed_cap w"
  "pack_log w hdr rs \<Longrightarrow> would_exceed_cap w \<or> (\<exists>w'. append_record w h p = Ok (pw_write_offset w, w'))"
  by (auto simp: append_record_def pack_log_def Let_def)

section \<open>Reading records back\<close>

lemma read_at_from_file_Ok:
  "read_at_from_file blake3 fl off h = Ok p \<longleftrightarrow>
     (\<exists>f. off + 4133 \<le> length fl \<and> take 4133 (drop off fl) = encode_record h f p) \<and>
     length p = PAGE_SIZE \<and> h = PageHash (blake3 p)" (is "?L \<longleftrightarrow> ?R")
proof
  assume ?L
  let ?rec = "take 4133 (drop off fl)"
  from \<open>?L\<close> have chk: "off + 4133 \<le> length fl" "take 32 ?rec = page_hash_as_bytes h"
    "unat (from_le_bytes (take 4 (drop 33 ?rec)) :: u32) = 4096" "p = drop 37 ?rec"
    "to_le_bytes 32 (blake3 p) = take 32 ?rec"
    by (auto simp: read_at_from_file_def obind_eq_Ok pack_consts Let_def split: if_splits)
  have p: "length p = 4096"
    using chk(1) by (simp add: chk(4))
  have "of_nat 4096 = (from_le_bytes (take 4 (drop 33 ?rec)) :: u32)"
    by (simp flip: chk(3))
  moreover have "to_le_bytes 4 (from_le_bytes (take 4 (drop 33 ?rec)) :: u32) = take 4 (drop 33 ?rec)"
    using chk(1) by (intro to_from_le_bytes) simp_all
  ultimately have len: "to_le_bytes 4 (of_nat 4096 :: u32) = take 4 (drop 33 ?rec)"
    by (simp only:)
  have flag: "[?rec ! 32] = take 1 (drop 32 ?rec)"
    using chk(1) by (simp add: hd_drop_conv_nth take_Suc)
  have "encode_record h (?rec ! 32) p =
      take 32 ?rec @ take 1 (drop 32 ?rec) @ take 4 (drop 33 ?rec) @ drop 37 ?rec"
    unfolding encode_record_def p chk(2) flag len by (simp add: chk(4))
  also have "\<dots> = ?rec"
    by (simp only: append_take_drop_id join_fields)
  finally have "?rec = encode_record h (?rec ! 32) p" ..
  moreover have "h = PageHash (blake3 p)"
    using chk(2,5) by (cases h) (simp add: le_codec)
  ultimately show ?R
    using chk(1) p by (auto simp: PAGE_SIZE_def)
next
  assume ?R
  then obtain f where f: "off + 4133 \<le> length fl" "take 4133 (drop off fl) = encode_record h f p"
    "length p = 4096" "h = PageHash (blake3 p)"
    by (auto simp: PAGE_SIZE_def)
  have "rec_len (encode_record h f p @ []) 0 = 4096"
    using f(3) by (subst rec_len_enc) simp_all
  then show ?L
    using f by (simp add: read_at_from_file_def read_exact_at_def pack_consts slice_def read_le_def
        rec_len_def)
qed

lemma read_logged:
  assumes "length hdr = PACK_HEADER_SIZE" "h = PageHash (blake3 p)" "length p = PAGE_SIZE"
  shows "read_at_from_file blake3 (hdr @ enc_all (rs @ (h, f, p) # rs') @ tail)
    (PACK_HEADER_SIZE + length (enc_all rs)) h = Ok p"
  using assms by (auto simp: read_at_from_file_Ok PAGE_SIZE_def intro!: exI[of _ f])

section \<open>Sealed packs and reopening\<close>

lemma rec_ok_length: "rec_ok blake3 r \<Longrightarrow> length (rec_payload r) < 2 ^ 32"
  by (auto simp: rec_ok_def rec_payload_def PAGE_SIZE_def)

lemma rec_len_enc_at:
  "off = length pre \<Longrightarrow> rec_ok blake3 r \<Longrightarrow> rec_len (pre @ enc r @ rest) off = length (rec_payload r)"
  using rec_ok_length[of blake3 r] by (cases r) (simp add: rec_payload_def)

lemma count_records_log:
  assumes "list_all (rec_ok blake3) rs" "off = length pre" "e = off + length (enc_all rs)"
  shows "count_records (pre @ enc_all rs @ tail) e off c = Ok (c + length rs)"
  using assms
proof (induction rs arbitrary: pre off c)
  case Nil
  then show ?case
    by (subst count_records.simps) simp
next
  case (Cons r rs)
  have "rec_len (pre @ enc r @ enc_all rs @ tail) off = length (rec_payload r)"
    by (rule rec_len_enc_at) (use Cons.prems in auto)
  moreover have "count_records ((pre @ enc r) @ enc_all rs @ tail) e (length (pre @ enc r)) (c + 1) =
      Ok (c + 1 + length rs)"
    by (rule Cons.IH) (use Cons.prems in auto)
  ultimately show ?case
    using Cons.prems
    by (subst count_records.simps) (simp add: RECORD_HEADER_SIZE_def read_exact_at_def add.assoc)
qed

text \<open>The offsets of the records of a body that starts at \<open>off\<close>.\<close>

fun record_offsets :: "nat \<Rightarrow> page_rec list \<Rightarrow> (nat \<times> page_hash) list" where
  "record_offsets off [] = []"
| "record_offsets off (r # rs) = (off, fst r) # record_offsets (off + length (enc r)) rs"

lemma record_offsets_append:
  "record_offsets off (as @ bs) = record_offsets off as @ record_offsets (off + length (enc_all as)) bs"
  by (induction as arbitrary: off) (simp_all add: add.assoc)

lemma take_32_enc: "take 32 (enc r) = page_hash_as_bytes (fst r)"
  by (cases r) simp

lemma scan_records_log:
  assumes "list_all (rec_ok blake3) rs" "off = length pre" "e = off + length (enc_all rs)"
  shows "scan_records (pre @ enc_all rs @ tail) e off = Ok (record_offsets off rs)"
  using assms
proof (induction rs arbitrary: pre off)
  case Nil
  then show ?case
    by (subst scan_records.simps) simp
next
  case (Cons r rs)
  have "rec_len (pre @ enc r @ enc_all rs @ tail) off = length (rec_payload r)"
    by (rule rec_len_enc_at) (use Cons.prems in auto)
  moreover have "scan_records ((pre @ enc r) @ enc_all rs @ tail) e (length (pre @ enc r)) =
      Ok (record_offsets (length (pre @ enc r)) rs)"
    by (rule Cons.IH) (use Cons.prems in auto)
  ultimately show ?case
    using Cons.prems
    by (subst scan_records.simps)
      (simp add: RECORD_HEADER_SIZE_def read_exact_at_def add.assoc take_32_enc)
qed

lemma reopen_scan_log:
  assumes "list_all (rec_ok blake3) rs" "off = length pre"
  shows "reopen_scan (pre @ enc_all rs) off c body =
    (off + length (enc_all rs), c + length rs, body @ enc_all rs)"
  using assms
proof (induction rs arbitrary: pre off c body)
  case Nil
  then show ?case
    by (subst reopen_scan.simps) simp
next
  case (Cons r rs)
  have "rec_len (pre @ enc r @ enc_all rs) off = length (rec_payload r)"
    by (rule rec_len_enc_at) (use Cons.prems in auto)
  moreover have "reopen_scan ((pre @ enc r) @ enc_all rs) (length (pre @ enc r)) (c + 1) (body @ enc r) =
      (length (pre @ enc r) + length (enc_all rs), c + 1 + length rs, (body @ enc r) @ enc_all rs)"
    by (rule Cons.IH) (use Cons.prems in auto)
  moreover have "length (rec_payload r) \<le> PAGE_SIZE * 2"
    using Cons.prems by (auto simp: rec_ok_def rec_payload_def)
  ultimately show ?case
    using Cons.prems
    by (subst reopen_scan.simps) (simp add: RECORD_HEADER_SIZE_def add.assoc Let_def)
qed

lemma length_pack_footer [simp]: "length (pack_footer n h) = 44"
  by (simp add: pack_footer_def FOOTER_MAGIC_def)

lemma seal_no_sync_log:
  assumes "pack_log w hdr rs"
  shows "\<exists>w'. seal_no_sync blake3 w = Ok w' \<and> pw_sealed w' \<and>
    pw_file w' = hdr @ enc_all rs @ pack_footer (length rs) (blake3 (enc_all rs))"
proof -
  note fl = flush_buf_log[OF assms]
  have "\<not> pw_sealed w" "pw_pos (flush_buf w) = length (pw_file (flush_buf w))"
    "pw_record_count (flush_buf w) = length rs" "pw_body (flush_buf w) = enc_all rs"
    using assms fl(1) by (simp_all add: pack_log_def)
  then show ?thesis
    by (simp add: seal_no_sync_def Let_def fl(3))
qed

lemma seal_log:
  assumes "pack_log w hdr rs"
  shows "\<exists>w'. seal blake3 w = Ok ([hdr @ enc_all rs, pw_file w'], w') \<and> seal_no_sync blake3 w = Ok w'"
  using assms flush_buf_log(3)[OF assms]
  by (simp add: seal_def seal_no_sync_def Let_def pack_log_def)

lemma open_sealed_log:
  assumes "pack_header_ok hdr" "list_all (rec_ok blake3) rs" "length rs < usize_limit"
  shows "open_sealed (Some (hdr @ enc_all rs @ pack_footer (length rs) bh)) pid =
    Ok \<lparr>pr_file = hdr @ enc_all rs @ pack_footer (length rs) bh, pr_pack_id = pid,
        pr_body_end = Some (PACK_HEADER_SIZE + length (enc_all rs))\<rparr>"
proof -
  have hdr: "length hdr = 20" "take 4 hdr = PACK_MAGIC"
    using assms(1) by (simp_all add: pack_header_ok_def PACK_HEADER_SIZE_def)
  have "count_records (hdr @ enc_all rs @ pack_footer (length rs) bh) (20 + length (enc_all rs)) 20 0
      = Ok (0 + length rs)"
    by (rule count_records_log[OF assms(2)]) (simp_all add: hdr)
  moreover have "take 4 (pack_footer (length rs) bh) = FOOTER_MAGIC"
    "from_le_bytes (take 8 (drop 4 (pack_footer (length rs) bh))) = (of_nat (length rs) :: u64)"
    by (simp_all add: pack_footer_def FOOTER_MAGIC_def le_codec)
  ultimately show ?thesis
    using hdr assms(3)
    by (simp add: open_sealed_def read_exact_at_def count_records_in_file_def pack_consts
        unat_of_nat_u64 Let_def)
qed

lemma reopen_log:
  assumes "pack_header_ok hdr" "list_all (rec_ok blake3) rs"
  shows "\<exists>w. reopen (Some (hdr @ enc_all rs)) pid = Ok w \<and> pack_log w hdr rs \<and>
    pw_max_bytes w = PACK_MAX_BYTES \<and> pw_write_buf w = [] \<and> pw_pack_id w = pid"
proof -
  have hdr: "length hdr = 20" "take 4 hdr = PACK_MAGIC"
    using assms(1) by (simp_all add: pack_header_ok_def PACK_HEADER_SIZE_def)
  have "reopen_scan (hdr @ enc_all rs) 20 0 [] = (20 + length (enc_all rs), 0 + length rs, [] @ enc_all rs)"
    by (rule reopen_scan_log[OF assms(2)]) (simp add: hdr)
  then show ?thesis
    using assms(1) hdr by (simp add: reopen_def read_exact_at_def PACK_HEADER_SIZE_def pack_log_def)
qed

section \<open>A run of the writer\<close>

text \<open>Appending a list of pages, collecting the returned offsets.\<close>

fun append_pages ::
  "pack_writer \<Rightarrow> (page_hash \<times> bytes) list \<Rightarrow> (pack_error, nat list \<times> pack_writer) outcome" where
  "append_pages w [] = Ok ([], w)"
| "append_pages w (hp # ps) =
     obind (append_record w (fst hp) (snd hp)) (\<lambda>(off, w).
     obind (append_pages w ps) (\<lambda>(offs, w). Ok (off # offs, w)))"

definition page_ok :: "(bytes \<Rightarrow> hash32) \<Rightarrow> page_hash \<times> bytes \<Rightarrow> bool" where
  "page_ok blake3 hp \<longleftrightarrow> length (snd hp) = PAGE_SIZE \<and> fst hp = PageHash (blake3 (snd hp))"

abbreviation raw_recs :: "(page_hash \<times> bytes) list \<Rightarrow> page_rec list" where
  "raw_recs ps \<equiv> map (\<lambda>(h, p). (h, 1, p)) ps"

lemma raw_recs_ok: "list_all (page_ok blake3) ps \<Longrightarrow> list_all (rec_ok blake3) (raw_recs ps)"
  by (induction ps) (auto simp: page_ok_def rec_ok_def)

lemma append_pages_Ok:
  assumes "pack_log w hdr rs" "list_all (page_ok blake3) ps" "append_pages w ps = Ok (offs, w')"
  shows "pack_log w' hdr (rs @ raw_recs ps) \<and>
    map fst (record_offsets (PACK_HEADER_SIZE + length (enc_all rs)) (raw_recs ps)) = offs"
  using assms
proof (induction ps arbitrary: w rs offs)
  case Nil
  then show ?case by simp
next
  case (Cons hp ps)
  obtain h p where hp: "hp = (h, p)" by (cases hp)
  obtain off v offs' where step: "append_record w h p = Ok (off, v)"
    and rest: "append_pages v ps = Ok (offs', w')" and offs: "offs = off # offs'"
    using Cons.prems(3) by (auto simp: hp obind_eq_Ok)
  have p: "length p = PAGE_SIZE" and ok: "list_all (page_ok blake3) ps"
    using Cons.prems(2) by (simp_all add: hp page_ok_def[of _ "(h, p)"])
  note a = append_record_Ok[OF Cons.prems(1) p step]
  show ?case
    using Cons.IH[OF a(1) ok rest] a(2) by (simp add: hp offs rec_payload_def add.assoc)
qed

lemma offset_of_member:
  assumes "(off, h) \<in> set (record_offsets base rs)"
  shows "\<exists>as f p bs. rs = as @ (h, f, p) # bs \<and> off = base + length (enc_all as)"
  using assms
proof (induction rs arbitrary: base)
  case (Cons r rs)
  show ?case
  proof (cases "(off, h) = (base, fst r)")
    case True
    then show ?thesis
      by (intro exI[of _ "[]"]) (cases r; auto)
  next
    case False
    then obtain as f p bs where "rs = as @ (h, f, p) # bs"
      "off = base + length (enc r) + length (enc_all as)"
      using Cons.IH[of "base + length (enc r)"] Cons.prems by auto
    then show ?thesis
      by (intro exI[of _ "r # as"]) auto
  qed
qed simp

lemma zip_record_offsets:
  "zip (map fst (record_offsets off (raw_recs ps))) (map fst ps) = record_offsets off (raw_recs ps)"
  by (induction ps arbitrary: off) auto

lemma offset_read:
  assumes "(off, h) \<in> set (record_offsets PACK_HEADER_SIZE (raw_recs ps))"
    "list_all (page_ok blake3) ps" "length hdr = PACK_HEADER_SIZE"
  shows "\<exists>p. (h, p) \<in> set ps \<and> read_at_from_file blake3 (hdr @ enc_all (raw_recs ps) @ tail) off h = Ok p"
proof -
  obtain as f p bs where split: "raw_recs ps = as @ (h, f, p) # bs"
    and off: "off = PACK_HEADER_SIZE + length (enc_all as)"
    using offset_of_member[OF assms(1)] by blast
  have "(h, f, p) \<in> set (raw_recs ps)"
    by (simp add: split)
  then have "(h, p) \<in> set ps"
    by auto
  moreover from this have "h = PageHash (blake3 p)" "length p = PAGE_SIZE"
    using assms(2) by (auto simp: list_all_iff page_ok_def)
  ultimately show ?thesis
    using read_logged[OF assms(3)] unfolding split off by blast
qed

section \<open>Properties\<close>

text \<open>C6: Opening an unsealed pack keeps the longest good prefix, whatever the bytes of the file:
  the file left on disk is a prefix of the old one, it is the header followed by records that
  are complete and whose payload has the stored hash, the count returned is their number, and
  no further good record follows in the old file.\<close>

theorem open_unsealed_longest_good_prefix:
  assumes "PACK_HEADER_SIZE \<le> length fl" "open_unsealed blake3 (Some fl) pid = Ok (r, n)"
  shows "\<exists>rs rest. list_all (rec_ok blake3) rs \<and> n = length rs \<and>
    pr_file r = take PACK_HEADER_SIZE fl @ enc_all rs \<and> fl = pr_file r @ rest \<and>
    pr_body_end r = Some (length (pr_file r)) \<and>
    (\<nexists>x more_bytes. rec_ok blake3 x \<and> rest = enc x @ more_bytes)"
proof -
  obtain e torn where scan: "unsealed_scan blake3 fl PACK_HEADER_SIZE 0 = (e, n, torn)"
    and r: "r = \<lparr>pr_file = (if torn then take e fl else fl), pr_pack_id = pid, pr_body_end = Some e\<rparr>"
    using assms(2) by (auto simp: open_unsealed_def obind_eq_Ok split: if_splits prod.splits)
  obtain rs where rs: "list_all (rec_ok blake3) rs" "take e fl = take PACK_HEADER_SIZE fl @ enc_all rs"
    "e \<le> length fl" "n = length rs" "torn \<longleftrightarrow> e < length fl" "torn \<longrightarrow> check_record blake3 fl e = None"
    using unsealed_scan_spec[OF assms(1) scan] by auto
  have file_r: "pr_file r = take e fl"
    using rs(3,5) by (simp add: r)
  have "\<not> (rec_ok blake3 x \<and> drop e fl = enc x @ more_bytes)" for x more_bytes
    using check_record_enc[of blake3 x more_bytes] rs(3,5,6) check_record_drop[OF rs(3), of blake3]
    by (cases "e < length fl") (auto dest: arg_cong[where f = length])
  moreover have "fl = pr_file r @ drop e fl" "pr_body_end r = Some (length (pr_file r))"
    using rs(3) unfolding file_r by (simp_all add: r)
  ultimately show ?thesis
    using rs(1,2,4) file_r by metis
qed

definition len_hash :: "bytes \<Rightarrow> hash32" where
  "len_hash bs = of_nat (length bs)"

definition zero_page :: bytes where
  "zero_page = replicate PAGE_SIZE 0"

lemma zero_page_ok: "page_ok len_hash (PageHash 4096, zero_page)"
  by (simp add: page_ok_def zero_page_def len_hash_def PAGE_SIZE_def)

theorem open_unsealed_longest_good_prefix_witness:
  "\<exists>r. open_unsealed len_hash (Some (pack_header (PackId 1) 0)) (PackId 1) = Ok (r, 0) \<and>
     pr_file r = pack_header (PackId 1) 0"
proof -
  let ?fl = "pack_header (PackId 1) 0"
  have len: "length ?fl = PACK_HEADER_SIZE"
    using pack_header_ok_header[of "PackId 1" 0] by (simp only: pack_header_ok_def)
  obtain r where r: "open_unsealed len_hash (Some ?fl) (PackId 1) = Ok (r, 0)"
    using open_unsealed_torn[of ?fl len_hash "[]" 0 "PackId 1"] by simp
  show ?thesis
    using open_unsealed_longest_good_prefix[OF eq_imp_le[OF len[symmetric]] r] r len by auto
qed

text \<open>C7: Crash recovery of the active pack.  If a crash leaves any prefix (from the header on) of
  the bytes a writer has logged, opening the pack unsealed recovers exactly the records that
  lie completely in that prefix and cuts the file there, and reopening it for appending gives
  a writer that holds exactly those records.\<close>

theorem crash_recovery:
  assumes "pack_log w hdr rs" "list_all (rec_ok blake3) rs"
  shows "\<exists>r w'. let rs' = whole_records k rs in
    open_unsealed blake3 (Some (take (PACK_HEADER_SIZE + k) (pw_file w @ pw_write_buf w))) pid = Ok (r, length rs') \<and>
    pr_file r = hdr @ enc_all rs' \<and> (\<exists>m. rs' = take m rs) \<and>
    reopen (Some (pr_file r)) pid = Ok w' \<and> pack_log w' hdr rs'"
proof -
  have hdr: "pack_header_ok hdr" and bytes: "pw_file w @ pw_write_buf w = hdr @ enc_all rs"
    using assms(1) by (simp_all add: pack_log_def)
  have "take (PACK_HEADER_SIZE + k) (hdr @ enc_all rs) = hdr @ take k (enc_all rs)"
    using hdr by (simp add: pack_header_ok_def)
  then show ?thesis
    using open_unsealed_torn[OF hdr assms(2), of k pid] whole_records_prefix[of k rs]
      reopen_log[OF hdr whole_records_ok[OF assms(2)], of k pid]
    by (auto simp: bytes Let_def)
qed

theorem crash_recovery_witness:
  "let w = \<lparr>pw_file = pack_header (PackId 1) 0 @ enc (PageHash 4096, 1, zero_page),
            pw_pos = 4153, pw_pack_id = PackId 1, pw_body = enc (PageHash 4096, 1, zero_page),
            pw_write_buf = [], pw_write_offset = 4153, pw_record_count = 1,
            pw_sealed = False, pw_max_bytes = 10000\<rparr>
   in whole_records 100 [(PageHash 4096, 1, zero_page)] = [] \<and>
      (\<exists>r. open_unsealed len_hash (Some (take (PACK_HEADER_SIZE + 100) (pw_file w))) (PackId 1) = Ok (r, 0))"
proof -
  let ?rs = "[(PageHash 4096, 1, zero_page)]" and ?hdr = "pack_header (PackId 1) 0"
  let ?w = "\<lparr>pw_file = ?hdr @ enc (PageHash 4096, 1, zero_page),
            pw_pos = 4153, pw_pack_id = PackId 1, pw_body = enc (PageHash 4096, 1, zero_page),
            pw_write_buf = [], pw_write_offset = 4153, pw_record_count = 1,
            pw_sealed = False, pw_max_bytes = 10000\<rparr>"
  have z: "length zero_page = 4096"
    by (simp add: zero_page_def PAGE_SIZE_def)
  have "length ?hdr = 20"
    using pack_header_ok_header[of "PackId 1" 0] by (simp only: pack_header_ok_def PACK_HEADER_SIZE_def)
  then have log: "pack_log ?w ?hdr ?rs"
    by (simp add: pack_log_def z PACK_HEADER_SIZE_def)
  have ok: "list_all (rec_ok len_hash) ?rs"
    by (simp add: rec_ok_def len_hash_def z PAGE_SIZE_def)
  have none: "whole_records 100 ?rs = []"
    by (simp add: rec_payload_def z)
  show ?thesis
    using crash_recovery[OF log ok, of 100 "PackId 1"] none by (simp add: Let_def) blast
qed

text \<open>C8: What goes into a pack comes out of it.  Appending pages to a fresh pack, sealing it and
  opening it again succeeds; the scan of the sealed pack lists exactly the appended hashes in
  order with the offsets that \<open>append\<close> returned, and reading any of these offsets with its hash
  returns a page with that hash.\<close>

theorem sealed_pack_round_trip:
  assumes "create_with_max_bytes None pid t cap = Ok w0" "list_all (page_ok blake3) ps"
    "append_pages w0 ps = Ok (offs, w1)" "length ps < usize_limit"
  shows "\<exists>w2 r. seal_no_sync blake3 w1 = Ok w2 \<and> open_sealed (Some (pw_file w2)) pid = Ok r \<and>
    pack_scan r = Ok (zip offs (map fst ps)) \<and>
    (\<forall>(off, h) \<in> set (zip offs (map fst ps)). \<exists>p. (h, p) \<in> set ps \<and>
       read_at_from_file blake3 (pw_file w2) off h = Ok p)"
proof -
  let ?rs = "raw_recs ps" and ?hdr = "pack_header pid t"
  have log: "pack_log w1 ?hdr ?rs"
    and offs: "map fst (record_offsets PACK_HEADER_SIZE ?rs) = offs"
    using append_pages_Ok[OF _ assms(2,3)] create_pack_log[OF assms(1)] by fastforce+
  have ok: "list_all (rec_ok blake3) ?rs" and hdr: "pack_header_ok ?hdr" "length ?hdr = PACK_HEADER_SIZE"
    using raw_recs_ok[OF assms(2)] pack_header_ok_header[of pid t] by (simp_all only: pack_header_ok_def)
  obtain w2 where w2: "seal_no_sync blake3 w1 = Ok w2"
    "pw_file w2 = ?hdr @ enc_all ?rs @ pack_footer (length ?rs) (blake3 (enc_all ?rs))"
    using seal_no_sync_log[OF log] by blast
  have zip: "zip offs (map fst ps) = record_offsets PACK_HEADER_SIZE ?rs"
    unfolding offs[symmetric] by (rule zip_record_offsets)
  have "\<exists>p. (h, p) \<in> set ps \<and> read_at_from_file blake3 (pw_file w2) off h = Ok p"
    if "(off, h) \<in> set (zip offs (map fst ps))" for off h
    using offset_read[OF that[unfolded zip] assms(2) hdr(2)] unfolding w2(2) by blast
  moreover have "scan_records (pw_file w2) (PACK_HEADER_SIZE + length (enc_all ?rs)) PACK_HEADER_SIZE =
      Ok (record_offsets PACK_HEADER_SIZE ?rs)"
    unfolding w2(2) by (rule scan_records_log[OF ok hdr(2)[symmetric] refl])
  ultimately show ?thesis
    using w2(1) open_sealed_log[OF hdr(1) ok, of "blake3 (enc_all ?rs)" pid] assms(4)
    unfolding zip by (auto simp: pack_scan_def w2(2))
qed

theorem sealed_pack_round_trip_witness:
  "\<exists>w0 offs w1 w2 r. create_with_max_bytes None (PackId 1) 0 10000 = Ok w0 \<and>
     append_pages w0 [(PageHash 4096, zero_page)] = Ok (offs, w1) \<and>
     seal_no_sync len_hash w1 = Ok w2 \<and> open_sealed (Some (pw_file w2)) (PackId 1) = Ok r \<and>
     pack_scan r = Ok [(20, PageHash 4096)]"
proof -
  obtain w0 where w0: "create_with_max_bytes None (PackId 1) 0 10000 = Ok w0"
    by (simp add: create_with_max_bytes_def)
  have log: "pack_log w0 (pack_header (PackId 1) 0) []" "pw_max_bytes w0 = 10000"
    using create_pack_log[OF w0] by auto
  then have "\<not> would_exceed_cap w0" and off: "pw_write_offset w0 = 20"
    by (simp_all add: would_exceed_cap_def pack_log_def pack_consts)
  then obtain w1 where "append_record w0 (PageHash 4096) zero_page = Ok (20, w1)"
    using append_record_Full(2)[OF log(1), of "PageHash 4096" zero_page] by auto
  then have w1: "append_pages w0 [(PageHash 4096, zero_page)] = Ok ([20], w1)"
    by simp
  show ?thesis
    using sealed_pack_round_trip[OF w0 _ w1, of len_hash] zero_page_ok w0 w1
    by (auto simp: usize_limit_def)
qed

text \<open>C9: A page read returns a payload exactly when the record at that offset is complete, is a
  4096-byte record stored under the requested hash, and its payload has that hash: neither a
  wrong offset nor a corrupted payload is ever returned as the page.\<close>

theorem read_at_from_file_integrity:
  "read_at_from_file blake3 fl off h = Ok p \<longleftrightarrow>
     (\<exists>f. off + (RECORD_HEADER_SIZE + PAGE_SIZE) \<le> length fl \<and>
        take (RECORD_HEADER_SIZE + PAGE_SIZE) (drop off fl) = encode_record h f p) \<and>
     length p = PAGE_SIZE \<and> h = PageHash (blake3 p)"
  using read_at_from_file_Ok[of blake3 fl off h p] by (simp add: pack_consts)

end
