(* ===== verification/Page_Index.thy ===== *)
theory Page_Index
  imports Pack "HOL-Library.AList" "HOL-Library.List_Lexorder"
begin

text \<open>
  The page index (\<^verbatim>\<open>crates/snapstore-pagestore/src/index.rs\<close>): 256 shards that map page
  hashes to locations, the sidecar files that persist the entries of one pack, and the
  rebuilding of a pack's entries from its records.  A \<open>HashMap\<close> is an association list
  with distinct keys, whose order stands for the iteration order; nothing depends on it.
  The shard locks are not modelled: every operation holds the lock of one shard for its
  whole effect on that shard.  CRC-32 is the argument \<open>crc32\<close>.
\<close>

section \<open>The interface\<close>

text \<open>What the page store relies on: lookups after the four updates.\<close>

locale page_table =
  fixes lookup :: "'i \<Rightarrow> page_hash \<Rightarrow> page_loc option"
    and ins :: "'i \<Rightarrow> page_hash \<Rightarrow> page_loc \<Rightarrow> 'i"
    and repoint :: "'i \<Rightarrow> page_hash \<Rightarrow> pack_id \<Rightarrow> page_loc \<Rightarrow> 'i \<times> bool"
    and remove :: "'i \<Rightarrow> page_hash \<Rightarrow> pack_id \<Rightarrow> 'i \<times> bool"
    and inv :: "'i \<Rightarrow> bool"
  assumes inv_ins: "inv ix \<Longrightarrow> inv (ins ix h l)"
    and inv_repoint: "inv ix \<Longrightarrow> inv (fst (repoint ix h p l))"
    and inv_remove: "inv ix \<Longrightarrow> inv (fst (remove ix h p))"
    and lookup_ins: "inv ix \<Longrightarrow> lookup (ins ix h l) =
      (case lookup ix h of None \<Rightarrow> (lookup ix)(h \<mapsto> l) | Some _ \<Rightarrow> lookup ix)"
    and lookup_repoint: "inv ix \<Longrightarrow> lookup (fst (repoint ix h p l)) =
      (case lookup ix h of Some k \<Rightarrow> if loc_pack k = p then (lookup ix)(h \<mapsto> l) else lookup ix
       | None \<Rightarrow> lookup ix)"
    and lookup_remove: "inv ix \<Longrightarrow> lookup (fst (remove ix h p)) =
      (case lookup ix h of Some k \<Rightarrow> if loc_pack k = p then (lookup ix)(h := None) else lookup ix
       | None \<Rightarrow> lookup ix)"
begin

text \<open>First writer wins, over a whole batch.\<close>

definition ins_all :: "'i \<Rightarrow> (page_hash \<times> page_loc) list \<Rightarrow> 'i" where
  "ins_all ix es = fold (\<lambda>(h, l) ix. ins ix h l) es ix"

lemma ins_all_simps [simp]:
  "ins_all ix [] = ix"
  "ins_all ix ((h, l) # es) = ins_all (ins ix h l) es"
  by (simp_all add: ins_all_def)

lemma inv_ins_all: "inv ix \<Longrightarrow> inv (ins_all ix es)"
  by (induction es arbitrary: ix) (auto simp: inv_ins)

lemma lookup_ins_all:
  "inv ix \<Longrightarrow> lookup (ins_all ix es) h = (case lookup ix h of None \<Rightarrow> map_of es h | Some l \<Rightarrow> Some l)"
  by (induction es arbitrary: ix) (auto simp: inv_ins lookup_ins split: option.splits)

lemma lookup_ins_all_mono:
  "inv ix \<Longrightarrow> lookup ix h = Some l \<Longrightarrow> lookup (ins_all ix es) h = Some l"
  by (simp add: lookup_ins_all)

lemma dom_repoint: "inv ix \<Longrightarrow> dom (lookup (fst (repoint ix h p l))) = dom (lookup ix)"
  by (auto simp: lookup_repoint split: option.splits if_splits)

lemma lookup_remove_other:
  "inv ix \<Longrightarrow> lookup ix k = Some l \<Longrightarrow> loc_pack l \<noteq> p \<Longrightarrow>
   lookup (fst (remove ix h p)) k = Some l"
  by (auto simp: lookup_remove split: option.splits)

end

section \<open>The sharded index\<close>

definition SHARD_COUNT :: nat where
  "SHARD_COUNT = 256"

type_synonym shard = "(page_hash \<times> page_loc) list"
type_synonym sharded_index = "shard list"

definition shard_for :: "page_hash \<Rightarrow> nat" where
  "shard_for h = unat (hd (page_hash_as_bytes h))"

definition index_new :: sharded_index where
  "index_new = replicate SHARD_COUNT []"

definition index_get :: "sharded_index \<Rightarrow> page_hash \<Rightarrow> page_loc option" where
  "index_get ix h = map_of (ix ! shard_for h) h"

text \<open>\<open>guard.entry(hash).or_insert(loc)\<close>.\<close>

definition or_insert :: "page_hash \<Rightarrow> page_loc \<Rightarrow> shard \<Rightarrow> shard" where
  "or_insert h l s = (case map_of s h of None \<Rightarrow> s @ [(h, l)] | Some _ \<Rightarrow> s)"

definition index_insert :: "sharded_index \<Rightarrow> page_hash \<Rightarrow> page_loc \<Rightarrow> sharded_index" where
  "index_insert ix h l = (let i = shard_for h in ix[i := or_insert h l (ix ! i)])"

definition repoint_if_in_pack ::
  "sharded_index \<Rightarrow> page_hash \<Rightarrow> pack_id \<Rightarrow> page_loc \<Rightarrow> sharded_index \<times> bool" where
  "repoint_if_in_pack ix h expected_pack new_loc =
     (let i = shard_for h; guard = ix ! i in
      case map_of guard h of
        Some l \<Rightarrow>
          if loc_pack l = expected_pack then (ix[i := AList.update h new_loc guard], True)
          else (ix, False)
      | None \<Rightarrow> (ix, False))"

definition remove_if_in_pack :: "sharded_index \<Rightarrow> page_hash \<Rightarrow> pack_id \<Rightarrow> sharded_index \<times> bool" where
  "remove_if_in_pack ix h expected_pack =
     (let i = shard_for h; guard = ix ! i in
      case map_of guard h of
        Some l \<Rightarrow>
          if loc_pack l = expected_pack then (ix[i := AList.delete h guard], True)
          else (ix, False)
      | None \<Rightarrow> (ix, False))"

definition entries_for_pack :: "sharded_index \<Rightarrow> pack_id \<Rightarrow> (page_hash \<times> page_loc) list" where
  "entries_for_pack ix pack = concat (map (filter (\<lambda>(h, l). loc_pack l = pack)) ix)"

text \<open>\<open>insert_batch\<close>: entries are grouped by shard first, then each shard is updated.\<close>

definition buckets :: "(page_hash \<times> page_loc) list \<Rightarrow> (page_hash \<times> page_loc) list list" where
  "buckets entries = map (\<lambda>i. filter (\<lambda>(h, l). shard_for h = i) entries) [0..<SHARD_COUNT]"

definition insert_batch :: "sharded_index \<Rightarrow> (page_hash \<times> page_loc) list \<Rightarrow> sharded_index" where
  "insert_batch ix entries = map2 (fold (\<lambda>(h, l). or_insert h l)) (buckets entries) ix"

definition index_len :: "sharded_index \<Rightarrow> nat" where
  "index_len ix = sum_list (map length ix)"

section \<open>Sidecar files\<close>

datatype index_error = IxIo io_kind | IxBadCrc | IxTruncated | IxPack pack_error

definition SIDECAR_ENTRY_SIZE :: nat where
  "SIDECAR_ENTRY_SIZE = 44"

definition sidecar_entry :: "page_hash \<times> page_loc \<Rightarrow> bytes" where
  "sidecar_entry e =
     page_hash_as_bytes (fst e) @ to_le_bytes 4 (pack_num (loc_pack (snd e)))
     @ to_le_bytes 8 (loc_offset (snd e))"

definition write_sidecar_entries :: "(bytes \<Rightarrow> u32) \<Rightarrow> (page_hash \<times> page_loc) list \<Rightarrow> bytes" where
  "write_sidecar_entries crc32 entries0 =
     (let entries = sort_key (\<lambda>e. page_hash_as_bytes (fst e)) entries0;
          buf = to_le_bytes 4 (of_nat (length entries) :: u32) @ concat (map sidecar_entry entries)
      in buf @ to_le_bytes 4 (crc32 buf))"

definition write_sidecar :: "(bytes \<Rightarrow> u32) \<Rightarrow> sharded_index \<Rightarrow> pack_id \<Rightarrow> bytes" where
  "write_sidecar crc32 ix pack = write_sidecar_entries crc32 (entries_for_pack ix pack)"

text \<open>The loop over entry \<open>i\<close> at \<open>base = i * ENTRY_SIZE\<close>.\<close>

fun parse_sidecar ::
  "bytes \<Rightarrow> nat \<Rightarrow> nat \<Rightarrow> (index_error, (page_hash \<times> page_loc) list) outcome" where
  "parse_sidecar eb base 0 = Ok []"
| "parse_sidecar eb base (Suc n) =
     obind (slice base (base + 32) eb) (\<lambda>hash_bytes.
     obind (read_le 4 (base + 32) eb) (\<lambda>pack_id.
     obind (read_le 8 (base + 36) eb) (\<lambda>offset.
     obind (parse_sidecar eb (base + SIDECAR_ENTRY_SIZE) n) (\<lambda>rest.
     Ok ((page_hash_from_bytes hash_bytes,
          \<lparr>loc_pack = PackId pack_id, loc_offset = offset\<rparr>) # rest)))))"

definition sidecar_decode ::
  "(bytes \<Rightarrow> u32) \<Rightarrow> bytes option \<Rightarrow> (index_error, (page_hash \<times> page_loc) list) outcome" where
  "sidecar_decode crc32 on_disk =
     (case on_disk of
        None \<Rightarrow> Err (IxIo NotFound)
      | Some data \<Rightarrow>
          if length data < 8 then Err IxTruncated
          else
            let payload = take (length data - 4) data in
            obind (read_le 4 (length data - 4) data) (\<lambda>stored_crc.
            if stored_crc \<noteq> crc32 payload then Err IxBadCrc
            else if length payload < 4 then Err IxTruncated
            else
              obind (read_le 4 0 payload) (\<lambda>entry_count.
              let entry_count = unat (entry_count :: u32);
                  entries_bytes = drop 4 payload
              in if length entries_bytes < entry_count * SIDECAR_ENTRY_SIZE then Err IxTruncated
                 else parse_sidecar entries_bytes 0 entry_count)))"

definition load_sidecar ::
  "(bytes \<Rightarrow> u32) \<Rightarrow> sharded_index \<Rightarrow> bytes option \<Rightarrow> (index_error, sharded_index \<times> nat) outcome" where
  "load_sidecar crc32 ix on_disk =
     obind (sidecar_decode crc32 on_disk) (\<lambda>batch. Ok (insert_batch ix batch, length batch))"

section \<open>Rebuilding from a pack\<close>

definition rebuild_from_pack ::
  "(bytes \<Rightarrow> hash32) \<Rightarrow> bytes option \<Rightarrow> pack_id \<Rightarrow> bool \<Rightarrow>
     (index_error, (page_hash \<times> page_loc) list) outcome" where
  "rebuild_from_pack blake3 on_disk pid is_sealed =
     obind (map_err IxPack
       (if is_sealed then obind (open_sealed on_disk pid) pack_scan
        else obind (open_unsealed blake3 on_disk pid) (\<lambda>(reader, _). pack_scan reader))) (\<lambda>records.
     Ok (map (\<lambda>(offset, h). (h, \<lparr>loc_pack = pid, loc_offset = of_nat offset\<rparr>)) records))"

section \<open>The index implements the interface\<close>

definition index_inv :: "sharded_index \<Rightarrow> bool" where
  "index_inv ix \<longleftrightarrow>
     length ix = SHARD_COUNT \<and>
     (\<forall>i < SHARD_COUNT. distinct (map fst (ix ! i)) \<and> (\<forall>h \<in> fst ` set (ix ! i). shard_for h = i))"

lemma shard_for_less [simp]: "shard_for h < SHARD_COUNT"
  using unsigned_less[where 'a = nat and w = "hd (page_hash_as_bytes h)"]
  by (simp add: shard_for_def SHARD_COUNT_def)

lemma index_inv_update:
  assumes "index_inv ix" "i = shard_for h" "distinct (map fst s)" "fst ` set s \<subseteq> insert h (fst ` set (ix ! i))"
  shows "index_inv (ix[i := s])"
proof -
  have "shard_for k = i" if "k \<in> fst ` set s" for k
  proof -
    have "k = h \<or> k \<in> fst ` set (ix ! i)"
      using assms(4) that by blast
    then show ?thesis
      using assms(1,2) unfolding index_inv_def by (metis shard_for_less)
  qed
  then show ?thesis
    using assms(1-3) unfolding index_inv_def by (auto simp: nth_list_update)
qed

lemma index_get_update:
  assumes "index_inv ix" "i = shard_for h" "map_of s = (map_of (ix ! i))(h := v)"
  shows "index_get (ix[i := s]) = (index_get ix)(h := v)"
proof
  fix k
  show "index_get (ix[i := s]) k = ((index_get ix)(h := v)) k"
    using assms by (auto simp: index_get_def nth_list_update index_inv_def)
qed

lemma or_insert_props:
  "map_of (or_insert h l s) = (case map_of s h of None \<Rightarrow> (map_of s)(h \<mapsto> l) | Some _ \<Rightarrow> map_of s)"
  "distinct (map fst s) \<Longrightarrow> distinct (map fst (or_insert h l s))"
  "fst ` set (or_insert h l s) \<subseteq> insert h (fst ` set s)"
proof -
  show "map_of (or_insert h l s) = (case map_of s h of None \<Rightarrow> (map_of s)(h \<mapsto> l) | Some _ \<Rightarrow> map_of s)"
    by (cases "map_of s h") (auto simp: or_insert_def fun_eq_iff map_add_def split: option.splits)
qed (auto simp: or_insert_def map_of_eq_None_iff split: option.splits)

interpretation sharded: page_table index_get index_insert repoint_if_in_pack remove_if_in_pack index_inv
proof
  fix ix h l p
  assume inv: "index_inv ix"
  let ?i = "shard_for h"
  have d: "distinct (map fst (ix ! ?i))"
    using inv by (simp add: index_inv_def)
  show "index_inv (index_insert ix h l)"
    using or_insert_props(2)[OF d] or_insert_props(3)
    by (simp add: index_insert_def Let_def index_inv_update[where h = h, OF inv refl])
  show "index_inv (fst (repoint_if_in_pack ix h p l))"
    using index_inv_update[where h = h and s = "AList.update h l (ix ! ?i)", OF inv refl] inv d
    by (simp add: repoint_if_in_pack_def Let_def distinct_update dom_update split: option.split)
  show "index_inv (fst (remove_if_in_pack ix h p))"
    using index_inv_update[where h = h and s = "AList.delete h (ix ! ?i)", OF inv refl] inv d
      dom_delete_subset[of h "ix ! ?i"]
    by (auto simp: remove_if_in_pack_def Let_def distinct_delete split: option.split)
  show "index_get (index_insert ix h l) =
      (case index_get ix h of None \<Rightarrow> (index_get ix)(h \<mapsto> l) | Some _ \<Rightarrow> index_get ix)"
  proof (cases "index_get ix h")
    case None
    then have "map_of (or_insert h l (ix ! ?i)) = (map_of (ix ! ?i))(h \<mapsto> l)"
      by (simp add: or_insert_props(1) index_get_def)
    from index_get_update[OF inv refl this] show ?thesis
      using None by (simp add: index_insert_def Let_def)
  next
    case (Some k)
    then show ?thesis
      by (simp add: index_insert_def Let_def or_insert_def index_get_def)
  qed
  show "index_get (fst (repoint_if_in_pack ix h p l)) =
      (case index_get ix h of Some k \<Rightarrow> if loc_pack k = p then (index_get ix)(h \<mapsto> l) else index_get ix
       | None \<Rightarrow> index_get ix)"
    by (auto simp: repoint_if_in_pack_def Let_def update_conv' index_get_def[of ix h]
        index_get_update[OF inv refl] split: option.split)
  show "index_get (fst (remove_if_in_pack ix h p)) =
      (case index_get ix h of Some k \<Rightarrow> if loc_pack k = p then (index_get ix)(h := None) else index_get ix
       | None \<Rightarrow> index_get ix)"
    by (auto simp: remove_if_in_pack_def Let_def delete_conv' index_get_def[of ix h]
        index_get_update[OF inv refl] split: option.split)
qed

text \<open>Grouping by shard is only an optimisation: the batch is the sequence of single inserts.\<close>

lemma length_buckets [simp]: "length (buckets es) = SHARD_COUNT"
  by (simp add: buckets_def)

lemma insert_batch_Nil: "index_inv ix \<Longrightarrow> insert_batch ix [] = ix"
  by (rule nth_equalityI) (auto simp: insert_batch_def buckets_def index_inv_def)

lemma insert_batch_Cons:
  assumes "index_inv ix"
  shows "insert_batch ix ((h, l) # es) = insert_batch (index_insert ix h l) es"
proof (rule nth_equalityI)
  show "length (insert_batch ix ((h, l) # es)) = length (insert_batch (index_insert ix h l) es)"
    by (simp add: insert_batch_def index_insert_def Let_def)
next
  fix i assume "i < length (insert_batch ix ((h, l) # es))"
  then have i: "i < SHARD_COUNT" "i < length ix" "length ix = SHARD_COUNT"
    using assms by (simp_all add: insert_batch_def index_inv_def)
  then show "insert_batch ix ((h, l) # es) ! i = insert_batch (index_insert ix h l) es ! i"
    by (auto simp: insert_batch_def index_insert_def Let_def buckets_def)
qed

lemma insert_batch_eq: "index_inv ix \<Longrightarrow> insert_batch ix es = sharded.ins_all ix es"
proof (induction es arbitrary: ix)
  case (Cons e es)
  then show ?case
    by (cases e) (simp add: insert_batch_Cons sharded.inv_ins)
qed (simp add: insert_batch_Nil)

lemma index_new_inv [simp]: "index_inv index_new"
  by (simp add: index_inv_def index_new_def)

lemma index_get_new [simp]: "index_get index_new h = None"
  by (simp add: index_get_def index_new_def)

lemma entries_for_pack_iff:
  assumes "index_inv ix"
  shows "(h, l) \<in> set (entries_for_pack ix p) \<longleftrightarrow> index_get ix h = Some l \<and> loc_pack l = p"
proof -
  have len: "length ix = SHARD_COUNT"
    using assms by (simp add: index_inv_def)
  have shard: "i < SHARD_COUNT \<Longrightarrow> (h, l) \<in> set (ix ! i) \<longleftrightarrow> i = shard_for h \<and> map_of (ix ! i) h = Some l" for i
    using assms unfolding index_inv_def by (force simp: map_of_eq_Some_iff)
  have "(h, l) \<in> set (entries_for_pack ix p) \<longleftrightarrow> (\<exists>s\<in>set ix. (h, l) \<in> set s) \<and> loc_pack l = p"
    by (auto simp: entries_for_pack_def)
  also have "(\<exists>s\<in>set ix. (h, l) \<in> set s) \<longleftrightarrow> (\<exists>i<SHARD_COUNT. (h, l) \<in> set (ix ! i))"
    unfolding len[symmetric] by (metis in_set_conv_nth)
  also have "\<dots> \<longleftrightarrow> index_get ix h = Some l"
    by (metis shard shard_for_less index_get_def)
  finally show ?thesis .
qed

section \<open>Sidecars round trip\<close>

lemma length_sidecar_entry [simp]: "length (sidecar_entry e) = 44"
  by (simp add: sidecar_entry_def)

lemma length_sidecar_entries [simp]: "length (concat (map sidecar_entry es)) = 44 * length es"
  by (induction es) auto

lemma parse_sidecar_encode:
  "length pre = base \<Longrightarrow>
   parse_sidecar (pre @ concat (map sidecar_entry es) @ post) base (length es) = Ok es"
proof (induction es arbitrary: pre base)
  case (Cons e es)
  obtain h pid off where e: "e = (h, \<lparr>loc_pack = PackId pid, loc_offset = off\<rparr>)"
    by (metis page_loc.surjective old.unit.exhaust pack_id.exhaust prod.exhaust)
  have rest: "parse_sidecar ((pre @ sidecar_entry e) @ concat (map sidecar_entry es) @ post) (base + 44)
      (length es) = Ok es"
    by (rule Cons.IH) (simp add: Cons.prems)
  have se: "sidecar_entry (h, \<lparr>loc_pack = PackId pid, loc_offset = off\<rparr>) =
      page_hash_as_bytes h @ to_le_bytes 4 pid @ to_le_bytes 8 off"
    by (simp add: sidecar_entry_def)
  have "slice base (base + 32) (pre @ sidecar_entry e @ concat (map sidecar_entry es) @ post) =
      (Ok (page_hash_as_bytes h) :: (index_error, bytes) outcome)"
    "read_le 4 (base + 32) (pre @ sidecar_entry e @ concat (map sidecar_entry es) @ post) =
      (Ok pid :: (index_error, u32) outcome)"
    "read_le 8 (base + 36) (pre @ sidecar_entry e @ concat (map sidecar_entry es) @ post) =
      (Ok off :: (index_error, u64) outcome)"
    using Cons.prems se by (simp_all add: e le_codec)
  with rest show ?case
    by (simp add: SIDECAR_ENTRY_SIZE_def del: slice_Ok read_le_Ok) (simp add: e)
qed simp

lemma sidecar_decode_write:
  assumes "length es < 2 ^ 32"
  shows "sidecar_decode crc32 (Some (write_sidecar_entries crc32 es)) =
    Ok (sort_key (\<lambda>e. page_hash_as_bytes (fst e)) es)"
proof -
  let ?ss = "sort_key (\<lambda>e. page_hash_as_bytes (fst e)) es"
  let ?n = "to_le_bytes 4 (of_nat (length ?ss) :: u32)"
  let ?body = "?n @ concat (map sidecar_entry ?ss)"
  have n: "unat (of_nat (length es) :: u32) = length es"
    using assms by (rule unat_of_nat_u32)
  have "parse_sidecar ([] @ concat (map sidecar_entry ?ss) @ []) 0 (length ?ss) = Ok ?ss"
    by (rule parse_sidecar_encode) simp
  then have p: "parse_sidecar (concat (map sidecar_entry ?ss)) 0 (length es) = Ok ?ss"
    by simp
  show ?thesis
    by (simp add: sidecar_decode_def write_sidecar_entries_def Let_def read_le_def slice_def le_codec
        n p SIDECAR_ENTRY_SIZE_def)
qed

lemma map_of_functional:
  assumes "\<And>k v w. (k, v) \<in> set es \<Longrightarrow> (k, w) \<in> set es \<Longrightarrow> v = w"
  shows "map_of es k = Some v \<longleftrightarrow> (k, v) \<in> set es"
  using assms by (metis map_of_SomeD map_of_eq_None_iff not_None_eq option.inject weak_map_of_SomeI)

lemma load_sidecar_write:
  assumes inv: "index_inv ix" and size: "length (entries_for_pack ix p) < 2 ^ 32"
    and inv': "index_inv ix'"
  shows "\<exists>ix''. load_sidecar crc32 ix' (Some (write_sidecar crc32 ix p)) =
      Ok (ix'', length (entries_for_pack ix p)) \<and> index_inv ix'' \<and>
    (\<forall>h. index_get ix'' h =
       (case index_get ix' h of Some l \<Rightarrow> Some l
        | None \<Rightarrow> (case index_get ix h of Some l \<Rightarrow> if loc_pack l = p then Some l else None | None \<Rightarrow> None)))"
proof -
  let ?es = "sort_key (\<lambda>e. page_hash_as_bytes (fst e)) (entries_for_pack ix p)"
  have load: "load_sidecar crc32 ix' (Some (write_sidecar crc32 ix p)) =
      Ok (sharded.ins_all ix' ?es, length (entries_for_pack ix p))"
    using sidecar_decode_write[OF size, of crc32]
    by (simp add: load_sidecar_def write_sidecar_def insert_batch_eq[OF inv'])
  have "map_of ?es h = Some l \<longleftrightarrow> index_get ix h = Some l \<and> loc_pack l = p" for h l
    using entries_for_pack_iff[OF inv] by (subst map_of_functional) auto
  then have "map_of ?es h = (case index_get ix h of Some l \<Rightarrow> if loc_pack l = p then Some l else None | None \<Rightarrow> None)" for h
    by (intro option_eqI) (auto split: option.splits)
  then show ?thesis
    using load sharded.inv_ins_all[OF inv'] sharded.lookup_ins_all[OF inv']
    by (auto split: option.split)
qed

section \<open>Properties\<close>

text \<open>C10: The sharded index behaves as one finite map from page hashes to locations: an insert
  keeps an existing entry (first writer wins), a repoint or removal touches an entry only if
  it still lies in the expected pack and reports whether it did, and the shard invariant is
  kept by every update.\<close>

theorem sharded_index_refines_map:
  assumes "index_inv ix"
  shows "index_inv (index_insert ix h l) \<and> index_inv (fst (repoint_if_in_pack ix h p l)) \<and>
    index_inv (fst (remove_if_in_pack ix h p)) \<and>
    index_get (index_insert ix h l) =
      (if h \<in> dom (index_get ix) then index_get ix else (index_get ix)(h \<mapsto> l)) \<and>
    (let hit = (\<exists>k. index_get ix h = Some k \<and> loc_pack k = p) in
      snd (repoint_if_in_pack ix h p l) = hit \<and> snd (remove_if_in_pack ix h p) = hit \<and>
      index_get (fst (repoint_if_in_pack ix h p l)) = (if hit then (index_get ix)(h \<mapsto> l) else index_get ix) \<and>
      index_get (fst (remove_if_in_pack ix h p)) = (if hit then (index_get ix)(h := None) else index_get ix))"
proof -
  have flags: "snd (repoint_if_in_pack ix h p l) = (\<exists>k. index_get ix h = Some k \<and> loc_pack k = p)"
    "snd (remove_if_in_pack ix h p) = (\<exists>k. index_get ix h = Some k \<and> loc_pack k = p)"
    by (auto simp: repoint_if_in_pack_def remove_if_in_pack_def Let_def index_get_def split: option.split)
  show ?thesis
    unfolding Let_def flags
    using sharded.inv_ins[OF assms] sharded.inv_repoint[OF assms] sharded.inv_remove[OF assms]
      sharded.lookup_ins[OF assms] sharded.lookup_repoint[OF assms] sharded.lookup_remove[OF assms]
    by (cases "index_get ix h") auto
qed

theorem sharded_index_refines_map_witness:
  "index_inv index_new \<and> index_inv (index_insert index_new (PageHash 1) \<lparr>loc_pack = PackId 1, loc_offset = 20\<rparr>)"
  using sharded_index_refines_map[of index_new "PageHash 1" "\<lparr>loc_pack = PackId 1, loc_offset = 20\<rparr>"] by simp

text \<open>A batch insert, which first groups the entries by shard, gives exactly the same index as
  inserting the entries one after the other.\<close>

theorem insert_batch_is_sequential:
  "index_inv ix \<Longrightarrow> insert_batch ix es = fold (\<lambda>(h, l) ix. index_insert ix h l) es ix"
  by (simp add: insert_batch_eq sharded.ins_all_def)

theorem insert_batch_is_sequential_witness:
  "index_inv index_new \<and>
   insert_batch index_new [(PageHash 1, \<lparr>loc_pack = PackId 1, loc_offset = 20\<rparr>)] =
     index_insert index_new (PageHash 1) \<lparr>loc_pack = PackId 1, loc_offset = 20\<rparr>"
  using insert_batch_is_sequential[of index_new] by simp

text \<open>C11: A sidecar restores its pack: loading the sidecar written for a pack into any index adds
  exactly the entries the old index had for that pack, keeping what was there, and reports
  their number.\<close>

theorem sidecar_round_trip:
  assumes "index_inv ix" "index_inv ix'" "length (entries_for_pack ix p) < 2 ^ 32"
  shows "\<exists>ix''. load_sidecar crc32 ix' (Some (write_sidecar crc32 ix p)) =
      Ok (ix'', length (entries_for_pack ix p)) \<and>
    (\<forall>h l. index_get ix'' h = Some l \<longleftrightarrow>
       index_get ix' h = Some l \<or> index_get ix' h = None \<and> index_get ix h = Some l \<and> loc_pack l = p)"
  using load_sidecar_write[OF assms(1,3,2), of crc32] by (fastforce split: option.splits)

theorem sidecar_round_trip_witness:
  "\<exists>ix''. load_sidecar (\<lambda>_. 7) index_new
     (Some (write_sidecar (\<lambda>_. 7) (index_insert index_new (PageHash 1) \<lparr>loc_pack = PackId 1, loc_offset = 20\<rparr>) (PackId 1)))
     = Ok (ix'', 1) \<and> index_get ix'' (PageHash 1) = Some \<lparr>loc_pack = PackId 1, loc_offset = 20\<rparr>"
proof -
  let ?l = "\<lparr>loc_pack = PackId 1, loc_offset = 20\<rparr>"
  let ?ix = "index_insert index_new (PageHash 1) ?l"
  have inv: "index_inv ?ix" and get: "index_get ?ix (PageHash 1) = Some ?l"
    using sharded.inv_ins[of index_new] sharded.lookup_ins[of index_new] by simp_all
  have "length (entries_for_pack ?ix (PackId 1)) = 1"
    by code_simp
  then show ?thesis
    using sidecar_round_trip[OF inv index_new_inv, of "PackId 1" "\<lambda>_. 7"] get by auto
qed

end
