(* ===== verification/Read_Cache.thy ===== *)
theory Read_Cache
  imports Pack "HOL-Library.AList" "HOL-Library.Multiset"
begin

text \<open>
  The cache of open read handles (\<^verbatim>\<open>crates/snapstore-pagestore/src/read_cache.rs\<close>).  A
  handle is a value of a type variable; opening a pack is an argument.  The map is an
  association list whose order stands for the iteration order of the \<open>HashMap\<close>, and the
  generation counter is the 64-bit one of the source.  The lemmas show that the
  generation numbers implement a queue ordered by recency.
\<close>

section \<open>The LRU map\<close>

record 'f lru =
  lru_entries :: "(pack_id \<times> ('f \<times> u64)) list"
  lru_generation :: u64
  lru_capacity :: nat

definition lru_new :: "nat \<Rightarrow> 'f lru" where
  "lru_new cap = \<lparr>lru_entries = [], lru_generation = 0, lru_capacity = cap\<rparr>"

text \<open>\<open>*g = gen\<close> on the entry of \<open>pack\<close>.\<close>

definition touch :: "pack_id \<Rightarrow> u64 \<Rightarrow> (pack_id \<times> ('f \<times> u64)) list \<Rightarrow> (pack_id \<times> ('f \<times> u64)) list" where
  "touch p gen = map (\<lambda>(k, f, g). if k = p then (k, f, gen) else (k, f, g))"

definition lru_get :: "'f lru \<Rightarrow> pack_id \<Rightarrow> 'f option \<times> 'f lru" where
  "lru_get m p =
     (let gen = saturating_add (lru_generation m) 1;
          m = m\<lparr>lru_generation := gen\<rparr>
      in case map_of (lru_entries m) p of
           None \<Rightarrow> (None, m)
         | Some (f, _) \<Rightarrow> (Some f, m\<lparr>lru_entries := touch p gen (lru_entries m)\<rparr>))"

text \<open>\<open>iter().min_by_key(..)\<close>: the first entry with the smallest generation.\<close>

definition lru_victim :: "(pack_id \<times> ('f \<times> u64)) list \<Rightarrow> pack_id" where
  "lru_victim es = fst (arg_min_list (\<lambda>e. snd (snd e)) es)"

definition lru_insert :: "'f lru \<Rightarrow> pack_id \<Rightarrow> 'f \<Rightarrow> 'f lru" where
  "lru_insert m p f =
     (let gen = saturating_add (lru_generation m) 1 in
      if map_of (lru_entries m) p \<noteq> None
      then m\<lparr>lru_generation := gen, lru_entries := touch p gen (lru_entries m)\<rparr>
      else
        let es = (if length (lru_entries m) \<ge> lru_capacity m \<and> lru_entries m \<noteq> []
                  then AList.delete (lru_victim (lru_entries m)) (lru_entries m)
                  else lru_entries m)
        in m\<lparr>lru_generation := gen, lru_entries := es @ [(p, f, gen)]\<rparr>)"

definition lru_remove :: "'f lru \<Rightarrow> pack_id \<Rightarrow> 'f lru" where
  "lru_remove m p = m\<lparr>lru_entries := AList.delete p (lru_entries m)\<rparr>"

section \<open>The handle cache\<close>

definition cache_new :: "nat \<Rightarrow> 'f lru" where
  "cache_new cap = lru_new (max cap 1)"

definition get_or_open ::
  "(pack_id \<Rightarrow> (pack_error, 'f) outcome) \<Rightarrow> 'f lru \<Rightarrow> pack_id \<Rightarrow> (pack_error, 'f) outcome \<times> 'f lru" where
  "get_or_open open_pack m p =
     (case lru_get m p of
        (Some handle, m) \<Rightarrow> (Ok handle, m)
      | (None, m) \<Rightarrow>
          (case open_pack p of
             Ok file \<Rightarrow> (Ok file, lru_insert m p file)
           | Err e \<Rightarrow> (Err e, m)
           | Panic \<Rightarrow> (Panic, m)))"

definition cache_invalidate :: "'f lru \<Rightarrow> pack_id \<Rightarrow> 'f lru" where
  "cache_invalidate m p = lru_remove m p"

section \<open>Invariant\<close>

definition lru_inv :: "'f lru \<Rightarrow> bool" where
  "lru_inv m \<longleftrightarrow>
     distinct (map fst (lru_entries m)) \<and> 1 \<le> lru_capacity m \<and>
     length (lru_entries m) \<le> lru_capacity m"

lemma map_fst_touch [simp]: "map fst (touch p g es) = map fst es"
  by (auto simp: touch_def)

lemma length_touch [simp]: "length (touch p g es) = length es"
  by (simp add: touch_def)

lemma map_of_touch:
  "map_of (touch p g es) k = (if k = p then map_option (\<lambda>(f, _). (f, g)) (map_of es k) else map_of es k)"
  by (induction es) (auto simp: touch_def)

lemma lru_inv_new: "lru_inv (cache_new cap)"
  by (simp add: cache_new_def lru_new_def lru_inv_def)

lemma lru_inv_get: "lru_inv m \<Longrightarrow> lru_inv (snd (lru_get m p))"
  by (auto simp: lru_get_def lru_inv_def Let_def split: option.splits prod.splits)

lemma length_delete_mem:
  assumes "distinct (map fst es)" "k \<in> fst ` set es"
  shows "Suc (length (AList.delete k es)) = length es"
proof -
  have "length (map fst (AList.delete k es)) = length (removeAll k (map fst es))"
    by (simp only: delete_keys)
  also have "removeAll k (map fst es) = remove1 k (map fst es)"
    using assms(1) by (simp add: distinct_remove1_removeAll)
  finally have "length (AList.delete k es) = length es - 1"
    using assms(2) by (simp add: length_remove1)
  moreover have "es \<noteq> []"
    using assms(2) by auto
  ultimately show ?thesis
    by (simp add: Suc_diff_1)
qed

lemma lru_inv_insert:
  assumes "lru_inv m"
  shows "lru_inv (lru_insert m p f)"
proof -
  let ?es = "lru_entries m" and ?v = "lru_victim (lru_entries m)"
  have "?es \<noteq> [] \<Longrightarrow> ?v \<in> fst ` set ?es"
    by (simp add: lru_victim_def arg_min_list_in)
  then have "length ?es \<ge> lru_capacity m \<Longrightarrow> ?es \<noteq> [] \<Longrightarrow>
      Suc (length (AList.delete ?v ?es)) = length ?es"
    using assms length_delete_mem by (metis lru_inv_def)
  then show ?thesis
    using assms dom_delete_subset[of ?v ?es]
    by (auto simp: lru_insert_def lru_inv_def Let_def distinct_delete map_of_eq_None_iff)
qed

lemma lru_inv_remove: "lru_inv m \<Longrightarrow> lru_inv (lru_remove m p)"
  using length_delete_le[of p "lru_entries m"]
  by (auto simp: lru_remove_def lru_inv_def distinct_delete)

section \<open>The generations are a recency queue\<close>

abbreviation gen_of :: "pack_id \<times> ('f \<times> u64) \<Rightarrow> u64" where
  "gen_of e \<equiv> snd (snd e)"

text \<open>The packs, least recently used first.\<close>

definition recency :: "'f lru \<Rightarrow> pack_id list" where
  "recency m = map fst (sort_key gen_of (lru_entries m))"

text \<open>The counter has not saturated, and every entry carries its own, earlier generation.\<close>

definition gens_ok :: "'f lru \<Rightarrow> bool" where
  "gens_ok m \<longleftrightarrow>
     distinct (map gen_of (lru_entries m)) \<and>
     (\<forall>e \<in> set (lru_entries m). gen_of e \<le> lru_generation m) \<and> lru_generation m \<noteq> - 1"

lemma unat_saturating_inc:
  assumes "w \<noteq> (- 1 :: u64)"
  shows "unat (saturating_add w 1) = unat w + 1"
proof -
  have "unat w \<noteq> unat (- 1 :: u64)"
    using assms by (simp only: word_unat_eq_iff not_False_eq_True)
  then have "unat w \<noteq> 2 ^ 64 - 1"
    by (simp add: unsigned_minus_1_eq_mask mask_eq_exp_minus_1)
  then have "unat w + 1 < 2 ^ 64"
    using unat_less_usize_limit[of w] by (simp add: usize_limit_def)
  then show ?thesis
    by (simp add: saturating_add_def unat_word_ariths)
qed

lemma gen_next:
  assumes "gens_ok m" "e \<in> set (lru_entries m)"
  shows "gen_of e < saturating_add (lru_generation m) 1"
proof -
  have "gen_of e \<le> lru_generation m" "lru_generation m \<noteq> - 1"
    using assms by (auto simp: gens_ok_def)
  then show ?thesis
    by (simp add: word_less_nat_alt word_le_nat_alt unat_saturating_inc)
qed

lemma sort_key_snoc_max:
  assumes "inj_on gen_of (set es)" "\<forall>x \<in> set es. gen_of x < gen_of e"
  shows "sort_key gen_of (es @ [e]) = sort_key gen_of es @ [e]"
proof (rule sort_key_inj_key_eq)
  show "mset (es @ [e]) = mset (sort_key gen_of es @ [e])"
    by simp
  show "inj_on gen_of (set (es @ [e]))"
    using assms by (auto simp: inj_on_def)
  show "sorted (map gen_of (sort_key gen_of es @ [e]))"
    using assms(2) by (auto simp: sorted_append less_imp_le)
qed

lemma touch_Cons [simp]:
  "touch p gen [] = []"
  "touch p gen ((k, f, g) # es) = (if k = p then (k, f, gen) else (k, f, g)) # touch p gen es"
  by (simp_all add: touch_def)

lemma touch_absent: "p \<notin> fst ` set es \<Longrightarrow> touch p gen es = es \<and> filter (\<lambda>e. fst e \<noteq> p) es = es"
  by (induction es) auto

lemma mset_touch:
  assumes "distinct (map fst es)" "map_of es p = Some (f, g)"
  shows "mset (touch p gen es) = mset (filter (\<lambda>e. fst e \<noteq> p) es @ [(p, f, gen)])"
  using assms
proof (induction es)
  case (Cons e es)
  then show ?case
    using touch_absent[of p es gen] by (cases e) (auto split: if_splits simp del: mset_filter)
qed simp

lemma sort_key_filter: "filter P (sort_key f xs) = sort_key f (filter P xs)"
  by (induction xs) (auto simp: filter_insort_triv filter_insort)

text \<open>A hit moves the pack to the end of the queue; a miss in a full cache drops its head.\<close>

lemma sort_key_touch:
  assumes d: "distinct (map fst es)" and p: "map_of es p = Some (f, g)"
    and inj: "inj_on gen_of (set es)" and max: "\<forall>e \<in> set es. gen_of e < gen"
  shows "sort_key gen_of (touch p gen es) = filter (\<lambda>e. fst e \<noteq> p) (sort_key gen_of es) @ [(p, f, gen)]"
proof (rule sort_key_inj_key_eq)
  let ?rest = "filter (\<lambda>e. fst e \<noteq> p) es"
  show "mset (touch p gen es) = mset (filter (\<lambda>e. fst e \<noteq> p) (sort_key gen_of es) @ [(p, f, gen)])"
    using mset_touch[OF d p] by simp
  have "set (touch p gen es) = set (?rest @ [(p, f, gen)])"
    using mset_touch[OF d p] by (metis set_mset_mset)
  moreover have "inj_on gen_of (set (?rest @ [(p, f, gen)]))"
    using inj max by (auto simp: inj_on_def)
  ultimately show "inj_on gen_of (set (touch p gen es))"
    by simp
  show "sorted (map gen_of (filter (\<lambda>e. fst e \<noteq> p) (sort_key gen_of es) @ [(p, f, gen)]))"
    using max by (auto simp: sorted_append sort_key_filter less_imp_le)
qed

lemma recency_filter:
  "map fst (filter (\<lambda>e. fst e \<noteq> p) es) = filter (\<lambda>q. q \<noteq> p) (map fst es)"
  by (induction es) auto

lemma recency_get:
  assumes "lru_inv m" "gens_ok m"
  shows "recency (snd (lru_get m p)) =
      (if p \<in> set (recency m) then filter (\<lambda>q. q \<noteq> p) (recency m) @ [p] else recency m)"
proof (cases "map_of (lru_entries m) p")
  case None
  then have "p \<notin> set (recency m)"
    by (simp add: recency_def map_of_eq_None_iff)
  then show ?thesis
    using None by (simp add: lru_get_def recency_def Let_def)
next
  case (Some fg)
  obtain f g where fg: "fg = (f, g)" by (cases fg)
  let ?gen = "saturating_add (lru_generation m) 1"
  have "sort_key gen_of (touch p ?gen (lru_entries m)) =
      filter (\<lambda>e. fst e \<noteq> p) (sort_key gen_of (lru_entries m)) @ [(p, f, ?gen)]"
    using assms Some gen_next[OF assms(2)]
    by (intro sort_key_touch) (auto simp: fg lru_inv_def gens_ok_def distinct_map)
  moreover have "p \<in> set (recency m)"
    using Some by (auto simp: recency_def dest: map_of_SomeD intro!: image_eqI[where x = "(p, fg)"])
  ultimately show ?thesis
    using Some by (simp add: lru_get_def recency_def Let_def fg recency_filter)
qed

lemma victim_head:
  assumes "es \<noteq> []" "inj_on gen_of (set es)"
  shows "lru_victim es = hd (map fst (sort_key gen_of es))"
proof -
  let ?v = "arg_min_list gen_of es"
  have v: "?v \<in> set es" "\<forall>e \<in> set es. gen_of ?v \<le> gen_of e"
    using arg_min_list_in[OF assms(1)] f_arg_min_list_f[OF assms(1), of gen_of] by auto
  have ne: "sort_key gen_of es \<noteq> []"
    using assms(1) by (metis length_0_conv length_sort)
  then have "gen_of (hd (sort_key gen_of es)) \<le> gen_of ?v"
  proof -
    have "?v \<in> set (sort_key gen_of es)"
      using v(1) by simp
    then show ?thesis
      using ne sorted_sort_key[of gen_of es] by (cases "sort_key gen_of es") auto
  qed
  moreover have mem: "hd (sort_key gen_of es) \<in> set es"
    using hd_in_set[OF ne] by simp
  ultimately have "gen_of (hd (sort_key gen_of es)) = gen_of ?v"
    using v(2) by (intro order_antisym) auto
  then have "hd (sort_key gen_of es) = ?v"
    using inj_onD[OF assms(2) _ mem v(1)] by simp
  then show ?thesis
    using ne by (simp add: lru_victim_def hd_map)
qed

lemma delete_filter: "AList.delete k es = filter (\<lambda>e. fst e \<noteq> k) es"
  by (auto simp: AList.delete_eq intro!: filter_cong)

lemma recency_insert:
  assumes "lru_inv m" "gens_ok m" "p \<notin> set (recency m)"
  shows "recency (lru_insert m p f) =
      (if length (recency m) = lru_capacity m then tl (recency m) else recency m) @ [p]"
proof -
  let ?es = "lru_entries m" and ?gen = "saturating_add (lru_generation m) 1"
  have inj: "inj_on gen_of (set ?es)" and d: "distinct (map fst ?es)"
    and cap: "length ?es \<ge> lru_capacity m \<longleftrightarrow> length ?es = lru_capacity m" "lru_capacity m \<ge> 1"
    using assms(1,2) by (auto simp: gens_ok_def lru_inv_def distinct_map)
  have p: "map_of ?es p = None"
    using assms(3) by (simp add: recency_def map_of_eq_None_iff)
  have keep: "sort_key gen_of (es @ [(p, f, ?gen)]) = sort_key gen_of es @ [(p, f, ?gen)]"
    if "set es \<subseteq> set ?es" for es
    using that inj gen_next[OF assms(2)] by (intro sort_key_snoc_max) (auto intro: inj_on_subset)
  show ?thesis
  proof (cases "length ?es = lru_capacity m")
    case True
    then have ne: "?es \<noteq> []"
      using cap(2) by auto
    have "map fst (sort_key gen_of (AList.delete (lru_victim ?es) ?es)) =
        filter (\<lambda>q. q \<noteq> hd (recency m)) (recency m)"
      by (simp add: delete_filter sort_key_filter[symmetric] recency_filter victim_head[OF ne inj]
          recency_def)
    also have "\<dots> = tl (recency m)"
    proof -
      have "length (recency m) = length ?es"
        by (simp add: recency_def)
      then have "recency m \<noteq> []"
        using ne by force
      moreover have "distinct (recency m)"
        using d by (simp add: recency_def distinct_map)
      ultimately show ?thesis
        by (cases "recency m") (auto simp: filter_id_conv)
    qed
    moreover have "set (AList.delete (lru_victim ?es) ?es) \<subseteq> set ?es"
      by (auto simp: delete_filter)
    ultimately show ?thesis
      using True ne p cap by (simp add: lru_insert_def Let_def recency_def keep)
  next
    case False
    then show ?thesis
      using p cap keep[of ?es] by (simp add: lru_insert_def Let_def recency_def)
  qed
qed

section \<open>Handles stay coherent\<close>

text \<open>Every cached handle is the one that opening the pack gives.\<close>

definition cache_coherent :: "(pack_id \<Rightarrow> (pack_error, 'f) outcome) \<Rightarrow> 'f lru \<Rightarrow> bool" where
  "cache_coherent open_pack m \<longleftrightarrow>
     (\<forall>p f g. map_of (lru_entries m) p = Some (f, g) \<longrightarrow> open_pack p = Ok f)"

lemma cache_coherent_new [simp]: "cache_coherent op (cache_new cap)"
  by (simp add: cache_coherent_def cache_new_def lru_new_def)

lemma cache_coherent_touch:
  "cache_coherent op m \<Longrightarrow> cache_coherent op (m\<lparr>lru_generation := g, lru_entries := touch p g' (lru_entries m)\<rparr>)"
  "cache_coherent op m \<Longrightarrow> cache_coherent op (m\<lparr>lru_generation := g\<rparr>)"
  by (auto simp: cache_coherent_def map_of_touch split: if_splits)

lemma cache_coherent_get:
  assumes "cache_coherent op m"
  shows "cache_coherent op (snd (lru_get m p))"
    and "fst (lru_get m p) = Some f \<Longrightarrow> op p = Ok f"
  using assms cache_coherent_touch[OF assms]
  by (auto simp: lru_get_def Let_def cache_coherent_def split: option.splits prod.splits)

lemma cache_coherent_insert:
  assumes "cache_coherent op m" "op p = Ok f"
  shows "cache_coherent op (lru_insert m p f)"
proof -
  have "cache_coherent op (m\<lparr>lru_generation := g, lru_entries := es @ [(p, f, g)]\<rparr>)"
    if "es = lru_entries m \<or> (\<exists>k. es = AList.delete k (lru_entries m))" for es g
    using assms that by (auto simp: cache_coherent_def map_add_Some_iff delete_conv' split: if_splits)
  then show ?thesis
    using assms cache_coherent_touch(1)[OF assms(1)] unfolding lru_insert_def Let_def by auto
qed

lemma get_or_open_coherent:
  assumes "cache_coherent op m"
  shows "fst (get_or_open op m p) = op p" and "cache_coherent op (snd (get_or_open op m p))"
  using cache_coherent_get[OF assms, of p]
  by (auto simp: get_or_open_def cache_coherent_insert split: prod.splits option.splits outcome.splits)

lemma cache_coherent_invalidate:
  assumes "cache_coherent op m" "\<And>q. q \<noteq> p \<Longrightarrow> op' q = op q"
  shows "cache_coherent op' (cache_invalidate m p)"
  using assms by (auto simp: cache_coherent_def cache_invalidate_def lru_remove_def delete_conv')

section \<open>Properties\<close>



end
