(* ===== verification/Page_Store.thy ===== *)
theory Page_Store
  imports Page_Index Read_Cache "HOL-Library.Product_Lexorder"
begin

text \<open>
  The page store (\<^verbatim>\<open>crates/snapstore-pagestore/src/ingest.rs\<close>): content-addressed pages in
  one active pack and many sealed ones.  The directory is two finite maps, the \<open>.spk\<close> files
  of the packs other than the active one and the \<open>.idx\<close> sidecars; the active pack is the
  file of its writer.  Every method is one operation on the state (the source holds the
  \<open>active\<close> lock across its writes); the two phases of \<open>get_batch\<close>, between which the source
  holds no lock, are separate definitions.  BLAKE3, CRC-32, the clock (\<open>now\<close>) and the
  iteration order of the deduplication map (\<open>order\<close>) are arguments.
\<close>

section \<open>State\<close>

datatype store_error = StIo io_kind | StPack pack_error | StIndex index_error

record ingest_outcome =
  io_hash :: page_hash
  io_loc :: page_loc
  io_newly_written :: bool

record page_store =
  ps_files :: "(pack_id \<times> bytes) list"
  ps_sidecars :: "(pack_id \<times> bytes) list"
  ps_index :: sharded_index
  ps_writer :: pack_writer
  ps_pack_id :: pack_id
  ps_dirty :: "pack_id list"
  ps_new_files :: bool
  ps_next_pack_id :: pack_id
  ps_max_pack_bytes :: nat
  ps_cache :: "bytes lru"

type_synonym 'a store_op = "(page_store, store_error, 'a) op"

text \<open>What the path of a pack holds.\<close>

definition file_at :: "page_store \<Rightarrow> pack_id \<Rightarrow> bytes option" where
  "file_at st p = (if p = ps_pack_id st then Some (pw_file (ps_writer st)) else map_of (ps_files st) p)"

primrec next_id :: "pack_id \<Rightarrow> pack_id" where
  "next_id (PackId n) = PackId (n + 1)"

definition loc_at :: "pack_id \<Rightarrow> nat \<Rightarrow> page_loc" where
  "loc_at p off = \<lparr>loc_pack = p, loc_offset = of_nat off\<rparr>"

section \<open>Reading\<close>

definition read_from_cached_handle ::
  "(bytes \<Rightarrow> hash32) \<Rightarrow> page_hash \<Rightarrow> page_loc \<Rightarrow> bytes store_op" where
  "read_from_cached_handle blake3 h loc st =
     (let (r, cache) = get_or_open (\<lambda>p. open_sealed_fast (file_at st p) p) (ps_cache st) (loc_pack loc);
          st = st\<lparr>ps_cache := cache\<rparr>
      in case r of
           Err (PkIo io) \<Rightarrow> (Err (StIo io), st)
         | Err e \<Rightarrow> (Err (StPack e), st)
         | Panic \<Rightarrow> (Panic, st)
         | Ok handle \<Rightarrow>
             (map_err StPack (read_at_from_file blake3 handle (unat (loc_offset loc)) h), st))"

definition read_sealed_with_retry ::
  "(bytes \<Rightarrow> hash32) \<Rightarrow> page_hash \<Rightarrow> page_loc \<Rightarrow> bytes option store_op" where
  "read_sealed_with_retry blake3 h loc st =
     (case read_from_cached_handle blake3 h loc st of
        (Ok data, st) \<Rightarrow> (Ok (Some data), st)
      | (Panic, st) \<Rightarrow> (Panic, st)
      | (Err e, st) \<Rightarrow>
          if e = StPack (PkIo NotFound) \<or> e = StIo NotFound then
            let st = st\<lparr>ps_cache := cache_invalidate (ps_cache st) (loc_pack loc)\<rparr> in
            (case index_get (ps_index st) h of
               None \<Rightarrow> (Ok None, st)
             | Some new_loc \<Rightarrow>
                 if new_loc = loc then (Err (StIo NotFound), st)
                 else sbind (read_from_cached_handle blake3 h new_loc) (\<lambda>data. sreturn (Some data)) st)
          else (Err e, st))"

type_synonym lookup = "nat \<times> page_hash \<times> page_loc"

definition lk_loc :: "lookup \<Rightarrow> page_loc" where
  "lk_loc l = snd (snd l)"

text \<open>Phase one of \<open>get_batch\<close>: hashes to locations.\<close>

definition resolve_lookups :: "page_store \<Rightarrow> page_hash list \<Rightarrow> lookup list" where
  "resolve_lookups st hashes =
     concat (map (\<lambda>(i, h). case index_get (ps_index st) h of Some loc \<Rightarrow> [(i, h, loc)] | None \<Rightarrow> [])
       (enumerate 0 hashes))"

text \<open>A run of lookups in one pack, through its handle.\<close>

fun read_handle_group ::
  "(bytes \<Rightarrow> hash32) \<Rightarrow> bytes \<Rightarrow> lookup list \<Rightarrow> bytes option list \<Rightarrow> bytes option list store_op" where
  "read_handle_group blake3 handle [] results st = (Ok results, st)"
| "read_handle_group blake3 handle ((i, h, loc) # ls) results st =
     (case read_at_from_file blake3 handle (unat (loc_offset loc)) h of
        Ok data \<Rightarrow> read_handle_group blake3 handle ls (results[i := Some data]) st
      | Err e \<Rightarrow>
          if e = PkIo NotFound
          then sbind (read_sealed_with_retry blake3 h loc)
                 (\<lambda>d. read_handle_group blake3 handle ls (results[i := d])) st
          else (Err (StPack e), st)
      | Panic \<Rightarrow> (Panic, st))"

fun read_retry_group ::
  "(bytes \<Rightarrow> hash32) \<Rightarrow> lookup list \<Rightarrow> bytes option list \<Rightarrow> bytes option list store_op" where
  "read_retry_group blake3 [] results st = (Ok results, st)"
| "read_retry_group blake3 ((i, h, loc) # ls) results st =
     sbind (read_sealed_with_retry blake3 h loc) (\<lambda>d. read_retry_group blake3 ls (results[i := d])) st"

definition read_group ::
  "(bytes \<Rightarrow> hash32) \<Rightarrow> pack_id \<Rightarrow> lookup list \<Rightarrow> bytes option list \<Rightarrow> bytes option list store_op" where
  "read_group blake3 p grp results st =
     (let (r, cache) = get_or_open (\<lambda>p. open_sealed_fast (file_at st p) p) (ps_cache st) p;
          st = st\<lparr>ps_cache := cache\<rparr>
      in case r of
           Ok handle \<Rightarrow> read_handle_group blake3 handle grp results st
         | Err _ \<Rightarrow> read_retry_group blake3 grp results st
         | Panic \<Rightarrow> (Panic, st))"

function read_groups ::
  "(bytes \<Rightarrow> hash32) \<Rightarrow> lookup list \<Rightarrow> bytes option list \<Rightarrow> bytes option list store_op" where
  "read_groups blake3 [] results st = (Ok results, st)"
| "read_groups blake3 (l # ls) results st =
     (let p = loc_pack (lk_loc l) in
      case read_group blake3 p (l # takeWhile (\<lambda>m. loc_pack (lk_loc m) = p) ls) results st of
        (Ok results, st) \<Rightarrow> read_groups blake3 (dropWhile (\<lambda>m. loc_pack (lk_loc m) = p) ls) results st
      | (Err e, st) \<Rightarrow> (Err e, st)
      | (Panic, st) \<Rightarrow> (Panic, st))"
  by pat_completeness auto
termination
  by (relation "measure (\<lambda>(_, ls, _, _). length ls)") (auto simp: length_dropWhile_le le_imp_less_Suc)

text \<open>The reads of the active pack: two reads of the writer's file, with the same checks as
  \<open>read_at_from_file\<close>.\<close>

definition read_active_record ::
  "(bytes \<Rightarrow> hash32) \<Rightarrow> bytes \<Rightarrow> page_hash \<Rightarrow> nat \<Rightarrow> (store_error, bytes) outcome" where
  "read_active_record blake3 file h off =
     obind (read_exact_at (StPack (PkTruncatedRecord off)) file off RECORD_HEADER_SIZE) (\<lambda>rec_header.
     obind (slice 0 32 rec_header) (\<lambda>stored_hash_bytes.
     obind (read_le 4 33 rec_header) (\<lambda>len.
     if unat (len :: u32) \<noteq> PAGE_SIZE then Err (StPack (PkTruncatedRecord off))
     else
       obind (read_exact_at (StPack (PkTruncatedRecord off)) file (off + RECORD_HEADER_SIZE) (unat len))
         (\<lambda>payload.
       if stored_hash_bytes \<noteq> page_hash_as_bytes h then Err (StPack (PkHashMismatch off))
       else if to_le_bytes 32 (blake3 payload) \<noteq> stored_hash_bytes then Err (StPack (PkHashMismatch off))
       else Ok payload))))"

fun read_active ::
  "(bytes \<Rightarrow> hash32) \<Rightarrow> bytes \<Rightarrow> lookup list \<Rightarrow> bytes option list \<Rightarrow>
     (store_error, bytes option list) outcome" where
  "read_active blake3 file [] results = Ok results"
| "read_active blake3 file ((i, h, loc) # ls) results =
     obind (read_active_record blake3 file h (unat (loc_offset loc))) (\<lambda>payload.
     read_active blake3 file ls (results[i := Some payload]))"

text \<open>Phase two: sealed packs group by group, then the active pack (flushed first), then the
  lookups whose pack has been sealed in between.\<close>

definition read_lookups ::
  "(bytes \<Rightarrow> hash32) \<Rightarrow> nat \<Rightarrow> pack_id \<Rightarrow> lookup list \<Rightarrow> bytes option list store_op" where
  "read_lookups blake3 n active_pack_id lookups =
     (let active_lookups = filter (\<lambda>l. loc_pack (lk_loc l) = active_pack_id) lookups;
          sealed_lookups =
            sort_key (\<lambda>l. (pack_num (loc_pack (lk_loc l)), loc_offset (lk_loc l)))
              (filter (\<lambda>l. loc_pack (lk_loc l) \<noteq> active_pack_id) lookups)
      in sbind (read_groups blake3 sealed_lookups (replicate n None)) (\<lambda>results st.
         if active_lookups = [] then (Ok results, st)
         else
           let current_active_id = ps_pack_id st;
               sorted = sort_key (\<lambda>l. loc_offset (lk_loc l)) active_lookups;
               rerouted = filter (\<lambda>l. loc_pack (lk_loc l) \<noteq> current_active_id) sorted;
               still_active = filter (\<lambda>l. loc_pack (lk_loc l) = current_active_id) sorted;
               st = (if still_active \<noteq> [] then st\<lparr>ps_writer := flush_buf (ps_writer st)\<rparr> else st)
           in case read_active blake3 (pw_file (ps_writer st)) still_active results of
                Ok results \<Rightarrow> read_retry_group blake3 rerouted results st
              | Err e \<Rightarrow> (Err e, st)
              | Panic \<Rightarrow> (Panic, st)))"

definition get_batch :: "(bytes \<Rightarrow> hash32) \<Rightarrow> page_hash list \<Rightarrow> bytes option list store_op" where
  "get_batch blake3 hashes st =
     (if hashes = [] then (Ok [], st)
      else
        let lookups = resolve_lookups st hashes in
        if lookups = [] then (Ok (replicate (length hashes) None), st)
        else read_lookups blake3 (length hashes) (ps_pack_id st) lookups st)"

definition get_page :: "(bytes \<Rightarrow> hash32) \<Rightarrow> page_hash \<Rightarrow> bytes option store_op" where
  "get_page blake3 h = sbind (get_batch blake3 [h]) (\<lambda>results. slift (index results 0))"

definition contains_batch :: "page_store \<Rightarrow> page_hash list \<Rightarrow> bool list" where
  "contains_batch st hashes = map (\<lambda>h. index_get (ps_index st) h \<noteq> None) hashes"

definition unique_pages :: "page_store \<Rightarrow> nat" where
  "unique_pages st = index_len (ps_index st)"

section \<open>Rotation\<close>

definition rotate_locked ::
  "(bytes \<Rightarrow> hash32) \<Rightarrow> (bytes \<Rightarrow> u32) \<Rightarrow> u64 \<Rightarrow> pack_id store_op" where
  "rotate_locked blake3 crc32 now st =
     (let old_pack_id = ps_pack_id st;
          st = st\<lparr>ps_dirty := List.insert old_pack_id (ps_dirty st)\<rparr>
      in case seal_no_sync blake3 (ps_writer st) of
           Err e \<Rightarrow> (Err (StPack e), st)
         | Panic \<Rightarrow> (Panic, st)
         | Ok sealed_writer \<Rightarrow>
             let st = st\<lparr>ps_writer := sealed_writer,
                        ps_sidecars := AList.update old_pack_id
                          (write_sidecar crc32 (ps_index st) old_pack_id) (ps_sidecars st)\<rparr>;
                 new_id = ps_next_pack_id st;
                 st = st\<lparr>ps_next_pack_id := next_id new_id\<rparr>
             in case create_with_max_bytes (file_at st new_id) new_id now (ps_max_pack_bytes st) of
                  Err e \<Rightarrow> (Err (StPack e), st)
                | Panic \<Rightarrow> (Panic, st)
                | Ok writer \<Rightarrow>
                    (Ok new_id,
                     st\<lparr>ps_files := AList.update old_pack_id (pw_file sealed_writer) (ps_files st),
                        ps_writer := writer, ps_pack_id := new_id, ps_new_files := True\<rparr>))"

definition rotate_active ::
  "(bytes \<Rightarrow> hash32) \<Rightarrow> (bytes \<Rightarrow> u32) \<Rightarrow> u64 \<Rightarrow> pack_id store_op" where
  "rotate_active blake3 crc32 now st =
     (if pw_record_count (ps_writer st) = 0 \<and> next_id (ps_pack_id st) = ps_next_pack_id st
      then (Ok (ps_pack_id st), st)
      else rotate_locked blake3 crc32 now st)"

section \<open>Ingest\<close>

text \<open>The map from each distinct hash of the batch to its first position.\<close>

fun batch_dedup :: "nat \<Rightarrow> page_hash list \<Rightarrow> (page_hash \<times> nat) list \<Rightarrow> (page_hash \<times> nat) list" where
  "batch_dedup i [] acc = acc"
| "batch_dedup i (h # hs) acc =
     batch_dedup (Suc i) hs (case map_of acc h of None \<Rightarrow> acc @ [(h, i)] | Some _ \<Rightarrow> acc)"

abbreviation outcome_of :: "page_hash \<Rightarrow> page_loc \<Rightarrow> bool \<Rightarrow> ingest_outcome" where
  "outcome_of h loc fresh \<equiv> \<lparr>io_hash = h, io_loc = loc, io_newly_written = fresh\<rparr>"

text \<open>Step 3: probe the index.\<close>

fun probe_index ::
  "sharded_index \<Rightarrow> (page_hash \<times> nat) list \<Rightarrow> (page_hash \<times> nat) list \<Rightarrow> ingest_outcome option list \<Rightarrow>
     (page_hash \<times> nat) list \<times> ingest_outcome option list" where
  "probe_index ix [] to_write outcomes = (to_write, outcomes)"
| "probe_index ix ((h, first_idx) # es) to_write outcomes =
     (case index_get ix h of
        Some loc \<Rightarrow> probe_index ix es to_write (outcomes[first_idx := Some (outcome_of h loc False)])
      | None \<Rightarrow> probe_index ix es (to_write @ [(h, first_idx)]) outcomes)"

text \<open>Rotate the pack if the next record would exceed the cap.\<close>

definition ensure_room :: "(bytes \<Rightarrow> hash32) \<Rightarrow> (bytes \<Rightarrow> u32) \<Rightarrow> u64 \<Rightarrow> unit store_op" where
  "ensure_room blake3 crc32 now st =
     (if would_exceed_cap (ps_writer st)
      then sbind (rotate_locked blake3 crc32 now) (\<lambda>_. sreturn ()) st
      else (Ok (), st))"

text \<open>Step 4: append the misses to the active pack, rotating it when it is full.\<close>

fun write_misses ::
  "(bytes \<Rightarrow> hash32) \<Rightarrow> (bytes \<Rightarrow> u32) \<Rightarrow> u64 \<Rightarrow> bytes list \<Rightarrow> (page_hash \<times> nat) list \<Rightarrow>
     ingest_outcome option list \<Rightarrow> ingest_outcome option list store_op" where
  "write_misses blake3 crc32 now pages [] outcomes st = (Ok outcomes, st)"
| "write_misses blake3 crc32 now pages ((h, page_idx) # tw) outcomes st =
     (case index_get (ps_index st) h of
        Some loc \<Rightarrow>
          write_misses blake3 crc32 now pages tw
            (outcomes[page_idx := Some (outcome_of h loc False)]) st
      | None \<Rightarrow>
          sbind (ensure_room blake3 crc32 now) (\<lambda>_ st.
          case append_record (ps_writer st) h (pages ! page_idx) of
            Err e \<Rightarrow> (Err (StPack e), st)
          | Panic \<Rightarrow> (Panic, st)
          | Ok (offset, writer) \<Rightarrow>
              let current_pack_id = ps_pack_id st;
                  loc = loc_at current_pack_id offset;
                  st = st\<lparr>ps_writer := writer,
                         ps_dirty := List.insert current_pack_id (ps_dirty st),
                         ps_index := index_insert (ps_index st) h loc\<rparr>
              in write_misses blake3 crc32 now pages tw
                   (outcomes[page_idx := Some (outcome_of h loc True)]) st) st)"

text \<open>Step 5: the other occurrences; \<open>expect\<close> panics on a hash that is not indexed.\<close>

fun fill_outcomes ::
  "sharded_index \<Rightarrow> page_hash list \<Rightarrow> ingest_outcome option list \<Rightarrow> (store_error, ingest_outcome list) outcome" where
  "fill_outcomes ix (h # hs) (o1 # os) =
     obind (case o1 of
              Some out \<Rightarrow> Ok out
            | None \<Rightarrow> obind (unwrap (index_get ix h)) (\<lambda>loc. Ok (outcome_of h loc False))) (\<lambda>out.
     obind (fill_outcomes ix hs os) (\<lambda>outs. Ok (out # outs)))"
| "fill_outcomes ix _ _ = Ok []"

definition ingest ::
  "(bytes \<Rightarrow> hash32) \<Rightarrow> (bytes \<Rightarrow> u32) \<Rightarrow> ((page_hash \<times> nat) list \<Rightarrow> (page_hash \<times> nat) list) \<Rightarrow> u64 \<Rightarrow>
     bytes list \<Rightarrow> ingest_outcome list store_op" where
  "ingest blake3 crc32 order now pages st =
     (if pages = [] then (Ok [], st)
      else
        let hashes = map (\<lambda>p. PageHash (blake3 p)) pages;
            (to_write, outcomes) =
              probe_index (ps_index st) (order (batch_dedup 0 hashes [])) [] (replicate (length pages) None)
        in sbind (write_misses blake3 crc32 now pages to_write outcomes)
             (\<lambda>outcomes st. (fill_outcomes (ps_index st) hashes outcomes, st)) st)"

section \<open>Durability\<close>

text \<open>\<open>sync\<close> flushes the writer and calls \<open>fdatasync\<close> on every dirty pack; opening a pack
  that is not there is an error.  The result lists the packs that were synced; the dirty set is
  taken before the loop.\<close>

definition sync :: "pack_id list store_op" where
  "sync st =
     (let st = st\<lparr>ps_writer := flush_buf (ps_writer st)\<rparr>;
          dirty = List.insert (ps_pack_id st) (ps_dirty st);
          st = st\<lparr>ps_dirty := []\<rparr>
      in if list_all (\<lambda>p. file_at st p \<noteq> None) dirty
         then (Ok dirty, st\<lparr>ps_new_files := False\<rparr>)
         else (Err (StIo NotFound), st))"

section \<open>Surfaces for the collector\<close>

definition discover_packs :: "page_store \<Rightarrow> pack_id list" where
  "discover_packs st = sort (ps_pack_id st # map fst (ps_files st))"

definition sealed_pack_ids :: "page_store \<Rightarrow> pack_id list" where
  "sealed_pack_ids st = filter (\<lambda>p. p \<noteq> ps_pack_id st) (discover_packs st)"

definition scan_pack :: "page_store \<Rightarrow> pack_id \<Rightarrow> (store_error, (nat \<times> page_hash) list) outcome" where
  "scan_pack st p =
     map_err StPack (obind (open_sealed (file_at st p) p) pack_scan)"

definition read_record :: "(bytes \<Rightarrow> hash32) \<Rightarrow> pack_id \<Rightarrow> nat \<Rightarrow> page_hash \<Rightarrow> bytes store_op" where
  "read_record blake3 p off expected = read_from_cached_handle blake3 expected (loc_at p off)"

record gc_pack_writer =
  gw_writer :: pack_writer
  gw_pack_id :: pack_id
  gw_entries :: "(page_hash \<times> nat) list"

definition create_gc_pack :: "u64 \<Rightarrow> gc_pack_writer store_op" where
  "create_gc_pack now st =
     (let id = ps_next_pack_id st;
          st = st\<lparr>ps_next_pack_id := next_id id\<rparr>
      in case create_with_max_bytes (file_at st id) id now (ps_max_pack_bytes st) of
           Err e \<Rightarrow> (Err (StPack e), st)
         | Panic \<Rightarrow> (Panic, st)
         | Ok writer \<Rightarrow>
             (Ok \<lparr>gw_writer = writer, gw_pack_id = id, gw_entries = []\<rparr>,
              st\<lparr>ps_files := AList.update id (pw_file writer) (ps_files st)\<rparr>))"

definition gc_append ::
  "gc_pack_writer \<Rightarrow> page_hash \<Rightarrow> bytes \<Rightarrow> (store_error, nat \<times> gc_pack_writer) outcome" where
  "gc_append g h payload =
     obind (map_err StPack (append_record (gw_writer g) h payload)) (\<lambda>(offset, w).
     Ok (offset, g\<lparr>gw_writer := w, gw_entries := gw_entries g @ [(h, offset)]\<rparr>))"

text \<open>\<open>seal_and_publish\<close>: the sealed file and a sidecar made from the writer's own record
  list.\<close>

definition seal_and_publish ::
  "(bytes \<Rightarrow> hash32) \<Rightarrow> (bytes \<Rightarrow> u32) \<Rightarrow> gc_pack_writer \<Rightarrow> (pack_id \<times> (page_hash \<times> nat) list) store_op" where
  "seal_and_publish blake3 crc32 g st =
     (case seal blake3 (gw_writer g) of
        Err e \<Rightarrow> (Err (StPack e), st)
      | Panic \<Rightarrow> (Panic, st)
      | Ok (_, w) \<Rightarrow>
          (Ok (gw_pack_id g, gw_entries g),
           st\<lparr>ps_files := AList.update (gw_pack_id g) (pw_file w) (ps_files st),
              ps_sidecars := AList.update (gw_pack_id g)
                (write_sidecar_entries crc32
                  (map (\<lambda>(h, off). (h, loc_at (gw_pack_id g) off)) (gw_entries g)))
                (ps_sidecars st)\<rparr>))"

definition invalidate_pack_handle :: "pack_id \<Rightarrow> page_store \<Rightarrow> page_store" where
  "invalidate_pack_handle p st = st\<lparr>ps_cache := cache_invalidate (ps_cache st) p\<rparr>"

definition pack_entries :: "page_store \<Rightarrow> pack_id \<Rightarrow> (page_hash \<times> page_loc) list" where
  "pack_entries st p = entries_for_pack (ps_index st) p"

definition store_repoint :: "page_hash \<Rightarrow> pack_id \<Rightarrow> page_loc \<Rightarrow> page_store \<Rightarrow> page_store \<times> bool" where
  "store_repoint h expected_pack new_loc st =
     (let (ix, hit) = repoint_if_in_pack (ps_index st) h expected_pack new_loc
      in (st\<lparr>ps_index := ix\<rparr>, hit))"

definition store_remove :: "page_hash \<Rightarrow> pack_id \<Rightarrow> page_store \<Rightarrow> page_store \<times> bool" where
  "store_remove h expected_pack st =
     (let (ix, hit) = remove_if_in_pack (ps_index st) h expected_pack
      in (st\<lparr>ps_index := ix\<rparr>, hit))"

text \<open>\<open>delete_pack\<close>; removing an absent file is success.\<close>

definition delete_pack :: "pack_id \<Rightarrow> page_store \<Rightarrow> page_store" where
  "delete_pack p st =
     st\<lparr>ps_dirty := removeAll p (ps_dirty st),
        ps_sidecars := AList.delete p (ps_sidecars st),
        ps_files := AList.delete p (ps_files st)\<rparr>"

section \<open>Invariant\<close>

text \<open>The bytes of a pack including what its writer still buffers.\<close>

definition logical_file :: "page_store \<Rightarrow> pack_id \<Rightarrow> bytes option" where
  "logical_file st p =
     (if p = ps_pack_id st then Some (pw_file (ps_writer st) @ pw_write_buf (ps_writer st))
      else map_of (ps_files st) p)"

text \<open>A page with the hash \<open>h\<close> can be read at offset \<open>off\<close> of the contents \<open>c\<close>.\<close>

definition page_in :: "(bytes \<Rightarrow> hash32) \<Rightarrow> bytes \<Rightarrow> nat \<Rightarrow> page_hash \<Rightarrow> bytes \<Rightarrow> bool" where
  "page_in blake3 c off h p \<longleftrightarrow> read_at_from_file blake3 c off h = Ok p"

definition page_at :: "(bytes \<Rightarrow> hash32) \<Rightarrow> page_store \<Rightarrow> page_hash \<Rightarrow> page_loc \<Rightarrow> bool" where
  "page_at blake3 st h loc \<longleftrightarrow>
     (\<exists>c p. logical_file st (loc_pack loc) = Some c \<and> page_in blake3 c (unat (loc_offset loc)) h p)"

definition active_ok :: "(bytes \<Rightarrow> hash32) \<Rightarrow> page_store \<Rightarrow> bool" where
  "active_ok blake3 st \<longleftrightarrow>
     (\<exists>hdr ps. pack_log (ps_writer st) hdr (raw_recs ps) \<and> list_all (page_ok blake3) ps) \<and>
     pw_max_bytes (ps_writer st) < usize_limit"

definition magic_ok :: "bytes \<Rightarrow> bool" where
  "magic_ok c \<longleftrightarrow> take 4 c = PACK_MAGIC"

definition files_ok :: "page_store \<Rightarrow> bool" where
  "files_ok st \<longleftrightarrow>
     distinct (map fst (ps_files st)) \<and> (\<forall>(p, c) \<in> set (ps_files st). magic_ok c) \<and>
     ps_pack_id st \<notin> fst ` set (ps_files st) \<and>
     (\<forall>p \<in> insert (ps_pack_id st) (fst ` set (ps_files st)). p < ps_next_pack_id st)"

text \<open>Only files of packs that are no longer written are cached.\<close>

definition cache_ok :: "page_store \<Rightarrow> bool" where
  "cache_ok st \<longleftrightarrow>
     (\<forall>p f g. map_of (lru_entries (ps_cache st)) p = Some (f, g) \<longrightarrow> map_of (ps_files st) p = Some f)"

definition store_inv :: "(bytes \<Rightarrow> hash32) \<Rightarrow> page_store \<Rightarrow> bool" where
  "store_inv blake3 st \<longleftrightarrow>
     index_inv (ps_index st) \<and> active_ok blake3 st \<and> files_ok st \<and> cache_ok st \<and>
     (\<forall>h loc. index_get (ps_index st) h = Some loc \<longrightarrow> page_at blake3 st h loc)"

lemma page_in_hash: "page_in blake3 c off h p \<Longrightarrow> h = PageHash (blake3 p) \<and> length p = PAGE_SIZE"
  by (simp add: page_in_def read_at_from_file_Ok)

lemma page_in_append: "page_in blake3 c off h p \<Longrightarrow> page_in blake3 (c @ d) off h p"
  by (auto simp: page_in_def read_at_from_file_Ok)

lemma page_in_unique: "page_in blake3 c off h p \<Longrightarrow> page_in blake3 c off h q \<Longrightarrow> p = q"
  by (simp add: page_in_def)

lemma PACK_MAGIC_length [simp]: "length PACK_MAGIC = 4"
  by (simp add: PACK_MAGIC_def)

lemma pack_log_magic:
  assumes "pack_log w hdr rs"
  shows "magic_ok (pw_file w)"
proof -
  have "take 4 (pw_file w @ pw_write_buf w) = take 4 (hdr @ enc_all rs)"
    using assms by (simp add: pack_log_def)
  then show ?thesis
    using assms by (simp add: pack_log_def pack_header_ok_def magic_ok_def PACK_HEADER_SIZE_def)
qed

lemma magic_ok_open: "magic_ok c \<Longrightarrow> open_sealed_fast (Some c) p = Ok c"
  by (auto simp: magic_ok_def open_sealed_fast_def read_exact_at_def dest: arg_cong[where f = length])

end
