(* ===== verification/Page_Read.thy ===== *)
theory Page_Read
  imports Page_Store
begin

text \<open>
  Reading from the page store under its invariant: the cached handles, the groups of one
  pack, the active pack, and \<open>get_batch\<close> as a whole; then reads that race with the
  collector.
\<close>

section \<open>Reading under the invariant\<close>

lemma get_or_open_file:
  assumes "cache_ok st" "files_ok st" "map_of (ps_files st) p = Some c"
  defines "r \<equiv> get_or_open (\<lambda>p. open_sealed_fast (file_at st p) p) (ps_cache st) p"
  shows "fst r = Ok c" and "cache_ok (st\<lparr>ps_cache := snd r\<rparr>)"
proof -
  let ?op = "\<lambda>p. open_sealed_fast (file_at st p) p"
  have op: "?op q = Ok f" if "map_of (ps_files st) q = Some f" for q f
  proof -
    have "(q, f) \<in> set (ps_files st)"
      using that by (rule map_of_SomeD)
    then show ?thesis
      using assms(2) that by (force simp: files_ok_def file_at_def intro!: magic_ok_open)
  qed
  then have coh: "cache_coherent ?op (ps_cache st)"
    using assms(1) by (auto simp: cache_coherent_def cache_ok_def)
  show "fst r = Ok c"
    using get_or_open_coherent(1)[OF coh, of p] op[OF assms(3)] by (simp add: r_def)
  show "cache_ok (st\<lparr>ps_cache := snd r\<rparr>)"
    using assms(1,3) op[OF assms(3)]
    by (auto simp: r_def cache_ok_def get_or_open_def lru_get_def lru_insert_def Let_def map_of_touch
        map_add_Some_iff delete_conv' split: prod.splits option.splits if_splits)
qed

text \<open>The page a lookup stands for, and the result vector with the answers of some lookups.\<close>

definition page_of :: "(bytes \<Rightarrow> hash32) \<Rightarrow> page_store \<Rightarrow> lookup \<Rightarrow> bytes" where
  "page_of blake3 st l =
     (case logical_file st (loc_pack (lk_loc l)) of
        None \<Rightarrow> []
      | Some c \<Rightarrow>
          (case read_at_from_file blake3 c (unat (loc_offset (lk_loc l))) (fst (snd l)) of
             Ok p \<Rightarrow> p | _ \<Rightarrow> []))"

definition put_answers ::
  "(bytes \<Rightarrow> hash32) \<Rightarrow> page_store \<Rightarrow> lookup list \<Rightarrow> bytes option list \<Rightarrow> bytes option list" where
  "put_answers blake3 st ls results = fold (\<lambda>l r. r[fst l := Some (page_of blake3 st l)]) ls results"

abbreviation lookup_ok :: "(bytes \<Rightarrow> hash32) \<Rightarrow> page_store \<Rightarrow> lookup \<Rightarrow> bool" where
  "lookup_ok blake3 st l \<equiv> page_at blake3 st (fst (snd l)) (lk_loc l)"

lemma lookup_ok_page:
  assumes "lookup_ok blake3 st l" "logical_file st (loc_pack (lk_loc l)) = Some c"
  shows "read_at_from_file blake3 c (unat (loc_offset (lk_loc l))) (fst (snd l)) = Ok (page_of blake3 st l)"
  using assms by (auto simp: page_at_def page_in_def page_of_def)

lemma logical_file_cache [simp]: "logical_file (st\<lparr>ps_cache := c\<rparr>) = logical_file st"
  by (simp add: logical_file_def fun_eq_iff)

lemma page_of_cache [simp]: "page_of blake3 (st\<lparr>ps_cache := c\<rparr>) = page_of blake3 st"
  by (simp add: page_of_def fun_eq_iff)

lemma page_at_cache [simp]: "page_at blake3 (st\<lparr>ps_cache := c\<rparr>) = page_at blake3 st"
  by (simp add: page_at_def fun_eq_iff)

lemma put_answers_cache [simp]: "put_answers blake3 (st\<lparr>ps_cache := c\<rparr>) = put_answers blake3 st"
  by (simp add: put_answers_def fun_eq_iff)

lemma put_answers_simps [simp]:
  "put_answers blake3 st [] r = r"
  "put_answers blake3 st (l # ls) r = put_answers blake3 st ls (r[fst l := Some (page_of blake3 st l)])"
  "put_answers blake3 st (ls @ ls') r = put_answers blake3 st ls' (put_answers blake3 st ls r)"
  by (simp_all add: put_answers_def)

lemma files_ok_cache [simp]: "files_ok (st\<lparr>ps_cache := c\<rparr>) = files_ok st"
  by (simp add: files_ok_def)

lemma read_handle_group_ok:
  assumes "\<forall>l \<in> set ls. lookup_ok blake3 st l \<and> logical_file st (loc_pack (lk_loc l)) = Some c"
  shows "read_handle_group blake3 c ls results st = (Ok (put_answers blake3 st ls results), st)"
  using assms
proof (induction ls arbitrary: results)
  case (Cons l ls)
  then show ?case
    using lookup_ok_page[of blake3 st l c] by (cases l) (simp add: lk_loc_def)
qed simp

lemma read_group_ok:
  assumes st: "cache_ok st" "files_ok st" and p: "p \<noteq> ps_pack_id st"
    and ls: "ls \<noteq> []" "\<forall>l \<in> set ls. lookup_ok blake3 st l \<and> loc_pack (lk_loc l) = p"
  shows "\<exists>c. read_group blake3 p ls results st =
      (Ok (put_answers blake3 st ls results), st\<lparr>ps_cache := c\<rparr>) \<and> cache_ok (st\<lparr>ps_cache := c\<rparr>)"
proof -
  obtain l where "l \<in> set ls" "lookup_ok blake3 st l" "loc_pack (lk_loc l) = p"
    using ls by (cases ls) auto
  then obtain f where f: "logical_file st p = Some f" "map_of (ps_files st) p = Some f"
    using p by (auto simp: page_at_def logical_file_def)
  note g = get_or_open_file[OF st f(2)]
  have "read_handle_group blake3 f ls results (st\<lparr>ps_cache := c\<rparr>) =
      (Ok (put_answers blake3 st ls results), st\<lparr>ps_cache := c\<rparr>)" for c
    using read_handle_group_ok[of ls blake3 "st\<lparr>ps_cache := c\<rparr>" f results] ls f(1) by simp
  then show ?thesis
    using g by (auto simp: read_group_def Let_def split: prod.split)
qed

lemma read_groups_ok:
  assumes "cache_ok st" "files_ok st"
    "\<forall>l \<in> set ls. lookup_ok blake3 st l \<and> loc_pack (lk_loc l) \<noteq> ps_pack_id st"
  shows "\<exists>c. read_groups blake3 ls results st =
      (Ok (put_answers blake3 st ls results), st\<lparr>ps_cache := c\<rparr>) \<and> cache_ok (st\<lparr>ps_cache := c\<rparr>)"
  using assms
proof (induction ls arbitrary: results st rule: length_induct)
  case (1 ls)
  show ?case
  proof (cases ls)
    case Nil
    then show ?thesis
      using "1.prems" by (intro exI[of _ "ps_cache st"]) simp
  next
    case (Cons l ls')
    let ?p = "loc_pack (lk_loc l)"
    let ?g = "l # takeWhile (\<lambda>m. loc_pack (lk_loc m) = ?p) ls'"
    let ?rest = "dropWhile (\<lambda>m. loc_pack (lk_loc m) = ?p) ls'"
    have split: "ls = ?g @ ?rest"
      by (simp add: Cons)
    have g: "\<forall>x \<in> set ?g. lookup_ok blake3 st x \<and> loc_pack (lk_loc x) = ?p"
      using "1.prems"(3) Cons by (auto dest: set_takeWhileD)
    have p: "?p \<noteq> ps_pack_id st"
      using "1.prems"(3) Cons by simp
    obtain c where c: "read_group blake3 ?p ?g results st =
        (Ok (put_answers blake3 st ?g results), st\<lparr>ps_cache := c\<rparr>)" "cache_ok (st\<lparr>ps_cache := c\<rparr>)"
      using read_group_ok[OF "1.prems"(1,2) p list.distinct(2) g] by blast
    have "length ?rest < length ls"
      by (simp add: Cons length_dropWhile_le le_imp_less_Suc)
    moreover have "\<forall>x \<in> set ?rest. lookup_ok blake3 (st\<lparr>ps_cache := c\<rparr>) x \<and>
        loc_pack (lk_loc x) \<noteq> ps_pack_id (st\<lparr>ps_cache := c\<rparr>)"
      using "1.prems"(3) Cons by (auto dest: set_dropWhileD)
    moreover have "files_ok (st\<lparr>ps_cache := c\<rparr>)"
      using "1.prems"(2) by simp
    ultimately have "\<exists>c'. read_groups blake3 ?rest (put_answers blake3 st ?g results) (st\<lparr>ps_cache := c\<rparr>) =
        (Ok (put_answers blake3 (st\<lparr>ps_cache := c\<rparr>) ?rest (put_answers blake3 st ?g results)),
         st\<lparr>ps_cache := c\<rparr>\<lparr>ps_cache := c'\<rparr>) \<and> cache_ok (st\<lparr>ps_cache := c\<rparr>\<lparr>ps_cache := c'\<rparr>)"
      using "1.IH"[rule_format] c(2) by blast
    then obtain c' where
      "read_groups blake3 ?rest (put_answers blake3 st ?g results) (st\<lparr>ps_cache := c\<rparr>) =
        (Ok (put_answers blake3 st ?rest (put_answers blake3 st ?g results)), st\<lparr>ps_cache := c'\<rparr>)"
      "cache_ok (st\<lparr>ps_cache := c'\<rparr>)"
      by (auto simp del: put_answers_simps)
    then show ?thesis
      using c(1) unfolding split put_answers_simps(3) by (intro exI[of _ c']) (simp add: Cons Let_def)
  qed
qed

lemma read_active_record_ok:
  assumes "page_in blake3 c off h p"
  shows "read_active_record blake3 c h off = Ok p"
proof -
  obtain f where f: "off + 4133 \<le> length c" "take 4133 (drop off c) = encode_record h f p"
    "length p = 4096" "h = PageHash (blake3 p)"
    using assms by (auto simp: page_in_def read_at_from_file_Ok PAGE_SIZE_def)
  have hdr: "take 37 (drop off c) = take 37 (encode_record h f p)"
    using arg_cong[OF f(2), of "take 37"] by simp
  have pay: "take 4096 (drop (off + 37) c) = p"
    using arg_cong[OF f(2), of "drop 37"] by (simp add: drop_take add.commute)
  have "rec_len (encode_record h f p @ []) 0 = 4096"
    using f(3) by (subst rec_len_enc) simp_all
  moreover have "p \<noteq> []"
    using f(3) by auto
  ultimately show ?thesis
    using f(1,4) hdr pay
    by (simp add: read_active_record_def read_exact_at_def pack_consts slice_def read_le_def rec_len_def
        drop_take min_def)
qed

lemma read_active_ok:
  assumes "\<forall>l \<in> set ls. lookup_ok blake3 st l \<and> logical_file st (loc_pack (lk_loc l)) = Some c"
  shows "read_active blake3 c ls results = Ok (put_answers blake3 st ls results)"
  using assms
proof (induction ls arbitrary: results)
  case (Cons l ls)
  then have "read_active_record blake3 c (fst (snd l)) (unat (loc_offset (lk_loc l))) = Ok (page_of blake3 st l)"
    using lookup_ok_page[of blake3 st l c] read_active_record_ok by (simp add: page_in_def)
  then show ?case
    using Cons by (cases l) (simp add: lk_loc_def)
qed simp

lemma flush_logical:
  assumes "active_ok blake3 st"
  defines "st' \<equiv> st\<lparr>ps_writer := flush_buf (ps_writer st)\<rparr>"
  shows "logical_file st' = logical_file st" and "active_ok blake3 st'"
    and "logical_file st' (ps_pack_id st) = Some (pw_file (flush_buf (ps_writer st)))"
proof -
  obtain hdr ps where log: "pack_log (ps_writer st) hdr (raw_recs ps)" "list_all (page_ok blake3) ps"
    using assms(1) by (auto simp: active_ok_def)
  note fl = flush_buf_log[OF log(1)]
  show "logical_file st' = logical_file st"
    using fl(2,3) log(1) by (simp add: st'_def logical_file_def fun_eq_iff pack_log_def)
  show "active_ok blake3 st'"
    using assms(1) log fl by (auto simp: active_ok_def st'_def)
  show "logical_file st' (ps_pack_id st) = Some (pw_file (flush_buf (ps_writer st)))"
    using fl(2) by (simp add: st'_def logical_file_def)
qed

lemma logical_file_cong:
  assumes "logical_file st' = logical_file st"
  shows "page_at blake3 st' = page_at blake3 st" and "page_of blake3 st' = page_of blake3 st"
    and "put_answers blake3 st' = put_answers blake3 st"
proof -
  show *: "page_of blake3 st' = page_of blake3 st"
    using assms by (simp add: page_of_def fun_eq_iff)
  show "page_at blake3 st' = page_at blake3 st" "put_answers blake3 st' = put_answers blake3 st"
    using assms by (simp_all add: page_at_def put_answers_def fun_eq_iff *)
qed

text \<open>States that differ only in how far the active pack is flushed and in the cache.\<close>

definition same_store :: "page_store \<Rightarrow> page_store \<Rightarrow> bool" where
  "same_store st st' \<longleftrightarrow>
     ps_index st' = ps_index st \<and> ps_files st' = ps_files st \<and> ps_pack_id st' = ps_pack_id st \<and>
     ps_next_pack_id st' = ps_next_pack_id st \<and> logical_file st' = logical_file st \<and>
     ps_max_pack_bytes st' = ps_max_pack_bytes st \<and> ps_dirty st' = ps_dirty st \<and> ps_sidecars st' = ps_sidecars st"

lemma read_lookups_ok:
  assumes inv: "store_inv blake3 st" and ls: "\<forall>l \<in> set ls. lookup_ok blake3 st l"
  shows "\<exists>ls' st'. mset ls' = mset ls \<and> store_inv blake3 st' \<and> same_store st st' \<and>
    read_lookups blake3 n (ps_pack_id st) ls st = (Ok (put_answers blake3 st ls' (replicate n None)), st')"
proof -
  let ?a = "ps_pack_id st"
  let ?act = "filter (\<lambda>l. loc_pack (lk_loc l) = ?a) ls"
  let ?sealed = "sort_key (\<lambda>l. (pack_num (loc_pack (lk_loc l)), loc_offset (lk_loc l)))
    (filter (\<lambda>l. loc_pack (lk_loc l) \<noteq> ?a) ls)"
  let ?sorted = "sort_key (\<lambda>l. loc_offset (lk_loc l)) ?act"
  have parts: "cache_ok st" "files_ok st" "active_ok blake3 st"
    using inv by (simp_all add: store_inv_def)
  obtain c where c: "read_groups blake3 ?sealed (replicate n None) st =
      (Ok (put_answers blake3 st ?sealed (replicate n None)), st\<lparr>ps_cache := c\<rparr>)"
    "cache_ok (st\<lparr>ps_cache := c\<rparr>)"
    using read_groups_ok[OF parts(1,2), of ?sealed blake3 "replicate n None"] ls by auto
  have inv1: "store_inv blake3 (st\<lparr>ps_cache := c\<rparr>)"
    using inv c(2) by (simp add: store_inv_def active_ok_def)
  show ?thesis
  proof (cases "?act = []")
    case True
    then have "filter (\<lambda>l. loc_pack (lk_loc l) \<noteq> ?a) ls = ls"
      by (auto simp: filter_empty_conv filter_id_conv)
    then show ?thesis
      using c(1) True inv1
      by (intro exI[of _ ?sealed] exI[of _ "st\<lparr>ps_cache := c\<rparr>"])
        (simp add: read_lookups_def Let_def sbind_Ok same_store_def)
  next
    case False
    let ?st1 = "st\<lparr>ps_cache := c, ps_writer := flush_buf (ps_writer st)\<rparr>"
    let ?r = "put_answers blake3 st ?sealed (replicate n None)"
    have fl: "logical_file ?st1 = logical_file st" "active_ok blake3 ?st1"
      "logical_file ?st1 ?a = Some (pw_file (flush_buf (ps_writer st)))"
      using flush_logical[of blake3 "st\<lparr>ps_cache := c\<rparr>"] inv1 by (simp_all add: store_inv_def)
    have sorted: "filter (\<lambda>l. loc_pack (lk_loc l) \<noteq> ?a) ?sorted = []"
      "filter (\<lambda>l. loc_pack (lk_loc l) = ?a) ?sorted = ?sorted" "?sorted \<noteq> []"
      using False by (auto simp: filter_empty_conv filter_id_conv simp flip: set_empty)
    have "read_active blake3 (pw_file (flush_buf (ps_writer st))) ?sorted ?r = Ok (put_answers blake3 st ?sorted ?r)"
      using read_active_ok[of ?sorted blake3 ?st1 "pw_file (flush_buf (ps_writer st))" ?r] fl ls
        logical_file_cong[OF fl(1)] by auto
    moreover have "store_inv blake3 ?st1"
      using inv1 fl(1,2) logical_file_cong(1)[OF fl(1)]
      by (simp add: store_inv_def files_ok_def cache_ok_def)
    ultimately show ?thesis
      using c(1) False sorted fl(1)
      by (intro exI[of _ "?sealed @ ?sorted"] exI[of _ ?st1])
        (simp add: read_lookups_def Let_def sbind_Ok same_store_def)
  qed
qed

lemma length_put_answers [simp]: "length (put_answers blake3 st ls r) = length r"
  by (induction ls arbitrary: r) simp_all

lemma put_answers_other: "i \<notin> fst ` set ls \<Longrightarrow> put_answers blake3 st ls r ! i = r ! i"
  by (induction ls arbitrary: r) auto

lemma put_answers_nth:
  assumes "distinct (map fst ls)" "l \<in> set ls" "fst l < length r"
  shows "put_answers blake3 st ls r ! fst l = Some (page_of blake3 st l)"
  using assms by (induction ls arbitrary: r) (auto simp: put_answers_other)

lemma in_resolve_lookups:
  "(i, h, loc) \<in> set (resolve_lookups st hs) \<longleftrightarrow>
     i < length hs \<and> hs ! i = h \<and> index_get (ps_index st) h = Some loc"
  by (auto simp: resolve_lookups_def in_set_enumerate_eq split: option.splits)

lemma map_fst_resolve:
  "map fst (concat (map (\<lambda>(i, h). case f h of Some loc \<Rightarrow> [(i, h, loc)] | None \<Rightarrow> []) (enumerate k hs)))
     = map fst (filter (\<lambda>(i, h). f h \<noteq> None) (enumerate k hs))"
  by (induction hs arbitrary: k) (auto split: option.splits)

lemma distinct_resolve_lookups: "distinct (map fst (resolve_lookups st hs))"
  unfolding resolve_lookups_def map_fst_resolve by (rule distinct_map_filter) simp

text \<open>The page a hash stands for in a state.\<close>

definition stored_page :: "(bytes \<Rightarrow> hash32) \<Rightarrow> page_store \<Rightarrow> page_hash \<Rightarrow> bytes option" where
  "stored_page blake3 st h =
     map_option (\<lambda>loc. page_of blake3 st (0, h, loc)) (index_get (ps_index st) h)"

lemma page_of_index: "page_of blake3 st (i, h, loc) = page_of blake3 st (0, h, loc)"
  unfolding page_of_def lk_loc_def by (simp split: option.split)

lemma stored_page_hash:
  assumes "store_inv blake3 st" "stored_page blake3 st h = Some p"
  shows "h = PageHash (blake3 p) \<and> length p = PAGE_SIZE"
proof -
  obtain loc where loc: "index_get (ps_index st) h = Some loc" "p = page_of blake3 st (0, h, loc)"
    using assms(2) by (auto simp: stored_page_def)
  then have ok: "lookup_ok blake3 st (0, h, loc)"
    using assms(1) by (simp add: store_inv_def lk_loc_def)
  then obtain c where "logical_file st (loc_pack loc) = Some c"
    by (auto simp: page_at_def lk_loc_def)
  then show ?thesis
    using lookup_ok_page[OF ok] loc(2) page_in_hash[of blake3 c _ h p] by (simp add: page_in_def lk_loc_def)
qed

lemma get_batch_ok:
  assumes inv: "store_inv blake3 st"
  shows "\<exists>st'. get_batch blake3 hashes st = (Ok (map (stored_page blake3 st) hashes), st') \<and>
    store_inv blake3 st' \<and> same_store st st'"
proof (cases "resolve_lookups st hashes = []")
  case True
  then have "index_get (ps_index st) h = None" if "h \<in> set hashes" for h
    using that in_resolve_lookups[of _ h _ st hashes]
    by (cases "index_get (ps_index st) h") (auto simp: in_set_conv_nth)
  then have "map (stored_page blake3 st) hashes = replicate (length hashes) None"
    by (intro nth_equalityI) (auto simp: stored_page_def)
  then show ?thesis
    using True inv by (simp add: get_batch_def same_store_def)
next
  case False
  let ?ls = "resolve_lookups st hashes" and ?n = "length hashes"
  have "lookup_ok blake3 st l" if "l \<in> set ?ls" for l
  proof -
    obtain i h loc where l: "l = (i, h, loc)" by (cases l)
    have "index_get (ps_index st) h = Some loc"
      using that unfolding l in_resolve_lookups by simp
    then show ?thesis
      using inv by (simp add: l store_inv_def lk_loc_def)
  qed
  then obtain ls' st' where ls': "mset ls' = mset ?ls" and st': "store_inv blake3 st'" "same_store st st'"
    and run: "read_lookups blake3 ?n (ps_pack_id st) ?ls st =
      (Ok (put_answers blake3 st ls' (replicate ?n None)), st')"
    using read_lookups_ok[OF inv, of ?ls ?n] by blast
  have mem: "set ls' = set ?ls"
    by (rule mset_eq_setD[OF ls'])
  have "mset (map fst ls') = mset (map fst ?ls)"
    using ls' by simp
  then have d: "distinct (map fst ls')"
    using distinct_resolve_lookups[of st hashes] mset_eq_imp_distinct_iff by blast
  have "put_answers blake3 st ls' (replicate ?n None) = map (stored_page blake3 st) hashes"
  proof (rule nth_equalityI)
    fix i assume "i < length (put_answers blake3 st ls' (replicate ?n None))"
    then have i: "i < ?n" by simp
    show "put_answers blake3 st ls' (replicate ?n None) ! i = map (stored_page blake3 st) hashes ! i"
    proof (cases "index_get (ps_index st) (hashes ! i)")
      case None
      then have "i \<notin> fst ` set ls'"
        by (auto simp: mem in_resolve_lookups)
      then show ?thesis
        using None i by (simp add: put_answers_other stored_page_def)
    next
      case (Some loc)
      then have "(i, hashes ! i, loc) \<in> set ls'"
        using i by (simp add: mem in_resolve_lookups)
      from put_answers_nth[OF d this] show ?thesis
        using Some i page_of_index[of blake3 st i] by (simp add: stored_page_def)
    qed
  qed simp
  moreover have "hashes \<noteq> []"
    using False by (auto simp: resolve_lookups_def)
  ultimately show ?thesis
    using run st' False by (simp add: get_batch_def)
qed

section \<open>Reads that race with the collector\<close>

text \<open>A lookup may be resolved before, and read after, the collector has moved the page and
  unlinked its old pack.\<close>

lemma read_from_cached_handle_ok:
  assumes inv: "store_inv blake3 st" and c: "map_of (ps_files st) (loc_pack loc) = Some c"
    and pg: "page_in blake3 c (unat (loc_offset loc)) h p"
  shows "\<exists>k. read_from_cached_handle blake3 h loc st = (Ok p, st\<lparr>ps_cache := k\<rparr>) \<and>
    store_inv blake3 (st\<lparr>ps_cache := k\<rparr>)"
proof -
  have "cache_ok st" "files_ok st"
    using inv by (simp_all add: store_inv_def)
  note g = get_or_open_file[OF this c]
  show ?thesis
    using g inv pg by (auto simp: read_from_cached_handle_def page_in_def store_inv_def active_ok_def
        Let_def split: prod.split)
qed

lemma read_from_cached_handle_missing:
  assumes inv: "store_inv blake3 st" and c: "map_of (ps_files st) (loc_pack loc) = None"
    and act: "loc_pack loc \<noteq> ps_pack_id st"
  shows "\<exists>k. read_from_cached_handle blake3 h loc st = (Err (StIo NotFound), st\<lparr>ps_cache := k\<rparr>) \<and>
    store_inv blake3 (st\<lparr>ps_cache := k\<rparr>)"
proof -
  have "map_of (lru_entries (ps_cache st)) (loc_pack loc) = None"
    using inv c by (cases "map_of (lru_entries (ps_cache st)) (loc_pack loc)")
      (auto simp: store_inv_def cache_ok_def)
  then have "get_or_open (\<lambda>p. open_sealed_fast (file_at st p) p) (ps_cache st) (loc_pack loc) =
      (Err (PkIo NotFound), (ps_cache st)\<lparr>lru_generation := saturating_add (lru_generation (ps_cache st)) 1\<rparr>)"
    using c act by (simp add: get_or_open_def lru_get_def Let_def open_sealed_fast_def file_at_def)
  moreover have "store_inv blake3 (st\<lparr>ps_cache := (ps_cache st)\<lparr>lru_generation := g\<rparr>\<rparr>)" for g
    using inv by (simp add: store_inv_def active_ok_def cache_ok_def)
  ultimately show ?thesis
    by (auto simp: read_from_cached_handle_def Let_def)
qed

lemma cache_invalidate_inv:
  "store_inv blake3 st \<Longrightarrow> store_inv blake3 (st\<lparr>ps_cache := cache_invalidate (ps_cache st) p\<rparr>)"
  by (auto simp: store_inv_def active_ok_def cache_ok_def cache_invalidate_def lru_remove_def delete_conv')

text \<open>The location is stale: its pack is gone.  The retry follows the index.\<close>

lemma read_sealed_with_retry_stale:
  assumes inv: "store_inv blake3 st" and gone: "map_of (ps_files st) (loc_pack loc) = None"
    "loc_pack loc \<noteq> ps_pack_id st"
    and sealed: "\<forall>l. index_get (ps_index st) h = Some l \<longrightarrow> loc_pack l \<noteq> ps_pack_id st"
  shows "\<exists>st'. read_sealed_with_retry blake3 h loc st = (Ok (stored_page blake3 st h), st') \<and>
    store_inv blake3 st' \<and> same_store st st'"
proof -
  obtain k where k: "read_from_cached_handle blake3 h loc st = (Err (StIo NotFound), st\<lparr>ps_cache := k\<rparr>)"
    "store_inv blake3 (st\<lparr>ps_cache := k\<rparr>)"
    using read_from_cached_handle_missing[OF inv gone] by blast
  let ?st1 = "st\<lparr>ps_cache := cache_invalidate k (loc_pack loc)\<rparr>"
  have inv1: "store_inv blake3 ?st1"
    using cache_invalidate_inv[OF k(2)] by simp
  show ?thesis
  proof (cases "index_get (ps_index st) h")
    case None
    then show ?thesis
      using k(1) inv1 by (simp add: read_sealed_with_retry_def stored_page_def same_store_def Let_def)
  next
    case (Some l)
    then have "page_at blake3 st h l"
      using inv by (simp add: store_inv_def)
    then obtain c p where c: "map_of (ps_files st) (loc_pack l) = Some c"
      "page_in blake3 c (unat (loc_offset l)) h p" "logical_file st (loc_pack l) = Some c"
      using sealed Some by (auto simp: page_at_def logical_file_def)
    obtain k2 where "read_from_cached_handle blake3 h l ?st1 = (Ok p, st\<lparr>ps_cache := k2\<rparr>)"
      "store_inv blake3 (st\<lparr>ps_cache := k2\<rparr>)"
      using read_from_cached_handle_ok[OF inv1, of l c h p] c by auto
    moreover have "l \<noteq> loc"
      using c(1) gone(1) by auto
    moreover have "stored_page blake3 st h = Some p"
      using Some c by (simp add: stored_page_def page_of_def lk_loc_def page_in_def)
    ultimately show ?thesis
      using k(1) Some
      by (simp add: read_sealed_with_retry_def Let_def sbind_Ok sreturn_def same_store_def)
  qed
qed

end
