(* ===== verification/Page_Ingest.thy ===== *)
theory Page_Ingest
  imports Page_Read
begin

text \<open>
  Writing to the page store under its invariant: rotation, ingest with its two levels of
  deduplication, and the composition of ingest with reading.
\<close>

section \<open>Append-only growth\<close>

text \<open>Index entries and file contents are kept, packs that are not written stay as they are, and
  new pages never land in them; pack ids only go up.\<close>

definition grows :: "page_store \<Rightarrow> page_store \<Rightarrow> bool" where
  "grows st st' \<longleftrightarrow>
     (\<forall>h loc. index_get (ps_index st) h = Some loc \<longrightarrow> index_get (ps_index st') h = Some loc) \<and>
     (\<forall>p c. logical_file st p = Some c \<longrightarrow> (\<exists>d. logical_file st' p = Some (c @ d))) \<and>
     map_of (ps_files st) \<subseteq>\<^sub>m map_of (ps_files st') \<and>
     (\<forall>h loc. index_get (ps_index st') h = Some loc \<longrightarrow>
        index_get (ps_index st) h = Some loc \<or> loc_pack loc \<notin> dom (map_of (ps_files st))) \<and>
     ps_next_pack_id st \<le> ps_next_pack_id st' \<and> ps_max_pack_bytes st' = ps_max_pack_bytes st"

lemma grows_refl [simp]: "grows st st"
  by (auto simp: grows_def)

lemma grows_trans:
  assumes "grows a b" "grows b c"
  shows "grows a c"
proof -
  have "\<exists>d. logical_file c p = Some (x @ d)" if x: "logical_file a p = Some x" for p x
  proof -
    obtain d where "logical_file b p = Some (x @ d)"
      using assms(1) x unfolding grows_def by blast
    then obtain e where "logical_file c p = Some ((x @ d) @ e)"
      using assms(2) unfolding grows_def by blast
    then show ?thesis
      by auto
  qed
  moreover have "map_of (ps_files a) \<subseteq>\<^sub>m map_of (ps_files c)"
    using assms map_le_trans by (auto simp: grows_def)
  moreover have "index_get (ps_index a) h = Some loc \<or> loc_pack loc \<notin> dom (map_of (ps_files a))"
    if "index_get (ps_index c) h = Some loc" for h loc
    using assms that map_le_implies_dom_le[of "map_of (ps_files a)" "map_of (ps_files b)"] unfolding grows_def by blast
  ultimately show ?thesis
    using assms unfolding grows_def by auto
qed

lemma grows_page_at:
  assumes "grows st st'" "page_at blake3 st h loc"
  shows "page_at blake3 st' h loc"
  using assms page_in_append unfolding grows_def page_at_def by blast

lemma grows_stored_page:
  assumes "grows st st'" "store_inv blake3 st" "stored_page blake3 st h = Some p"
  shows "stored_page blake3 st' h = Some p"
proof -
  obtain loc where loc: "index_get (ps_index st) h = Some loc" "p = page_of blake3 st (0, h, loc)"
    using assms(3) by (auto simp: stored_page_def)
  then have "page_at blake3 st h loc"
    using assms(2) by (simp add: store_inv_def)
  then obtain c q where c: "logical_file st (loc_pack loc) = Some c"
    "page_in blake3 c (unat (loc_offset loc)) h q"
    unfolding page_at_def by blast
  obtain d where d: "logical_file st' (loc_pack loc) = Some (c @ d)"
    using assms(1) c(1) unfolding grows_def by blast
  have "p = q"
    using loc(2) c by (simp add: page_of_def lk_loc_def page_in_def)
  then show ?thesis
    using assms(1) loc(1) d page_in_append[OF c(2), of d]
    by (auto simp: grows_def stored_page_def page_of_def lk_loc_def page_in_def)
qed

section \<open>Rotation\<close>

lemma pack_less: "p < q \<longleftrightarrow> pack_num p < pack_num q"
  by (simp add: less_pack_id_def)

lemma unat_pack_next:
  assumes "unat (pack_num p) + 1 < 2 ^ 32"
  shows "unat (pack_num (next_id p)) = unat (pack_num p) + 1"
  using assms by (cases p) (simp add: unat_word_ariths)

lemma next_id_greater: "unat (pack_num p) + 1 < 2 ^ 32 \<Longrightarrow> p < next_id p"
  by (simp add: pack_less word_less_nat_alt unat_pack_next)

lemma update_absent: "k \<notin> fst ` set al \<Longrightarrow> AList.update k v al = al @ [(k, v)]"
  by (induction al) auto

lemma active_sealed:
  assumes "active_ok blake3 st"
  shows "\<exists>w d. seal_no_sync blake3 (ps_writer st) = Ok w \<and>
    logical_file st (ps_pack_id st) = Some (pw_file (ps_writer st) @ pw_write_buf (ps_writer st)) \<and>
    pw_file w = (pw_file (ps_writer st) @ pw_write_buf (ps_writer st)) @ d \<and> magic_ok (pw_file w)"
proof -
  obtain hdr ps where log: "pack_log (ps_writer st) hdr (raw_recs ps)"
    using assms by (auto simp: active_ok_def)
  obtain w where w: "seal_no_sync blake3 (ps_writer st) = Ok w"
    "pw_file w = hdr @ enc_all (raw_recs ps) @ pack_footer (length (raw_recs ps)) (blake3 (enc_all (raw_recs ps)))"
    using seal_no_sync_log[OF log] by blast
  have "pw_file (ps_writer st) @ pw_write_buf (ps_writer st) = hdr @ enc_all (raw_recs ps)"
    using log by (simp add: pack_log_def)
  moreover have "magic_ok (pw_file w)"
    using log by (simp add: w(2) magic_ok_def pack_log_def pack_header_ok_def PACK_HEADER_SIZE_def)
  ultimately show ?thesis
    using w by (simp add: logical_file_def)
qed

lemma rotate_locked_ok:
  assumes inv: "store_inv blake3 st" and ids: "unat (pack_num (ps_next_pack_id st)) + 1 < 2 ^ 32"
    and cap: "ps_max_pack_bytes st < usize_limit"
  shows "\<exists>st'. rotate_locked blake3 crc32 now st = (Ok (ps_next_pack_id st), st') \<and>
    store_inv blake3 st' \<and> grows st st' \<and> ps_index st' = ps_index st \<and>
    ps_pack_id st' = ps_next_pack_id st \<and> ps_next_pack_id st' = next_id (ps_next_pack_id st) \<and>
    ps_max_pack_bytes st' = ps_max_pack_bytes st \<and>
    pw_write_offset (ps_writer st') = PACK_HEADER_SIZE \<and> pw_max_bytes (ps_writer st') = ps_max_pack_bytes st"
proof -
  let ?old = "ps_pack_id st" and ?new = "ps_next_pack_id st"
  have parts: "active_ok blake3 st" "files_ok st" "cache_ok st"
    using inv by (simp_all add: store_inv_def)
  obtain w d where w: "seal_no_sync blake3 (ps_writer st) = Ok w"
    and act: "logical_file st ?old = Some (pw_file (ps_writer st) @ pw_write_buf (ps_writer st))"
    and wf: "pw_file w = (pw_file (ps_writer st) @ pw_write_buf (ps_writer st)) @ d" "magic_ok (pw_file w)"
    using active_sealed[OF parts(1)] by blast
  have fresh: "?old \<noteq> ?new" "?new \<notin> fst ` set (ps_files st)" "?old \<notin> fst ` set (ps_files st)"
    using parts(2) by (auto simp: files_ok_def)
  have none: "map_of (ps_files st) ?new = None" "map_of (ps_files st) ?old = None"
    using fresh(2,3) by (simp_all add: map_of_eq_None_iff)
  obtain w0 where w0: "create_with_max_bytes None ?new now (ps_max_pack_bytes st) = Ok w0"
    by (simp add: create_with_max_bytes_def)
  note log0 = create_pack_log[OF w0]
  define st' where "st' = st\<lparr>ps_dirty := List.insert ?old (ps_dirty st),
    ps_sidecars := AList.update ?old (write_sidecar crc32 (ps_index st) ?old) (ps_sidecars st),
    ps_next_pack_id := next_id ?new, ps_files := AList.update ?old (pw_file w) (ps_files st),
    ps_writer := w0, ps_pack_id := ?new, ps_new_files := True\<rparr>"
  have run: "rotate_locked blake3 crc32 now st = (Ok ?new, st')"
    using w w0 none fresh(1) by (simp add: rotate_locked_def Let_def file_at_def st'_def)
  have g: "grows st st'"
    using fresh none wf(1) next_id_greater[OF ids]
    by (auto simp: grows_def logical_file_def st'_def update_conv' map_le_def)
  have "files_ok st'"
    using parts(2) fresh wf(2) next_id_greater[OF ids]
    by (auto simp: files_ok_def st'_def update_absent)
  moreover have "cache_ok st'"
    using parts(3) none(2) unfolding cache_ok_def st'_def
    by (simp add: update_conv') (metis option.distinct(1))
  moreover have "active_ok blake3 st'"
  proof -
    have "\<exists>hdr ps. pack_log w0 hdr (raw_recs ps) \<and> list_all (page_ok blake3) ps"
      by (rule exI[of _ "pack_header ?new now"], rule exI[of _ "[]"]) (simp add: log0)
    then show ?thesis
      using log0 cap by (simp add: active_ok_def st'_def)
  qed
  ultimately have "store_inv blake3 st'"
    using inv grows_page_at[OF g] by (simp add: store_inv_def) (simp add: st'_def)
  then show ?thesis
    using run g log0 by (auto simp: st'_def pack_log_def)
qed

section \<open>Appending a page\<close>

lemma append_page_ok:
  assumes inv: "store_inv blake3 st" and new: "index_get (ps_index st) h = None"
    and pg: "page_ok blake3 (h, pg)" and room: "\<not> would_exceed_cap (ps_writer st)"
  shows "\<exists>off w st'. append_record (ps_writer st) h pg = Ok (off, w) \<and>
    st' = st\<lparr>ps_writer := w, ps_dirty := List.insert (ps_pack_id st) (ps_dirty st),
            ps_index := index_insert (ps_index st) h (loc_at (ps_pack_id st) off)\<rparr> \<and>
    store_inv blake3 st' \<and> grows st st' \<and> stored_page blake3 st' h = Some pg \<and>
    index_get (ps_index st') = (index_get (ps_index st))(h \<mapsto> loc_at (ps_pack_id st) off)"
proof -
  let ?a = "ps_pack_id st" and ?w = "ps_writer st"
  have ix: "index_inv (ps_index st)" and act: "active_ok blake3 st"
    using inv by (simp_all add: store_inv_def)
  obtain hdr ps where log: "pack_log ?w hdr (raw_recs ps)" "list_all (page_ok blake3) ps"
    and cap: "pw_max_bytes ?w < usize_limit"
    using act by (auto simp: active_ok_def)
  have len: "length pg = PAGE_SIZE" and hash: "h = PageHash (blake3 pg)"
    using pg by (simp_all add: page_ok_def)
  obtain w where w: "append_record ?w h pg = Ok (pw_write_offset ?w, w)"
    using append_record_Full(2)[OF log(1), of h pg] room by blast
  note a = append_record_Ok[OF log(1) len w]
  let ?off = "PACK_HEADER_SIZE + length (enc_all (raw_recs ps))"
  define st' where "st' = st\<lparr>ps_writer := w, ps_dirty := List.insert ?a (ps_dirty st),
    ps_index := index_insert (ps_index st) h (loc_at ?a ?off)\<rparr>"
  have bytes: "pw_file ?w @ pw_write_buf ?w = hdr @ enc_all (raw_recs ps)" "length hdr = PACK_HEADER_SIZE"
    using log(1) by (simp_all add: pack_log_def pack_header_ok_def)
  have bytes': "pw_file w @ pw_write_buf w = hdr @ enc_all (raw_recs ps @ [(h, 1, pg)])"
    using a(1) by (simp add: pack_log_def)
  have get: "index_get (ps_index st') = (index_get (ps_index st))(h \<mapsto> loc_at ?a ?off)"
    using sharded.lookup_ins[OF ix] new by (simp add: st'_def)
  have "map_of (ps_files st) ?a = None"
    using inv by (simp add: store_inv_def files_ok_def map_of_eq_None_iff)
  then have g: "grows st st'"
    using get new bytes bytes' by (auto simp: grows_def logical_file_def st'_def loc_at_def)
  have "pw_write_offset w \<le> pw_max_bytes w" "pw_write_offset w \<ge> ?off"
    using a(1,3) by (simp_all add: pack_log_def)
  then have off: "unat (of_nat ?off :: u64) = ?off"
    using cap a(4) by (intro unat_of_nat_u64) linarith
  have "page_in blake3 (hdr @ enc_all (raw_recs ps @ [(h, 1, pg)])) ?off h pg"
    using read_logged[where ?blake3.0 = blake3 and rs = "raw_recs ps" and f = 1 and rs' = "[]" and tail = "[]", OF bytes(2) hash len]
    by (simp add: page_in_def)
  then have here: "logical_file st' ?a = Some (hdr @ enc_all (raw_recs ps @ [(h, 1, pg)]))"
    "page_in blake3 (hdr @ enc_all (raw_recs ps @ [(h, 1, pg)])) (unat (loc_offset (loc_at ?a ?off))) h pg"
    unfolding loc_at_def using bytes' off by (simp_all add: logical_file_def st'_def)
  have "active_ok blake3 st'"
  proof -
    have "pack_log w hdr (raw_recs (ps @ [(h, pg)]))" "list_all (page_ok blake3) (ps @ [(h, pg)])"
      using a(1) log(2) pg by simp_all
    then show ?thesis
      using cap a(4) unfolding active_ok_def st'_def by (simp del: map_append list_all_append) blast
  qed
  moreover have "page_at blake3 st' k l" if "index_get (ps_index st') k = Some l" for k l
  proof (cases "k = h")
    case True
    then show ?thesis
      using that get here unfolding page_at_def by (auto simp: loc_at_def)
  next
    case False
    then show ?thesis
      using that get inv grows_page_at[OF g] by (simp add: store_inv_def)
  qed
  ultimately have "store_inv blake3 st'"
    using inv sharded.inv_ins[OF ix] by (simp add: store_inv_def files_ok_def cache_ok_def st'_def)
  moreover have "stored_page blake3 st' h = Some pg"
    using get here by (simp add: stored_page_def page_of_def lk_loc_def page_in_def loc_at_def)
  ultimately show ?thesis
    using w a(2) g get by (intro exI[of _ ?off] exI[of _ w] exI[of _ st']) (simp add: st'_def)
qed

section \<open>The write loop\<close>

text \<open>Enough room for a record in a fresh pack, and enough pack ids for \<open>n\<close> rotations.\<close>

definition room_for :: "nat \<Rightarrow> page_store \<Rightarrow> bool" where
  "room_for n st \<longleftrightarrow>
     PACK_HEADER_SIZE + RECORD_HEADER_SIZE + PAGE_SIZE \<le> ps_max_pack_bytes st \<and>
     ps_max_pack_bytes st < usize_limit \<and> unat (pack_num (ps_next_pack_id st)) + n < 2 ^ 32"

lemma ensure_room_ok:
  assumes inv: "store_inv blake3 st" and room: "room_for (Suc n) st"
  shows "\<exists>st'. ensure_room blake3 crc32 now st = (Ok (), st') \<and> store_inv blake3 st' \<and> grows st st' \<and>
    room_for n st' \<and> ps_index st' = ps_index st \<and> \<not> would_exceed_cap (ps_writer st')"
proof (cases "would_exceed_cap (ps_writer st)")
  case True
  have ids: "unat (pack_num (ps_next_pack_id st)) + 1 < 2 ^ 32" and cap: "ps_max_pack_bytes st < usize_limit"
    using room by (simp_all add: room_for_def)
  obtain st' where st': "rotate_locked blake3 crc32 now st = (Ok (ps_next_pack_id st), st')"
    "store_inv blake3 st'" "grows st st'" "ps_index st' = ps_index st"
    "ps_next_pack_id st' = next_id (ps_next_pack_id st)" "ps_max_pack_bytes st' = ps_max_pack_bytes st"
    "pw_write_offset (ps_writer st') = PACK_HEADER_SIZE" "pw_max_bytes (ps_writer st') = ps_max_pack_bytes st"
    using rotate_locked_ok[OF inv ids cap] by blast
  have "room_for n st'" "\<not> would_exceed_cap (ps_writer st')"
    using room st'(5-8) unat_pack_next[OF ids] by (simp_all add: room_for_def would_exceed_cap_def)
  then show ?thesis
    using True st' by (simp add: ensure_room_def sbind_Ok sreturn_def)
next
  case False
  then show ?thesis
    using inv room by (simp add: ensure_room_def room_for_def)
qed

definition misses_ok :: "(bytes \<Rightarrow> hash32) \<Rightarrow> bytes list \<Rightarrow> (page_hash \<times> nat) list \<Rightarrow> bool" where
  "misses_ok blake3 pages tw \<longleftrightarrow>
     distinct (map fst tw) \<and> distinct (map snd tw) \<and>
     (\<forall>(h, i) \<in> set tw. i < length pages \<and> page_ok blake3 (h, pages ! i))"

text \<open>What the loop leaves: every miss is stored, its outcome says where, and whether it was new.\<close>

definition misses_done ::
  "(bytes \<Rightarrow> hash32) \<Rightarrow> bytes list \<Rightarrow> (page_hash \<times> nat) list \<Rightarrow> page_store \<Rightarrow> page_store \<Rightarrow>
     ingest_outcome option list \<Rightarrow> ingest_outcome option list \<Rightarrow> bool" where
  "misses_done blake3 pages tw st st' outs outs' \<longleftrightarrow>
     length outs' = length outs \<and>
     (\<forall>i. i \<notin> snd ` set tw \<longrightarrow> outs' ! i = outs ! i) \<and>
     (\<forall>(h, i) \<in> set tw. \<exists>loc. index_get (ps_index st') h = Some loc \<and>
        outs' ! i = Some (outcome_of h loc (index_get (ps_index st) h = None)) \<and>
        (index_get (ps_index st) h = None \<longrightarrow> stored_page blake3 st' h = Some (pages ! i))) \<and>
     dom (index_get (ps_index st')) = dom (index_get (ps_index st)) \<union> fst ` set tw"

lemma write_misses_ok:
  assumes "store_inv blake3 st" "room_for (length tw) st" "misses_ok blake3 pages tw"
    "\<forall>(h, i) \<in> set tw. i < length outs"
  shows "\<exists>outs' st'. write_misses blake3 crc32 now pages tw outs st = (Ok outs', st') \<and>
    store_inv blake3 st' \<and> grows st st' \<and> misses_done blake3 pages tw st st' outs outs'"
  using assms
proof (induction tw arbitrary: outs st)
  case Nil
  then show ?case by (auto simp: misses_done_def)
next
  case (Cons hi tw)
  obtain h i where hi: "hi = (h, i)" by (cases hi)
  have tw: "misses_ok blake3 pages tw" "h \<notin> fst ` set tw" "i \<notin> snd ` set tw"
    and pg: "page_ok blake3 (h, pages ! i)" and i: "i < length outs"
    using Cons.prems(3,4) by (auto simp: misses_ok_def hi)
  show ?case
  proof (cases "index_get (ps_index st) h")
    case (Some loc)
    have "room_for (length tw) st"
      using Cons.prems(2) by (simp add: room_for_def)
    then obtain outs' st' where "write_misses blake3 crc32 now pages tw
        (outs[i := Some (outcome_of h loc False)]) st = (Ok outs', st')" "store_inv blake3 st'" "grows st st'"
      "misses_done blake3 pages tw st st' (outs[i := Some (outcome_of h loc False)]) outs'"
      using Cons.IH[OF Cons.prems(1) _ tw(1), of "outs[i := Some (outcome_of h loc False)]"] Cons.prems(4)
      by auto
    moreover from this have "index_get (ps_index st') h = Some loc"
      using Some by (simp add: grows_def)
    ultimately show ?thesis
      using Some tw i by (auto simp: hi misses_done_def)
  next
    case None
    obtain st1 where st1: "ensure_room blake3 crc32 now st = (Ok (), st1)" "store_inv blake3 st1"
      "grows st st1" "room_for (length tw) st1" "ps_index st1 = ps_index st"
      "\<not> would_exceed_cap (ps_writer st1)"
      using ensure_room_ok[OF Cons.prems(1), of "length tw"] Cons.prems(2) by auto
    let ?loc = "\<lambda>off. loc_at (ps_pack_id st1) off"
    obtain off w st2 where app: "append_record (ps_writer st1) h (pages ! i) = Ok (off, w)"
      and st2: "st2 = st1\<lparr>ps_writer := w, ps_dirty := List.insert (ps_pack_id st1) (ps_dirty st1),
                ps_index := index_insert (ps_index st1) h (?loc off)\<rparr>"
        "store_inv blake3 st2" "grows st1 st2" "stored_page blake3 st2 h = Some (pages ! i)"
        "index_get (ps_index st2) = (index_get (ps_index st1))(h \<mapsto> ?loc off)"
      using append_page_ok[OF st1(2) _ pg st1(6)] None st1(5) by auto
    let ?outs = "outs[i := Some (outcome_of h (?loc off) True)]"
    have "room_for (length tw) st2"
      using st1(4) by (simp add: st2(1) room_for_def)
    then obtain outs' st' where rest: "write_misses blake3 crc32 now pages tw ?outs st2 = (Ok outs', st')"
      "store_inv blake3 st'" "grows st2 st'" "misses_done blake3 pages tw st2 st' ?outs outs'"
      using Cons.IH[OF st2(2) _ tw(1), of ?outs] Cons.prems(4) by auto
    have run: "write_misses blake3 crc32 now pages (hi # tw) outs st = (Ok outs', st')"
      using None rest(1) app by (simp add: hi sbind_Ok st1(1) Let_def st2(1)[symmetric])
    have g: "grows st st'"
      using st1(3) st2(3) rest(3) grows_trans by blast
    have "index_get (ps_index st') h = Some (?loc off)" "stored_page blake3 st' h = Some (pages ! i)"
      using rest(3) st2(5) grows_stored_page[OF rest(3) st2(2,4)] by (simp_all add: grows_def)
    moreover have "index_get (ps_index st2) a = index_get (ps_index st) a" if "(a, b) \<in> set tw" for a b
      using that tw(2) st1(5) by (auto simp: st2(5) intro: rev_image_eqI)
    then have "\<forall>(a, b) \<in> set tw. \<exists>loc. index_get (ps_index st') a = Some loc \<and>
        outs' ! b = Some (outcome_of a loc (index_get (ps_index st) a = None)) \<and>
        (index_get (ps_index st) a = None \<longrightarrow> stored_page blake3 st' a = Some (pages ! b))"
      using rest(4) unfolding misses_done_def by fastforce
    ultimately have "misses_done blake3 pages (hi # tw) st st' outs outs'"
      using rest(4) tw(3) i None st1(5) unfolding misses_done_def by (simp add: hi st2(5))
    then show ?thesis
      using run g rest(2) by blast
  qed
qed

section \<open>The batch\<close>

lemma batch_dedup_spec:
  assumes "distinct (map fst acc)" "distinct (map snd acc)" "\<forall>(h, i) \<in> set acc. i < k"
  shows "distinct (map fst (batch_dedup k hs acc)) \<and> distinct (map snd (batch_dedup k hs acc)) \<and>
    fst ` set (batch_dedup k hs acc) = fst ` set acc \<union> set hs \<and>
    (\<forall>(h, i) \<in> set (batch_dedup k hs acc).
       (h, i) \<in> set acc \<or> (k \<le> i \<and> i < k + length hs \<and> hs ! (i - k) = h))"
  using assms
proof (induction hs arbitrary: k acc)
  case Nil
  then show ?case by auto
next
  case (Cons h hs)
  let ?acc = "case map_of acc h of None \<Rightarrow> acc @ [(h, k)] | Some _ \<Rightarrow> acc"
  have acc: "distinct (map fst ?acc)" "distinct (map snd ?acc)" "\<forall>(h, i) \<in> set ?acc. i < Suc k"
    using Cons.prems by (fastforce simp: map_of_eq_None_iff less_Suc_eq split: option.splits)+
  have acc45: "fst ` set ?acc = insert h (fst ` set acc)" "set ?acc \<subseteq> insert (h, k) (set acc)"
    by (auto split: option.splits dest: map_of_SomeD intro: rev_image_eqI)
  note IH = Cons.IH[OF acc(1-3)]
  have "(g, i) \<in> set acc \<or> (k \<le> i \<and> i < k + length (h # hs) \<and> (h # hs) ! (i - k) = g)"
    if "(g, i) \<in> set (batch_dedup (Suc k) hs ?acc)" for g i
  proof -
    from IH that have "(g, i) \<in> set ?acc \<or> (Suc k \<le> i \<and> i < Suc k + length hs \<and> hs ! (i - Suc k) = g)"
      by blast
    then show ?thesis
    proof
      assume "(g, i) \<in> set ?acc"
      then have "(g, i) = (h, k) \<or> (g, i) \<in> set acc"
        using acc45(2) by blast
      then show ?thesis by auto
    next
      assume r: "Suc k \<le> i \<and> i < Suc k + length hs \<and> hs ! (i - Suc k) = g"
      then have "i - k = Suc (i - Suc k)" by arith
      then show ?thesis using r by simp
    qed
  qed
  then show ?case
    using IH acc45(1) by auto
qed

definition probe_step ::
  "sharded_index \<Rightarrow> page_hash \<times> nat \<Rightarrow> ingest_outcome option list \<Rightarrow> ingest_outcome option list" where
  "probe_step ix e os =
     (case index_get ix (fst e) of Some loc \<Rightarrow> os[snd e := Some (outcome_of (fst e) loc False)] | None \<Rightarrow> os)"

lemma probe_index_spec:
  "probe_index ix es tw outs =
    (tw @ filter (\<lambda>e. index_get ix (fst e) = None) es, fold (probe_step ix) es outs)"
  by (induction es arbitrary: tw outs) (auto simp: probe_step_def split: option.splits)

lemma length_probe_step [simp]: "length (probe_step ix e os) = length os"
  by (simp add: probe_step_def split: option.split)

lemma length_probe [simp]: "length (fold (probe_step ix) es os) = length os"
  by (induction es arbitrary: os) simp_all

lemma probe_miss:
  "\<forall>h. (h, i) \<in> set es \<longrightarrow> index_get ix h = None \<Longrightarrow> fold (probe_step ix) es os ! i = os ! i"
  by (induction es arbitrary: os) (force simp: probe_step_def split: option.split)+

lemma probe_hit:
  assumes "distinct (map snd es)" "(h, i) \<in> set es" "index_get ix h = Some loc" "i < length os"
  shows "fold (probe_step ix) es os ! i = Some (outcome_of h loc False)"
  using assms
proof (induction es arbitrary: os)
  case (Cons e es)
  show ?case
  proof (cases "e = (h, i)")
    case True
    have "fold (probe_step ix) es (probe_step ix e os) ! i = probe_step ix e os ! i"
      using Cons.prems(1) True by (intro probe_miss) force
    then show ?thesis
      using True Cons.prems(3,4) by (simp add: probe_step_def[of ix "(h, i)"])
  next
    case False
    then show ?thesis
      using Cons.IH[of "probe_step ix e os"] Cons.prems by simp
  qed
qed simp

lemma fill_outcomes_Ok:
  assumes "length outs = length hs" "\<forall>i < length hs. outs ! i = None \<longrightarrow> index_get ix (hs ! i) \<noteq> None"
  shows "\<exists>res. fill_outcomes ix hs outs = Ok res \<and> length res = length hs \<and>
    (\<forall>i < length hs. res ! i =
       (case outs ! i of Some out \<Rightarrow> out | None \<Rightarrow> outcome_of (hs ! i) (the (index_get ix (hs ! i))) False))"
  using assms
proof (induction ix hs outs rule: fill_outcomes.induct)
  case (1 ix h hs o1 os)
  have "\<forall>i < length hs. os ! i = None \<longrightarrow> index_get ix (hs ! i) \<noteq> None"
    using "1.prems"(2) by (metis Suc_less_eq length_Cons nth_Cons_Suc)
  then obtain res where res: "fill_outcomes ix hs os = Ok res" "length res = length hs"
    "\<forall>i < length hs. res ! i =
       (case os ! i of Some out \<Rightarrow> out | None \<Rightarrow> outcome_of (hs ! i) (the (index_get ix (hs ! i))) False)"
    using "1.IH" "1.prems"(1) by auto
  let ?out = "case o1 of Some out \<Rightarrow> out | None \<Rightarrow> outcome_of h (the (index_get ix h)) False"
  have "o1 = None \<longrightarrow> index_get ix h \<noteq> None"
    using "1.prems"(2) by force
  then have "fill_outcomes ix (h # hs) (o1 # os) = Ok (?out # res)"
    using res(1) by (auto split: option.split)
  then show ?case
    using res(2,3) by (auto simp: nth_Cons split: nat.split option.split)
qed auto

section \<open>Ingest\<close>

abbreviation hash_of :: "(bytes \<Rightarrow> hash32) \<Rightarrow> bytes \<Rightarrow> page_hash" where
  "hash_of blake3 p \<equiv> PageHash (blake3 p)"

text \<open>The outcome of each page: where it is now, and whether this call wrote it; exactly one
  position of each new page reports the write, and its bytes are the stored ones.\<close>

definition ingest_done ::
  "(bytes \<Rightarrow> hash32) \<Rightarrow> bytes list \<Rightarrow> page_store \<Rightarrow> page_store \<Rightarrow> ingest_outcome list \<Rightarrow> bool" where
  "ingest_done blake3 pages st st' outs \<longleftrightarrow>
     length outs = length pages \<and>
     dom (index_get (ps_index st')) = dom (index_get (ps_index st)) \<union> hash_of blake3 ` set pages \<and>
     (\<forall>i < length pages. io_hash (outs ! i) = hash_of blake3 (pages ! i) \<and>
        index_get (ps_index st') (hash_of blake3 (pages ! i)) = Some (io_loc (outs ! i)) \<and>
        (io_newly_written (outs ! i) \<longrightarrow> hash_of blake3 (pages ! i) \<notin> dom (index_get (ps_index st)) \<and>
           stored_page blake3 st' (hash_of blake3 (pages ! i)) = Some (pages ! i))) \<and>
     (\<forall>h \<in> hash_of blake3 ` set pages - dom (index_get (ps_index st)).
        \<exists>!i. i < length pages \<and> hash_of blake3 (pages ! i) = h \<and> io_newly_written (outs ! i))"

lemma ordered_dedup_spec:
  assumes "mset (order (batch_dedup 0 hs [])) = mset (batch_dedup 0 hs [])"
  shows "distinct (map fst (order (batch_dedup 0 hs [])))" "distinct (map snd (order (batch_dedup 0 hs [])))"
    "fst ` set (order (batch_dedup 0 hs [])) = set hs"
    "\<forall>(h, i) \<in> set (order (batch_dedup 0 hs [])). i < length hs \<and> hs ! i = h"
proof -
  have eq: "set (order (batch_dedup 0 hs [])) = set (batch_dedup 0 hs [])"
    using assms by (rule mset_eq_setD)
  have m: "mset (map f (order (batch_dedup 0 hs []))) = mset (map f (batch_dedup 0 hs []))" for f :: "page_hash \<times> nat \<Rightarrow> 'b"
    using assms by simp
  note d = batch_dedup_spec[of "[]" 0 hs, simplified]
  show "distinct (map fst (order (batch_dedup 0 hs [])))" "distinct (map snd (order (batch_dedup 0 hs [])))"
    using d mset_eq_imp_distinct_iff[OF m] by blast+
  show "fst ` set (order (batch_dedup 0 hs [])) = set hs"
    "\<forall>(h, i) \<in> set (order (batch_dedup 0 hs [])). i < length hs \<and> hs ! i = h"
    using d eq by auto
qed

text \<open>The three kinds of positions after the write loop: written, found, and duplicate.\<close>

lemma batch_positions:
  assumes es: "distinct (map snd es)" "\<forall>(h, i) \<in> set es. i < n"
    and tw: "tw = filter (\<lambda>e. index_get (ps_index st) (fst e) = None) es"
    and outs: "outs = fold (probe_step (ps_index st)) es (replicate n None)"
    and done1: "misses_done blake3 pages tw st st' outs outs'" and g: "grows st st'"
  shows "\<And>h i. (h, i) \<in> set es \<Longrightarrow>
      \<exists>loc. index_get (ps_index st') h = Some loc \<and>
        outs' ! i = Some (outcome_of h loc (index_get (ps_index st) h = None)) \<and>
        (index_get (ps_index st) h = None \<longrightarrow> stored_page blake3 st' h = Some (pages ! i))"
    and "\<And>i. i < n \<Longrightarrow> i \<notin> snd ` set es \<Longrightarrow> outs' ! i = None"
proof -
  fix h i assume hi: "(h, i) \<in> set es"
  show "\<exists>loc. index_get (ps_index st') h = Some loc \<and>
        outs' ! i = Some (outcome_of h loc (index_get (ps_index st) h = None)) \<and>
        (index_get (ps_index st) h = None \<longrightarrow> stored_page blake3 st' h = Some (pages ! i))"
  proof (cases "index_get (ps_index st) h")
    case None
    then have "(h, i) \<in> set tw"
      using hi by (simp add: tw)
    then show ?thesis
      using done1 unfolding misses_done_def by blast
  next
    case (Some loc)
    have "i \<notin> snd ` set tw"
    proof
      assume "i \<in> snd ` set tw"
      then obtain h' where "(h', i) \<in> set es" "index_get (ps_index st) h' = None"
        by (auto simp: tw)
      then show False
        using hi es(1) Some by (metis distinct_map inj_onD option.distinct(1) prod.inject snd_conv)
    qed
    then have "outs' ! i = outs ! i"
      using done1 by (simp add: misses_done_def)
    moreover have "outs ! i = Some (outcome_of h loc False)"
      unfolding outs using es hi Some by (intro probe_hit) auto
    ultimately show ?thesis
      using Some g by (simp add: grows_def)
  qed
next
  fix i assume i: "i < n" "i \<notin> snd ` set es"
  then have "outs' ! i = outs ! i"
    using done1 by (force simp: misses_done_def tw)
  also have "\<dots> = replicate n None ! i"
    unfolding outs using i(2) by (intro probe_miss) force
  finally show "outs' ! i = None"
    using i(1) by simp
qed

lemma misses_ok_filter:
  assumes "distinct (map fst es)" "distinct (map snd es)"
    "\<forall>(h, i) \<in> set es. i < length pages \<and> page_ok blake3 (h, pages ! i)"
  shows "misses_ok blake3 pages (filter P es)"
  using assms by (auto simp: misses_ok_def distinct_map_filter)

lemma ingest_doneI:
  assumes es: "distinct (map fst es)" "fst ` set es = hash_of blake3 ` set pages"
      "\<And>h i. (h, i) \<in> set es \<Longrightarrow> i < length pages \<and> hash_of blake3 (pages ! i) = h"
    and dom: "dom (index_get (ps_index st')) = dom (index_get (ps_index st)) \<union> hash_of blake3 ` set pages"
    and pos: "\<And>h i. (h, i) \<in> set es \<Longrightarrow>
      \<exists>loc. index_get (ps_index st') h = Some loc \<and>
        outs ! i = Some (outcome_of h loc (index_get (ps_index st) h = None)) \<and>
        (index_get (ps_index st) h = None \<longrightarrow> stored_page blake3 st' h = Some (pages ! i))"
      "\<And>i. i < length pages \<Longrightarrow> i \<notin> snd ` set es \<Longrightarrow> outs ! i = None"
    and res: "length res = length pages"
      "\<And>i. i < length pages \<Longrightarrow> res ! i = (case outs ! i of Some out \<Rightarrow> out
        | None \<Rightarrow> outcome_of (hash_of blake3 (pages ! i))
             (the (index_get (ps_index st') (hash_of blake3 (pages ! i)))) False)"
  shows "ingest_done blake3 pages st st' res"
proof -
  let ?h = "\<lambda>i. hash_of blake3 (pages ! i)"
  have mem: "?h i \<in> dom (index_get (ps_index st'))" if "i < length pages" for i
    using dom that by auto
  have chosen: "(?h i, i) \<in> set es" if "i < length pages" "outs ! i \<noteq> None" for i
    using pos(2)[of i] that es(3) by force
  have each: "io_hash (res ! i) = ?h i \<and> index_get (ps_index st') (?h i) = Some (io_loc (res ! i)) \<and>
      (io_newly_written (res ! i) \<longleftrightarrow> (?h i, i) \<in> set es \<and> index_get (ps_index st) (?h i) = None) \<and>
      (io_newly_written (res ! i) \<longrightarrow> stored_page blake3 st' (?h i) = Some (pages ! i))"
    if i: "i < length pages" for i
  proof (cases "outs ! i")
    case None
    then have "(?h i, i) \<notin> set es"
      using pos(1) by force
    then show ?thesis
      using None mem[OF i] by (auto simp: res(2)[OF i])
  next
    case (Some out)
    then have "(?h i, i) \<in> set es"
      using chosen i by simp
    then show ?thesis
      using pos(1)[of "?h i" i] by (auto simp: res(2)[OF i])
  qed
  have "\<exists>!i. i < length pages \<and> ?h i = h \<and> io_newly_written (res ! i)"
    if h: "h \<in> hash_of blake3 ` set pages" "h \<notin> dom (index_get (ps_index st))" for h
  proof -
    obtain i where i: "(h, i) \<in> set es"
      using h(1) es(2) by (metis (no_types, lifting) imageE prod.collapse)
    have "j = i" if "(h, j) \<in> set es" for j
      using that i es(1) by (metis distinct_map fst_conv inj_onD prod.inject)
    then show ?thesis
      using i es(3)[OF i] each h(2) by (metis domIff)
  qed
  then show ?thesis
    using each res(1) dom unfolding ingest_done_def by (auto simp: domIff)
qed

lemma ingest_ok:
  assumes inv: "store_inv blake3 st" and room: "room_for (length pages) st"
    and sizes: "\<forall>p \<in> set pages. length p = PAGE_SIZE"
    and order: "\<And>es. mset (order es) = mset es"
  shows "\<exists>outs st'. ingest blake3 crc32 order now pages st = (Ok outs, st') \<and> store_inv blake3 st' \<and>
    grows st st' \<and> ingest_done blake3 pages st st' outs"
proof (cases "pages = []")
  case True
  then show ?thesis
    using inv by (simp add: ingest_def ingest_done_def)
next
  case False
  let ?hs = "map (\<lambda>p. hash_of blake3 p) pages" and ?n = "length pages" and ?ix = "ps_index st"
  define es where "es = order (batch_dedup 0 ?hs [])"
  define tw where "tw = filter (\<lambda>e. index_get ?ix (fst e) = None) es"
  define outs0 where "outs0 = fold (probe_step ?ix) es (replicate ?n None)"
  note es' = ordered_dedup_spec[of order ?hs, OF order, folded es_def]
  have es: "distinct (map fst es)" "distinct (map snd es)" "fst ` set es = hash_of blake3 ` set pages"
    "\<And>h i. (h, i) \<in> set es \<Longrightarrow> i < ?n \<and> hash_of blake3 (pages ! i) = h"
    using es' by auto
  have lt: "length tw \<le> ?n"
    using distinct_card[OF es(1)] card_length[of ?hs] es(3) length_filter_le[of _ es]
    unfolding tw_def by (simp add: le_trans[OF length_filter_le])
  have "misses_ok blake3 pages tw"
    unfolding tw_def using es sizes by (intro misses_ok_filter) (auto simp: page_ok_def)
  moreover have "room_for (length tw) st"
    using room lt by (simp add: room_for_def)
  moreover have "\<forall>(h, i) \<in> set tw. i < length outs0"
    using es(4) by (auto simp: outs0_def tw_def)
  ultimately obtain outs1 st' where run: "write_misses blake3 crc32 now pages tw outs0 st = (Ok outs1, st')"
    and st': "store_inv blake3 st'" "grows st st'" and done1: "misses_done blake3 pages tw st st' outs0 outs1"
    using write_misses_ok[OF inv] by metis
  have lt_es: "\<forall>(h, i) \<in> set es. i < ?n"
    using es(4) by auto
  note pos = batch_positions[OF es(2) lt_es tw_def outs0_def done1 st'(2)]
  have dom: "dom (index_get (ps_index st')) = dom (index_get ?ix) \<union> hash_of blake3 ` set pages"
  proof -
    have "fst ` set tw = {h \<in> fst ` set es. index_get ?ix h = None}"
      unfolding tw_def by auto
    then show ?thesis
      using done1 unfolding misses_done_def es(3) by auto
  qed
  have "\<forall>i < ?n. index_get (ps_index st') (?hs ! i) \<noteq> None"
    using dom by (metis UnI2 domIff imageI length_map nth_map nth_mem)
  then obtain res where res: "fill_outcomes (ps_index st') ?hs outs1 = Ok res" "length res = ?n"
    "\<forall>i < ?n. res ! i = (case outs1 ! i of Some out \<Rightarrow> out
        | None \<Rightarrow> outcome_of (?hs ! i) (the (index_get (ps_index st') (?hs ! i))) False)"
    using fill_outcomes_Ok[of outs1 ?hs "ps_index st'"] done1 by (auto simp: misses_done_def outs0_def)
  have "ingest blake3 crc32 order now pages st = (Ok res, st')"
    using False res(1) run
    by (simp add: ingest_def probe_index_spec es_def[symmetric] tw_def[symmetric] outs0_def[symmetric] sbind_Ok)
  moreover have "ingest_done blake3 pages st st' res"
    by (rule ingest_doneI[OF es(1,3,4) dom pos res(2)]) (auto simp: res(3) split: option.split)
  ultimately show ?thesis
    using st' by blast
qed

end
