(* ===== verification/Page_Open.thy ===== *)
theory Page_Open
  imports Page_Ingest
begin

text \<open>
  Opening a page store (\<open>PageStore::open\<close> of \<^verbatim>\<open>crates/snapstore-pagestore/src/ingest.rs\<close>):
  recovery of a directory of packs and sidecars after a clean stop or a crash.  The directory
  is a finite map of pack files and one of sidecars; the helpers update it also when they fail.
\<close>

section \<open>Definitions\<close>

record store_options =
  so_write_buf_size :: nat
  so_max_pack_bytes :: nat
  so_read_handle_cap :: nat

definition default_store_options :: store_options where
  "default_store_options =
     \<lparr>so_write_buf_size = 4 * 1024 * 1024, so_max_pack_bytes = PACK_MAX_BYTES, so_read_handle_cap = 256\<rparr>"

text \<open>The directory, and the index that \<open>open\<close> fills.\<close>

record recovery =
  rv_files :: "(pack_id \<times> bytes) list"
  rv_sidecars :: "(pack_id \<times> bytes) list"
  rv_index :: sharded_index

type_synonym 'a recovery_op = "(recovery, store_error, 'a) op"

definition locs_of :: "pack_id \<Rightarrow> (page_hash \<times> nat) list \<Rightarrow> (page_hash \<times> page_loc) list" where
  "locs_of p es = map (\<lambda>(h, off). (h, loc_at p off)) es"

text \<open>Step 1b: files shorter than a pack header are removed.\<close>

definition remove_runts :: "recovery \<Rightarrow> recovery" where
  "remove_runts rv = rv\<lparr>rv_files := filter (\<lambda>(p, c). \<not> length c < PACK_HEADER_SIZE) (rv_files rv)\<rparr>"

definition is_pack_sealed :: "bytes option \<Rightarrow> bool" where
  "is_pack_sealed on_disk = (case open_sealed on_disk (PackId 0) of Ok _ \<Rightarrow> True | _ \<Rightarrow> False)"

text \<open>The bytes hashed by \<open>seal_existing_pack\<close>, and the entries: every record read again and its
  header rebuilt with the raw-page flag.\<close>

fun seal_body ::
  "pack_reader \<Rightarrow> (nat \<times> page_hash) list \<Rightarrow> (pack_error, bytes \<times> (page_hash \<times> nat) list) outcome" where
  "seal_body r [] = Ok ([], [])"
| "seal_body r ((offset, h) # rs) =
     obind (pack_read_at r offset) (\<lambda>(_, payload).
     obind (seal_body r rs) (\<lambda>(body, es).
     Ok (encode_record h 1 payload @ body, (h, offset) # es)))"

definition seal_existing_pack ::
  "(bytes \<Rightarrow> hash32) \<Rightarrow> pack_id \<Rightarrow> (page_hash \<times> nat) list recovery_op" where
  "seal_existing_pack blake3 p rv =
     (case open_unsealed blake3 (map_of (rv_files rv) p) p of
        Err e \<Rightarrow> (Err (StPack e), rv)
      | Panic \<Rightarrow> (Panic, rv)
      | Ok (reader, _) \<Rightarrow>
          let rv = rv\<lparr>rv_files := AList.update p (pr_file reader) (rv_files rv)\<rparr> in
          (case obind (pack_scan reader) (\<lambda>records.
                obind (seal_body reader records) (\<lambda>(body, es). Ok (length records, body, es))) of
             Err e \<Rightarrow> (Err (StPack e), rv)
           | Panic \<Rightarrow> (Panic, rv)
           | Ok (record_count, body, es) \<Rightarrow>
               (Ok es, rv\<lparr>rv_files := AList.update p
                   (pr_file reader @ pack_footer record_count (blake3 body)) (rv_files rv)\<rparr>)))"

text \<open>All unsealed packs but the last are sealed, indexed and given a sidecar.\<close>

fun seal_all_but_last ::
  "(bytes \<Rightarrow> hash32) \<Rightarrow> (bytes \<Rightarrow> u32) \<Rightarrow> pack_id list \<Rightarrow> pack_id list recovery_op" where
  "seal_all_but_last blake3 crc32 (p # q # ps) rv =
     sbind (seal_existing_pack blake3 p) (\<lambda>es rv.
       let entries = locs_of p es;
           rv = rv\<lparr>rv_sidecars := AList.update p (write_sidecar_entries crc32 entries) (rv_sidecars rv),
                   rv_index := insert_batch (rv_index rv) entries\<rparr>
       in sbind (seal_all_but_last blake3 crc32 (q # ps)) (\<lambda>done1. sreturn (p # done1)) rv) rv"
| "seal_all_but_last blake3 crc32 _ rv = (Ok [], rv)"

text \<open>Sealed packs are loaded from their sidecars, or rebuilt if loading fails.\<close>

fun load_sealed ::
  "(bytes \<Rightarrow> hash32) \<Rightarrow> (bytes \<Rightarrow> u32) \<Rightarrow> pack_id list \<Rightarrow> unit recovery_op" where
  "load_sealed blake3 crc32 [] rv = (Ok (), rv)"
| "load_sealed blake3 crc32 (p # ps) rv =
     (case load_sidecar crc32 (rv_index rv) (map_of (rv_sidecars rv) p) of
        Ok (ix, _) \<Rightarrow> load_sealed blake3 crc32 ps (rv\<lparr>rv_index := ix\<rparr>)
      | Panic \<Rightarrow> (Panic, rv)
      | Err _ \<Rightarrow>
          (case rebuild_from_pack blake3 (map_of (rv_files rv) p) p True of
             Err e \<Rightarrow> (Err (StIndex e), rv)
           | Panic \<Rightarrow> (Panic, rv)
           | Ok entries \<Rightarrow>
               load_sealed blake3 crc32 ps
                 (rv\<lparr>rv_sidecars := AList.update p (write_sidecar_entries crc32 entries) (rv_sidecars rv),
                     rv_index := insert_batch (rv_index rv) entries\<rparr>)))"

definition reopen_pack_for_append :: "(bytes \<Rightarrow> hash32) \<Rightarrow> pack_id \<Rightarrow> pack_writer recovery_op" where
  "reopen_pack_for_append blake3 p rv =
     (case open_unsealed blake3 (map_of (rv_files rv) p) p of
        Err e \<Rightarrow> (Err (StPack e), rv)
      | Panic \<Rightarrow> (Panic, rv)
      | Ok (reader, _) \<Rightarrow>
          let rv = rv\<lparr>rv_files := AList.update p (pr_file reader) (rv_files rv)\<rparr> in
          (case pack_scan reader of
             Err e \<Rightarrow> (Err (StPack e), rv)
           | Panic \<Rightarrow> (Panic, rv)
           | Ok records \<Rightarrow>
               let rv = rv\<lparr>rv_index := insert_batch (rv_index rv)
                           (locs_of p (map (\<lambda>(off, h). (h, off)) records))\<rparr> in
               (map_err StPack (reopen (map_of (rv_files rv) p) p), rv)))"

text \<open>The active pack: the writer, its id, and whether its file is new.\<close>

definition open_active ::
  "(bytes \<Rightarrow> hash32) \<Rightarrow> u64 \<Rightarrow> nat \<Rightarrow> pack_id list \<Rightarrow> pack_id option \<Rightarrow>
     (pack_writer \<times> pack_id \<times> bool) recovery_op" where
  "open_active blake3 now max_pack_bytes pack_ids active rv =
     (case active of
        Some p \<Rightarrow> sbind (reopen_pack_for_append blake3 p) (\<lambda>w. sreturn (w, p, False)) rv
      | None \<Rightarrow>
          let new_id = (if pack_ids = [] then PackId 0 else next_id (last pack_ids)) in
          (map_err StPack (obind (create_with_max_bytes (map_of (rv_files rv) new_id) new_id now max_pack_bytes)
             (\<lambda>w. Ok (w, new_id, True))), rv))"

definition open_store ::
  "(bytes \<Rightarrow> hash32) \<Rightarrow> (bytes \<Rightarrow> u32) \<Rightarrow> u64 \<Rightarrow> store_options \<Rightarrow>
     (pack_id \<times> bytes) list \<Rightarrow> (pack_id \<times> bytes) list \<Rightarrow> (store_error, page_store) outcome" where
  "open_store blake3 crc32 now opts files sidecars =
     (let rv = remove_runts \<lparr>rv_files = files, rv_sidecars = sidecars, rv_index = index_new\<rparr>;
          pack_ids = sort (map fst (rv_files rv));
          sealed_packs = filter (\<lambda>p. is_pack_sealed (map_of (rv_files rv) p)) pack_ids;
          unsealed_packs = sort (filter (\<lambda>p. \<not> is_pack_sealed (map_of (rv_files rv) p)) pack_ids);
          active = (if unsealed_packs = [] then None else Some (last unsealed_packs));
          (r, rv) =
            sbind (seal_all_but_last blake3 crc32 unsealed_packs) (\<lambda>resealed.
            sbind (load_sealed blake3 crc32 (sealed_packs @ resealed)) (\<lambda>_.
            open_active blake3 now (so_max_pack_bytes opts) pack_ids active)) rv
      in obind r (\<lambda>(writer, pid, new_file).
         let pack_ids = (if new_file then pack_ids @ [pid] else pack_ids) in
         Ok \<lparr>ps_files = AList.delete pid (rv_files rv), ps_sidecars = rv_sidecars rv,
             ps_index = rv_index rv, ps_writer = writer, ps_pack_id = pid,
             ps_dirty = [], ps_new_files = new_file,
             ps_next_pack_id = (if pack_ids = [] then PackId 0 else next_id (Max (set pack_ids))),
             ps_max_pack_bytes = so_max_pack_bytes opts,
             ps_cache = cache_new (so_read_handle_cap opts)\<rparr>))"

section \<open>Directory images\<close>

text \<open>What a pack file holds after a stop at any moment: a sealed pack; or a pack whose tail,
  a cut record or a cut footer, is not a good record and is not taken for a footer.\<close>

definition sealed_image :: "(bytes \<Rightarrow> hash32) \<Rightarrow> bytes \<Rightarrow> (page_hash \<times> bytes) list \<Rightarrow> bool" where
  "sealed_image blake3 c ps \<longleftrightarrow>
     (\<exists>hdr bh. pack_header_ok hdr \<and> c = hdr @ enc_all (raw_recs ps) @ pack_footer (length ps) bh)"

definition torn_image :: "(bytes \<Rightarrow> hash32) \<Rightarrow> bytes \<Rightarrow> (page_hash \<times> bytes) list \<Rightarrow> bool" where
  "torn_image blake3 c ps \<longleftrightarrow>
     (\<exists>hdr tail. pack_header_ok hdr \<and> (tail = [] \<or> check_record blake3 tail 0 = None) \<and>
        c = hdr @ enc_all (raw_recs ps) @ tail) \<and> \<not> is_pack_sealed (Some c)"

definition pages_ok :: "(bytes \<Rightarrow> hash32) \<Rightarrow> (page_hash \<times> bytes) list \<Rightarrow> bool" where
  "pages_ok blake3 ps \<longleftrightarrow>
     list_all (page_ok blake3) ps \<and> length ps < 2 ^ 32"

definition rec_locs :: "pack_id \<Rightarrow> (page_hash \<times> bytes) list \<Rightarrow> (page_hash \<times> page_loc) list" where
  "rec_locs p ps =
     locs_of p (map (\<lambda>(off, h). (h, off)) (record_offsets PACK_HEADER_SIZE (raw_recs ps)))"

definition holds_pages :: "bytes \<Rightarrow> (page_hash \<times> bytes) list \<Rightarrow> bool" where
  "holds_pages c ps \<longleftrightarrow> (\<exists>hdr tail. pack_header_ok hdr \<and> c = hdr @ enc_all (raw_recs ps) @ tail)"

lemma image_holds: "sealed_image blake3 c ps \<Longrightarrow> holds_pages c ps" "torn_image blake3 c ps \<Longrightarrow> holds_pages c ps"
  by (auto simp: sealed_image_def torn_image_def holds_pages_def)

lemma holds_pages_magic: "holds_pages c ps \<Longrightarrow> magic_ok c"
  by (auto simp: holds_pages_def magic_ok_def pack_header_ok_def PACK_HEADER_SIZE_def)

lemma length_raw_recs_enc:
  "list_all (page_ok blake3) ps \<Longrightarrow> length (enc_all (raw_recs ps)) = 4133 * length ps"
  by (induction ps) (auto simp: page_ok_def PAGE_SIZE_def rec_payload_def)

lemma fst_rec_locs: "fst ` set (rec_locs p ps) = fst ` set ps"
proof -
  have "snd ` set (record_offsets off (raw_recs ps)) = fst ` set ps" for off
    by (induction ps arbitrary: off) auto
  then show ?thesis
    by (auto simp: rec_locs_def locs_of_def image_image case_prod_beta)
qed

lemma length_record_offsets [simp]: "length (record_offsets off rs) = length rs"
  by (induction rs arbitrary: off) auto

lemma rec_locs_page:
  assumes "(h, loc) \<in> set (rec_locs p ps)" "holds_pages c ps" "pages_ok blake3 ps"
  shows "loc_pack loc = p" "\<exists>pg. (h, pg) \<in> set ps \<and> page_in blake3 c (unat (loc_offset loc)) h pg"
proof -
  obtain off where off: "(off, h) \<in> set (record_offsets PACK_HEADER_SIZE (raw_recs ps))"
    and loc: "loc = loc_at p off"
    using assms(1) by (auto simp: rec_locs_def locs_of_def)
  obtain hdr tail where c: "pack_header_ok hdr" "c = hdr @ enc_all (raw_recs ps) @ tail"
    using assms(2) by (auto simp: holds_pages_def)
  obtain as f pg bs where "raw_recs ps = as @ (h, f, pg) # bs" "off = PACK_HEADER_SIZE + length (enc_all as)"
    using offset_of_member[OF off] by blast
  then have "off \<le> 20 + length (enc_all (raw_recs ps))"
    by (simp add: PACK_HEADER_SIZE_def)
  also have "\<dots> < usize_limit"
    using length_raw_recs_enc[of blake3 ps] assms(3) by (simp add: pages_ok_def usize_limit_def)
  finally have "unat (loc_offset loc) = off"
    by (simp add: loc loc_at_def unat_of_nat_u64)
  moreover have "length hdr = PACK_HEADER_SIZE"
    using c(1) by (simp add: pack_header_ok_def)
  ultimately show "loc_pack loc = p" "\<exists>pg. (h, pg) \<in> set ps \<and> page_in blake3 c (unat (loc_offset loc)) h pg"
    using offset_read[OF off, of blake3 hdr tail] assms(3)
    by (simp_all add: loc loc_at_def pages_ok_def page_in_def c(2))
qed

lemma sealed_image_open:
  assumes "sealed_image blake3 c ps" "pages_ok blake3 ps"
  shows "\<exists>r. open_sealed (Some c) pid = Ok r \<and>
    pack_scan r = Ok (record_offsets PACK_HEADER_SIZE (raw_recs ps))"
proof -
  obtain hdr bh where c: "pack_header_ok hdr" "c = hdr @ enc_all (raw_recs ps) @ pack_footer (length ps) bh"
    using assms(1) by (auto simp: sealed_image_def)
  have ok: "list_all (rec_ok blake3) (raw_recs ps)"
    using assms(2) by (simp add: pages_ok_def raw_recs_ok del: list.pred_map)
  have n: "length (raw_recs ps) < usize_limit"
    using assms(2) by (simp add: pages_ok_def usize_limit_def)
  have "length hdr = PACK_HEADER_SIZE"
    using c(1) by (simp add: pack_header_ok_def)
  from scan_records_log[OF ok this[symmetric] refl, of "pack_footer (length ps) bh"]
  show ?thesis
    using open_sealed_log[OF c(1) ok n, of bh pid] by (simp add: c(2) pack_scan_def)
qed

lemma sealed_image_sealed: "sealed_image blake3 c ps \<Longrightarrow> pages_ok blake3 ps \<Longrightarrow> is_pack_sealed (Some c)"
  using sealed_image_open[of blake3 c ps "PackId 0"] by (auto simp: is_pack_sealed_def)

lemma torn_image_open:
  assumes "torn_image blake3 c ps" "pages_ok blake3 ps"
  shows "\<exists>hdr. pack_header_ok hdr \<and> open_unsealed blake3 (Some c) pid =
    Ok (\<lparr>pr_file = hdr @ enc_all (raw_recs ps), pr_pack_id = pid,
         pr_body_end = Some (PACK_HEADER_SIZE + length (enc_all (raw_recs ps)))\<rparr>, length ps)"
proof -
  obtain hdr tail where hdr: "pack_header_ok hdr" and tail: "tail = [] \<or> check_record blake3 tail 0 = None"
    and c: "c = hdr @ enc_all (raw_recs ps) @ tail"
    using assms(1) by (auto simp: torn_image_def)
  have ok: "list_all (rec_ok blake3) (raw_recs ps)"
    using assms(2) by (simp add: pages_ok_def raw_recs_ok del: list.pred_map)
  have len: "PACK_HEADER_SIZE = length hdr" and magic: "take 4 hdr = PACK_MAGIC"
    using hdr by (simp_all add: pack_header_ok_def)
  have scan: "unsealed_scan blake3 c PACK_HEADER_SIZE 0 =
      (PACK_HEADER_SIZE + length (enc_all (raw_recs ps)), length ps, tail \<noteq> [])"
    using unsealed_scan_log[OF ok len tail, of 0] by (simp add: c)
  have read: "read_exact_at (PkIo UnexpectedEof) c 0 4 = Ok PACK_MAGIC"
    using magic len by (simp add: c read_exact_at_def PACK_HEADER_SIZE_def)
  have cut_at: "take (PACK_HEADER_SIZE + length (enc_all (raw_recs ps))) c = hdr @ enc_all (raw_recs ps)"
    and whole: "tail = [] \<Longrightarrow> c = hdr @ enc_all (raw_recs ps)"
    by (simp_all add: c len)
  show ?thesis
    using hdr whole by (intro exI[of _ hdr]) (auto simp: open_unsealed_def read scan cut_at simp del: map_map)
qed

section \<open>The recovery loops\<close>

text \<open>\<open>recs p\<close> are the whole records of pack \<open>p\<close>; \<open>D\<close> is the set of indexed hashes.\<close>

definition rv_ok ::
  "(bytes \<Rightarrow> hash32) \<Rightarrow> (pack_id \<Rightarrow> (page_hash \<times> bytes) list) \<Rightarrow> page_hash set \<Rightarrow> recovery \<Rightarrow> bool" where
  "rv_ok blake3 recs D rv \<longleftrightarrow>
     distinct (map fst (rv_files rv)) \<and>
     (\<forall>p c. map_of (rv_files rv) p = Some c \<longrightarrow> holds_pages c (recs p) \<and> pages_ok blake3 (recs p)) \<and>
     index_inv (rv_index rv) \<and> dom (index_get (rv_index rv)) = D \<and>
     (\<forall>h loc. index_get (rv_index rv) h = Some loc \<longrightarrow> loc_pack loc \<in> fst ` set (rv_files rv) \<and>
        (h, loc) \<in> set (rec_locs (loc_pack loc) (recs (loc_pack loc))))"

lemma rv_ok_sidecars [simp]: "rv_ok blake3 recs D (rv\<lparr>rv_sidecars := s\<rparr>) = rv_ok blake3 recs D rv"
  by (simp add: rv_ok_def)

lemma rec_locs_pack: "(h, loc) \<in> set (rec_locs p ps) \<Longrightarrow> loc_pack loc = p"
  by (auto simp: rec_locs_def locs_of_def loc_at_def)

lemma rv_ok_insert:
  assumes ok: "rv_ok blake3 recs D rv" and p: "p \<in> fst ` set (rv_files rv)"
    and es: "set es \<subseteq> set (rec_locs p (recs p))"
  shows "rv_ok blake3 recs (D \<union> fst ` set es) (rv\<lparr>rv_index := insert_batch (rv_index rv) es\<rparr>)"
proof -
  have inv: "index_inv (rv_index rv)"
    using ok by (simp add: rv_ok_def)
  have get: "index_get (insert_batch (rv_index rv) es) h =
      (case index_get (rv_index rv) h of None \<Rightarrow> map_of es h | Some l \<Rightarrow> Some l)" for h
    by (simp add: insert_batch_eq[OF inv] sharded.lookup_ins_all[OF inv])
  have new: "loc_pack loc = p \<and> (h, loc) \<in> set (rec_locs p (recs p))" if "map_of es h = Some loc" for h loc
    using es map_of_SomeD[OF that] rec_locs_pack by blast
  have "dom (index_get (insert_batch (rv_index rv) es)) = D \<union> fst ` set es"
    using ok by (auto simp: get rv_ok_def dom_map_of_conv_image_fst[symmetric] dom_def split: option.splits)
  moreover have "index_inv (insert_batch (rv_index rv) es)"
    by (simp add: insert_batch_eq[OF inv] sharded.inv_ins_all[OF inv])
  moreover have "loc_pack loc \<in> fst ` set (rv_files rv) \<and> (h, loc) \<in> set (rec_locs (loc_pack loc) (recs (loc_pack loc)))"
    if "index_get (insert_batch (rv_index rv) es) h = Some loc" for h loc
    using that ok p new[of h loc] by (auto simp: get rv_ok_def split: option.splits)
  ultimately show ?thesis
    using ok by (simp add: rv_ok_def)
qed

lemma keys_update: "p \<in> fst ` set al \<Longrightarrow> map fst (AList.update p c al) = map fst al"
  by (simp add: update_keys)

lemma rv_ok_file:
  assumes "rv_ok blake3 recs D rv" "p \<in> fst ` set (rv_files rv)" "holds_pages c (recs p)"
  shows "rv_ok blake3 recs D (rv\<lparr>rv_files := AList.update p c (rv_files rv)\<rparr>)"
proof -
  have keys: "map fst (AList.update p c (rv_files rv)) = map fst (rv_files rv)"
    by (rule keys_update[OF assms(2)])
  then have dom: "fst ` set (AList.update p c (rv_files rv)) = fst ` set (rv_files rv)"
    by (metis list.set_map)
  have "pages_ok blake3 (recs p)"
    using assms(1,2) unfolding rv_ok_def by (metis (no_types, lifting) domIff dom_map_of_conv_image_fst not_None_eq)
  then show ?thesis
    using assms(1,3) unfolding rv_ok_def by (simp add: keys dom update_conv')
qed

abbreviation swapped :: "(nat \<times> page_hash) list \<Rightarrow> (page_hash \<times> nat) list" where
  "swapped rs \<equiv> map (\<lambda>(off, h). (h, off)) rs"

lemma seal_body_log:
  assumes "list_all (page_ok blake3) ps" "off = length pre" "pr_file r = pre @ enc_all (raw_recs ps)"
  shows "seal_body r (record_offsets off (raw_recs ps)) =
    Ok (enc_all (raw_recs ps), swapped (record_offsets off (raw_recs ps)))"
  using assms
proof (induction ps arbitrary: off pre)
  case (Cons hp ps)
  obtain h p where hp: "hp = (h, p)" by (cases hp)
  have len: "length p = PAGE_SIZE"
    using Cons.prems(1) by (simp add: hp page_ok_def)
  have fl: "pr_file r = pre @ encode_record h 1 p @ enc_all (raw_recs ps)"
    using Cons.prems(3) by (simp add: hp)
  have rl: "rec_len (pr_file r) off = PAGE_SIZE"
    using len by (simp add: fl Cons.prems(2) PAGE_SIZE_def)
  have "drop (off + 37) (pr_file r) = p @ enc_all (raw_recs ps)"
    by (simp add: fl Cons.prems(2))
  then have rd: "pack_read_at r off = Ok (page_hash_from_bytes (take 32 (encode_record h 1 p)), p)"
    unfolding pack_read_at_def rl using len by (simp add: read_exact_at_def fl Cons.prems(2) pack_consts)
  have "seal_body r (record_offsets (off + length (enc (h, 1, p))) (raw_recs ps)) =
      Ok (enc_all (raw_recs ps), swapped (record_offsets (off + length (enc (h, 1, p))) (raw_recs ps)))"
    using Cons.prems by (intro Cons.IH[of _ "pre @ enc (h, 1, p)"]) (simp_all add: hp)
  then show ?case
    by (simp add: hp rd rec_payload_def)
qed simp

lemma seal_existing_pack_ok:
  assumes ok: "rv_ok blake3 recs D rv" and c: "map_of (rv_files rv) p = Some c" "torn_image blake3 c (recs p)"
  shows "\<exists>c' rv'. seal_existing_pack blake3 p rv =
      (Ok (swapped (record_offsets PACK_HEADER_SIZE (raw_recs (recs p)))), rv') \<and>
    rv_ok blake3 recs D rv' \<and> rv_sidecars rv' = rv_sidecars rv \<and>
    map_of (rv_files rv') = (map_of (rv_files rv))(p \<mapsto> c') \<and> sealed_image blake3 c' (recs p)"
proof -
  let ?ps = "recs p" and ?e = "enc_all (raw_recs (recs p))"
  have ps: "pages_ok blake3 ?ps" and p: "p \<in> fst ` set (rv_files rv)"
    using ok c(1) by (auto simp: rv_ok_def dest: map_of_SomeD intro: rev_image_eqI)
  obtain hdr where hdr: "pack_header_ok hdr" and op: "open_unsealed blake3 (Some c) p =
      Ok (\<lparr>pr_file = hdr @ ?e, pr_pack_id = p, pr_body_end = Some (PACK_HEADER_SIZE + length ?e)\<rparr>, length ?ps)"
    using torn_image_open[OF c(2) ps] by blast
  let ?r = "\<lparr>pr_file = hdr @ ?e, pr_pack_id = p, pr_body_end = Some (PACK_HEADER_SIZE + length ?e)\<rparr>"
  have len: "PACK_HEADER_SIZE = length hdr" and pok: "list_all (page_ok blake3) ?ps"
    using hdr ps by (simp_all add: pack_header_ok_def pages_ok_def)
  have scan: "pack_scan ?r = Ok (record_offsets PACK_HEADER_SIZE (raw_recs ?ps))"
    using scan_records_log[OF raw_recs_ok[OF pok] len refl, of "[]"] by (simp add: pack_scan_def)
  have body: "seal_body ?r (record_offsets PACK_HEADER_SIZE (raw_recs ?ps)) =
      Ok (?e, swapped (record_offsets PACK_HEADER_SIZE (raw_recs ?ps)))"
    by (rule seal_body_log[OF pok len]) simp
  let ?c' = "hdr @ ?e @ pack_footer (length ?ps) (blake3 ?e)"
  let ?rv1 = "rv\<lparr>rv_files := AList.update p (hdr @ ?e) (rv_files rv)\<rparr>"
  have h1: "holds_pages (hdr @ ?e) ?ps" and sealed: "sealed_image blake3 ?c' ?ps"
    using hdr unfolding holds_pages_def sealed_image_def by (metis append_Nil2, blast)
  have "rv_ok blake3 recs D ?rv1"
    by (rule rv_ok_file[OF ok p h1])
  then have "rv_ok blake3 recs D (?rv1\<lparr>rv_files := AList.update p ?c' (rv_files ?rv1)\<rparr>)"
    by (rule rv_ok_file) (use image_holds(1)[OF sealed] in \<open>simp_all add: dom_update\<close>)
  then show ?thesis
    using op scan body sealed
    by (intro exI[of _ ?c'] exI[of _ "?rv1\<lparr>rv_files := AList.update p ?c' (rv_files ?rv1)\<rparr>"])
      (simp add: seal_existing_pack_def c(1) Let_def update_conv' del: map_map)
qed

text \<open>A sidecar may name any of the records of its pack; a missing or damaged one is replaced.\<close>

definition sidecar_ok ::
  "(bytes \<Rightarrow> u32) \<Rightarrow> bytes option \<Rightarrow> pack_id \<Rightarrow> (page_hash \<times> bytes) list \<Rightarrow> bool" where
  "sidecar_ok crc32 sc p ps \<longleftrightarrow>
     (case sidecar_decode crc32 sc of Ok es \<Rightarrow> set es \<subseteq> set (rec_locs p ps) | Err _ \<Rightarrow> True | Panic \<Rightarrow> False)"

text \<open>The hashes a sealed pack contributes: those of its sidecar, or of all its records.\<close>

definition indexed_hashes :: "(bytes \<Rightarrow> u32) \<Rightarrow> bytes option \<Rightarrow> (page_hash \<times> bytes) list \<Rightarrow> page_hash set" where
  "indexed_hashes crc32 sc ps =
     (case sidecar_decode crc32 sc of Ok es \<Rightarrow> fst ` set es | _ \<Rightarrow> fst ` set ps)"

lemma written_sidecar:
  assumes "pages_ok blake3 ps"
  shows "sidecar_ok crc32 (Some (write_sidecar_entries crc32 (rec_locs p ps))) p ps"
    and "indexed_hashes crc32 (Some (write_sidecar_entries crc32 (rec_locs p ps))) ps = fst ` set ps"
proof -
  have "length (rec_locs p ps) < 2 ^ 32"
    using assms by (simp add: pages_ok_def rec_locs_def locs_of_def)
  note d = sidecar_decode_write[OF this, of crc32]
  show "sidecar_ok crc32 (Some (write_sidecar_entries crc32 (rec_locs p ps))) p ps"
    "indexed_hashes crc32 (Some (write_sidecar_entries crc32 (rec_locs p ps))) ps = fst ` set ps"
    by (simp_all add: sidecar_ok_def indexed_hashes_def d fst_rec_locs)
qed

definition sealed_at ::
  "(bytes \<Rightarrow> hash32) \<Rightarrow> (bytes \<Rightarrow> u32) \<Rightarrow> (pack_id \<Rightarrow> (page_hash \<times> bytes) list) \<Rightarrow> recovery \<Rightarrow> pack_id \<Rightarrow> bool" where
  "sealed_at blake3 crc32 recs rv p \<longleftrightarrow>
     (\<exists>c. map_of (rv_files rv) p = Some c \<and> sealed_image blake3 c (recs p)) \<and>
     sidecar_ok crc32 (map_of (rv_sidecars rv) p) p (recs p)"

lemma seal_all_but_last_ok:
  assumes "rv_ok blake3 recs D rv" "distinct U"
    "\<forall>p \<in> set U. \<exists>c. map_of (rv_files rv) p = Some c \<and> torn_image blake3 c (recs p)"
  shows "\<exists>rv'. seal_all_but_last blake3 crc32 U rv = (Ok (butlast U), rv') \<and>
    rv_ok blake3 recs (D \<union> (\<Union>p \<in> set (butlast U). fst ` set (recs p))) rv' \<and>
    dom (map_of (rv_files rv')) = dom (map_of (rv_files rv)) \<and>
    (\<forall>p. p \<notin> set (butlast U) \<longrightarrow> map_of (rv_files rv') p = map_of (rv_files rv) p \<and>
       map_of (rv_sidecars rv') p = map_of (rv_sidecars rv) p) \<and>
    (\<forall>p \<in> set (butlast U). sealed_at blake3 crc32 recs rv' p \<and>
       indexed_hashes crc32 (map_of (rv_sidecars rv') p) (recs p) = fst ` set (recs p))"
  using assms
proof (induction U arbitrary: D rv rule: induct_list012)
  case (3 p q U)
  obtain c where c: "map_of (rv_files rv) p = Some c" "torn_image blake3 c (recs p)"
    using "3.prems"(3) by auto
  have ps: "pages_ok blake3 (recs p)"
    using "3.prems"(1) c(1) by (auto simp: rv_ok_def)
  obtain c' rv1 where rv1: "seal_existing_pack blake3 p rv =
      (Ok (swapped (record_offsets PACK_HEADER_SIZE (raw_recs (recs p)))), rv1)"
    "rv_ok blake3 recs D rv1" "rv_sidecars rv1 = rv_sidecars rv"
    "map_of (rv_files rv1) = (map_of (rv_files rv))(p \<mapsto> c')" "sealed_image blake3 c' (recs p)"
    using seal_existing_pack_ok[OF "3.prems"(1) c] by blast
  let ?es = "rec_locs p (recs p)"
  define rv2 where "rv2 = rv1\<lparr>rv_sidecars := AList.update p (write_sidecar_entries crc32 ?es) (rv_sidecars rv1),
    rv_index := insert_batch (rv_index rv1) ?es\<rparr>"
  have p: "p \<in> fst ` set (rv_files rv1)"
    using rv1(4) by (metis domI dom_map_of_conv_image_fst fun_upd_same)
  have rv2: "rv_ok blake3 recs (D \<union> fst ` set (recs p)) rv2"
    using rv_ok_insert[OF rv1(2) p, of ?es] by (simp add: rv2_def fst_rec_locs rv_ok_def)
  have "\<forall>r \<in> set (q # U). \<exists>c. map_of (rv_files rv2) r = Some c \<and> torn_image blake3 c (recs r)"
    using "3.prems"(2,3) by (auto simp: rv2_def rv1(4))
  then obtain rv' where rv': "seal_all_but_last blake3 crc32 (q # U) rv2 = (Ok (butlast (q # U)), rv')"
    "rv_ok blake3 recs (D \<union> fst ` set (recs p) \<union> (\<Union>p \<in> set (butlast (q # U)). fst ` set (recs p))) rv'"
    "dom (map_of (rv_files rv')) = dom (map_of (rv_files rv2))"
    "\<forall>r. r \<notin> set (butlast (q # U)) \<longrightarrow> map_of (rv_files rv') r = map_of (rv_files rv2) r \<and>
       map_of (rv_sidecars rv') r = map_of (rv_sidecars rv2) r"
    "\<forall>r \<in> set (butlast (q # U)). sealed_at blake3 crc32 recs rv' r \<and>
       indexed_hashes crc32 (map_of (rv_sidecars rv') r) (recs r) = fst ` set (recs r)"
    using "3.IH"(2)[OF rv2] "3.prems"(2) by auto
  have nin: "p \<notin> set (butlast (q # U))"
    using "3.prems"(2) by (auto dest: in_set_butlastD)
  have at_p: "sealed_at blake3 crc32 recs rv' p \<and>
      indexed_hashes crc32 (map_of (rv_sidecars rv') p) (recs p) = fst ` set (recs p)"
    using rv'(4)[rule_format, OF nin] rv1(4,5) written_sidecar[OF ps, of crc32 p]
    by (auto simp: sealed_at_def rv2_def update_conv')
  have "seal_all_but_last blake3 crc32 (p # q # U) rv = (Ok (butlast (p # q # U)), rv')"
    using rv1(1) rv'(1) by (simp add: sbind_Ok Let_def rv2_def rec_locs_def sreturn_def del: map_map)
  moreover have "dom (map_of (rv_files rv')) = dom (map_of (rv_files rv))"
    using rv'(3) c(1) by (auto simp: rv2_def rv1(4))
  moreover have "\<forall>r. r \<notin> set (butlast (p # q # U)) \<longrightarrow> map_of (rv_files rv') r = map_of (rv_files rv) r \<and>
       map_of (rv_sidecars rv') r = map_of (rv_sidecars rv) r"
    using rv'(4) by (auto simp: rv2_def rv1(3,4) update_conv')
  ultimately show ?case
    using rv'(2,5) at_p by (intro exI[of _ rv']) (simp add: Un_assoc)
qed simp_all

lemma load_sealed_ok:
  assumes "rv_ok blake3 recs D rv" "distinct L" "\<forall>p \<in> set L. sealed_at blake3 crc32 recs rv p"
  shows "\<exists>rv'. load_sealed blake3 crc32 L rv = (Ok (), rv') \<and> rv_files rv' = rv_files rv \<and>
    rv_ok blake3 recs (D \<union> (\<Union>p \<in> set L. indexed_hashes crc32 (map_of (rv_sidecars rv) p) (recs p))) rv'"
  using assms
proof (induction L arbitrary: D rv)
  case (Cons p L)
  obtain c where c: "map_of (rv_files rv) p = Some c" "sealed_image blake3 c (recs p)"
    and sc: "sidecar_ok crc32 (map_of (rv_sidecars rv) p) p (recs p)"
    using Cons.prems(3) by (auto simp: sealed_at_def)
  have ps: "pages_ok blake3 (recs p)" and p: "p \<in> fst ` set (rv_files rv)"
    using Cons.prems(1) c(1) by (auto simp: rv_ok_def dest: map_of_SomeD intro: rev_image_eqI)
  let ?H = "indexed_hashes crc32 (map_of (rv_sidecars rv) p) (recs p)"
  have step: "\<exists>es s. set es \<subseteq> set (rec_locs p (recs p)) \<and> fst ` set es = ?H \<and>
      (\<forall>r. r \<noteq> p \<longrightarrow> map_of s r = map_of (rv_sidecars rv) r) \<and>
      load_sealed blake3 crc32 (p # L) rv =
        load_sealed blake3 crc32 L (rv\<lparr>rv_sidecars := s, rv_index := insert_batch (rv_index rv) es\<rparr>)"
  proof (cases "sidecar_decode crc32 (map_of (rv_sidecars rv) p)")
    case (Ok es)
    then show ?thesis
      using sc by (intro exI[of _ es] exI[of _ "rv_sidecars rv"])
        (simp add: load_sidecar_def sidecar_ok_def indexed_hashes_def)
  next
    case (Err e)
    obtain r where r: "open_sealed (Some c) p = Ok r"
      "pack_scan r = Ok (record_offsets PACK_HEADER_SIZE (raw_recs (recs p)))"
      using sealed_image_open[OF c(2) ps] by blast
    then have "rebuild_from_pack blake3 (Some c) p True = Ok (rec_locs p (recs p))"
      by (simp add: rebuild_from_pack_def rec_locs_def locs_of_def loc_at_def case_prod_beta)
    then show ?thesis
      using Err c(1)
      by (intro exI[of _ "rec_locs p (recs p)"]
          exI[of _ "AList.update p (write_sidecar_entries crc32 (rec_locs p (recs p))) (rv_sidecars rv)"])
        (simp add: load_sidecar_def indexed_hashes_def fst_rec_locs update_conv')
  next
    case Panic
    then show ?thesis
      using sc by (simp add: sidecar_ok_def)
  qed
  then obtain es s where es: "set es \<subseteq> set (rec_locs p (recs p))" "fst ` set es = ?H"
    and s: "\<forall>r. r \<noteq> p \<longrightarrow> map_of s r = map_of (rv_sidecars rv) r"
    and run: "load_sealed blake3 crc32 (p # L) rv =
        load_sealed blake3 crc32 L (rv\<lparr>rv_sidecars := s, rv_index := insert_batch (rv_index rv) es\<rparr>)"
    by blast
  let ?rv1 = "rv\<lparr>rv_sidecars := s, rv_index := insert_batch (rv_index rv) es\<rparr>"
  have rv1: "rv_ok blake3 recs (D \<union> ?H) ?rv1"
    using rv_ok_insert[OF Cons.prems(1) p es(1)] es(2) by (simp add: rv_ok_def)
  have "\<forall>r \<in> set L. sealed_at blake3 crc32 recs ?rv1 r"
    using Cons.prems(2,3) s by (auto simp: sealed_at_def)
  then obtain rv' where "load_sealed blake3 crc32 L ?rv1 = (Ok (), rv')" "rv_files rv' = rv_files rv"
    "rv_ok blake3 recs (D \<union> ?H \<union> (\<Union>r \<in> set L. indexed_hashes crc32 (map_of s r) (recs r))) rv'"
    using Cons.IH[OF rv1] Cons.prems(2) by auto
  moreover have "(\<Union>r \<in> set L. indexed_hashes crc32 (map_of s r) (recs r)) =
      (\<Union>r \<in> set L. indexed_hashes crc32 (map_of (rv_sidecars rv) r) (recs r))"
    using Cons.prems(2) s by (intro SUP_cong) auto
  ultimately show ?case
    using run by (simp add: Un_assoc)
qed simp

lemma reopen_for_append_ok:
  assumes ok: "rv_ok blake3 recs D rv" and c: "map_of (rv_files rv) p = Some c" "torn_image blake3 c (recs p)"
  shows "\<exists>w hdr rv'. reopen_pack_for_append blake3 p rv = (Ok w, rv') \<and>
    rv_ok blake3 recs (D \<union> fst ` set (recs p)) rv' \<and> pack_log w hdr (raw_recs (recs p)) \<and>
    pw_write_buf w = [] \<and> pw_max_bytes w = PACK_MAX_BYTES \<and>
    map_of (rv_files rv') = (map_of (rv_files rv))(p \<mapsto> pw_file w)"
proof -
  let ?ps = "recs p" and ?e = "enc_all (raw_recs (recs p))"
  have ps: "pages_ok blake3 ?ps" and p: "p \<in> fst ` set (rv_files rv)"
    using ok c(1) by (auto simp: rv_ok_def dest: map_of_SomeD intro: rev_image_eqI)
  obtain hdr where hdr: "pack_header_ok hdr" and op: "open_unsealed blake3 (Some c) p =
      Ok (\<lparr>pr_file = hdr @ ?e, pr_pack_id = p, pr_body_end = Some (PACK_HEADER_SIZE + length ?e)\<rparr>, length ?ps)"
    using torn_image_open[OF c(2) ps] by blast
  let ?r = "\<lparr>pr_file = hdr @ ?e, pr_pack_id = p, pr_body_end = Some (PACK_HEADER_SIZE + length ?e)\<rparr>"
  have len: "PACK_HEADER_SIZE = length hdr" and rok: "list_all (rec_ok blake3) (raw_recs ?ps)"
    using hdr ps by (simp_all add: pack_header_ok_def pages_ok_def raw_recs_ok del: list.pred_map)
  have scan: "pack_scan ?r = Ok (record_offsets PACK_HEADER_SIZE (raw_recs ?ps))"
    using scan_records_log[OF rok len refl, of "[]"] by (simp add: pack_scan_def)
  obtain w where w: "reopen (Some (hdr @ ?e)) p = Ok w" "pack_log w hdr (raw_recs ?ps)"
    "pw_max_bytes w = PACK_MAX_BYTES" "pw_write_buf w = []"
    using reopen_log[OF hdr rok] by blast
  then have fl: "pw_file w = hdr @ ?e"
    by (simp add: pack_log_def)
  let ?rv1 = "rv\<lparr>rv_files := AList.update p (hdr @ ?e) (rv_files rv)\<rparr>"
  let ?rv2 = "?rv1\<lparr>rv_index := insert_batch (rv_index rv) (rec_locs p ?ps)\<rparr>"
  have "holds_pages (hdr @ ?e) ?ps"
    using hdr unfolding holds_pages_def by (metis append_Nil2)
  from rv_ok_file[OF ok p this] have "rv_ok blake3 recs (D \<union> fst ` set ?ps) ?rv2"
    using rv_ok_insert[of blake3 recs D ?rv1 p "rec_locs p ?ps"] by (simp add: fst_rec_locs dom_update)
  moreover have "reopen_pack_for_append blake3 p rv = (Ok w, ?rv2)"
    using op scan w(1) by (simp add: reopen_pack_for_append_def c(1) Let_def rec_locs_def update_conv' del: map_map)
  moreover have "map_of (rv_files ?rv2) = (map_of (rv_files rv))(p \<mapsto> pw_file w)"
    by (simp add: update_conv' fl)
  ultimately show ?thesis
    using w by blast
qed

section \<open>The whole recovery\<close>

definition dir_ok ::
  "(bytes \<Rightarrow> hash32) \<Rightarrow> (bytes \<Rightarrow> u32) \<Rightarrow> (pack_id \<Rightarrow> (page_hash \<times> bytes) list) \<Rightarrow>
     (pack_id \<times> bytes) list \<Rightarrow> (pack_id \<times> bytes) list \<Rightarrow> bool" where
  "dir_ok blake3 crc32 recs files sidecars \<longleftrightarrow>
     distinct (map fst files) \<and>
     (\<forall>(p, c) \<in> set files. unat (pack_num p) + 2 < 2 ^ 32 \<and>
        (length c < PACK_HEADER_SIZE \<or>
         pages_ok blake3 (recs p) \<and>
         (torn_image blake3 c (recs p) \<or>
          sealed_image blake3 c (recs p) \<and> sidecar_ok crc32 (map_of sidecars p) p (recs p))))"

definition recovered_hashes ::
  "(bytes \<Rightarrow> u32) \<Rightarrow> (pack_id \<Rightarrow> (page_hash \<times> bytes) list) \<Rightarrow>
     (pack_id \<times> bytes) list \<Rightarrow> (pack_id \<times> bytes) list \<Rightarrow> page_hash set" where
  "recovered_hashes crc32 recs files sidecars =
     (\<Union>(p, c) \<in> set files.
        if length c < PACK_HEADER_SIZE then {}
        else if is_pack_sealed (Some c) then indexed_hashes crc32 (map_of sidecars p) (recs p)
        else fst ` set (recs p))"

lemma recovered_store_inv:
  assumes ok: "rv_ok blake3 recs D rv"
    and log: "pack_log w hdr (raw_recs ps)" "list_all (page_ok blake3) ps" "pw_max_bytes w < usize_limit"
    and act: "pid \<in> fst ` set (rv_files rv) \<Longrightarrow>
      map_of (rv_files rv) pid = Some (pw_file w) \<and> pw_write_buf w = []"
    and st: "ps_files st = AList.delete pid (rv_files rv)" "ps_index st = rv_index rv" "ps_writer st = w"
      "ps_pack_id st = pid" "lru_entries (ps_cache st) = []"
    and ids: "\<forall>p \<in> insert pid (fst ` set (rv_files rv)). p < ps_next_pack_id st"
  shows "store_inv blake3 st"
proof -
  have d: "distinct (map fst (rv_files rv))" "index_inv (rv_index rv)"
    using ok by (simp_all add: rv_ok_def)
  have logical: "logical_file st p = map_of (rv_files rv) p" if "p \<in> fst ` set (rv_files rv)" for p
    using that act by (cases "p = pid") (simp_all add: logical_file_def st delete_conv')
  have "page_at blake3 st h loc" if "index_get (ps_index st) h = Some loc" for h loc
  proof -
    have l: "loc_pack loc \<in> fst ` set (rv_files rv)" "(h, loc) \<in> set (rec_locs (loc_pack loc) (recs (loc_pack loc)))"
      using that ok by (simp_all add: st rv_ok_def)
    then obtain c where c: "map_of (rv_files rv) (loc_pack loc) = Some c"
      by (metis domIff dom_map_of_conv_image_fst not_None_eq)
    then have "holds_pages c (recs (loc_pack loc))" "pages_ok blake3 (recs (loc_pack loc))"
      using ok by (simp_all add: rv_ok_def)
    from rec_locs_page(2)[OF l(2) this] show ?thesis
      using logical[OF l(1)] c unfolding page_at_def by auto
  qed
  moreover have "magic_ok c" if "(p, c) \<in> set (ps_files st)" for p c
  proof -
    have "(p, c) \<in> set (rv_files rv)"
      using that by (auto simp: st AList.delete_eq)
    then have "map_of (rv_files rv) p = Some c"
      using d(1) by simp
    then show ?thesis
      using ok holds_pages_magic unfolding rv_ok_def by blast
  qed
  moreover have "distinct (map fst (ps_files st))" "fst ` set (ps_files st) = fst ` set (rv_files rv) - {pid}"
    using distinct_delete[OF d(1)] by (simp_all add: st) (auto simp: AList.delete_eq)
  ultimately show ?thesis
    using log d(2) ids unfolding store_inv_def files_ok_def cache_ok_def active_ok_def
    by (auto simp: st)
qed

lemma next_after_max:
  assumes "\<forall>p \<in> set ids. unat (pack_num p) + 1 < 2 ^ 32" "p \<in> set ids"
  shows "p < next_id (Max (set ids))"
proof -
  have "Max (set ids) \<in> set ids"
    using assms(2) by (intro Max_in) auto
  moreover have "p \<le> Max (set ids)"
    using assms(2) by simp
  ultimately show ?thesis
    using assms(1) next_id_greater by (metis order_le_less_trans)
qed

text \<open>After the removal of runts, the packs are split into sealed and torn ones.\<close>

lemma recovery_start:
  assumes dir: "dir_ok blake3 crc32 recs files sidecars"
  defines "rv \<equiv> remove_runts \<lparr>rv_files = files, rv_sidecars = sidecars, rv_index = index_new\<rparr>"
  shows "rv_ok blake3 recs {} rv" "rv_sidecars rv = sidecars"
    and "map_of (rv_files rv) p = Some c \<longleftrightarrow> (p, c) \<in> set files \<and> PACK_HEADER_SIZE \<le> length c"
    and "map_of (rv_files rv) p = Some c \<Longrightarrow> is_pack_sealed (Some c) \<Longrightarrow> sealed_at blake3 crc32 recs rv p"
    and "map_of (rv_files rv) p = Some c \<Longrightarrow> \<not> is_pack_sealed (Some c) \<Longrightarrow> torn_image blake3 c (recs p)"
proof -
  have d: "distinct (map fst (rv_files rv))"
    using dir by (simp add: rv_def remove_runts_def dir_ok_def distinct_map_filter)
  show get: "map_of (rv_files rv) p = Some c \<longleftrightarrow> (p, c) \<in> set files \<and> PACK_HEADER_SIZE \<le> length c" for p c
    using map_of_eq_Some_iff[OF d] by (auto simp: rv_def remove_runts_def)
  have kind: "pages_ok blake3 (recs p) \<and> (torn_image blake3 c (recs p) \<or>
      sealed_image blake3 c (recs p) \<and> sidecar_ok crc32 (map_of sidecars p) p (recs p))"
    if "map_of (rv_files rv) p = Some c" for p c
    using dir that unfolding get dir_ok_def by fastforce
  show sc: "rv_sidecars rv = sidecars"
    by (simp add: rv_def remove_runts_def)
  show "rv_ok blake3 recs {} rv"
    using d kind image_holds unfolding rv_ok_def by (fastforce simp: rv_def remove_runts_def)
  show "sealed_at blake3 crc32 recs rv p" if "map_of (rv_files rv) p = Some c" "is_pack_sealed (Some c)"
    using kind[OF that(1)] that sc by (auto simp: sealed_at_def torn_image_def)
  show "torn_image blake3 c (recs p)" if "map_of (rv_files rv) p = Some c" "\<not> is_pack_sealed (Some c)"
    using kind[OF that(1)] that sealed_image_sealed by blast
qed

lemma recovery_loops:
  assumes ok: "rv_ok blake3 recs {} rv" and S: "distinct S" "\<forall>p \<in> set S. sealed_at blake3 crc32 recs rv p"
    and U: "distinct U" "set S \<inter> set U = {}"
      "\<forall>p \<in> set U. \<exists>c. map_of (rv_files rv) p = Some c \<and> torn_image blake3 c (recs p)"
  shows "\<exists>rv1 rv2. seal_all_but_last blake3 crc32 U rv = (Ok (butlast U), rv1) \<and>
    load_sealed blake3 crc32 (S @ butlast U) rv1 = (Ok (), rv2) \<and>
    rv_ok blake3 recs ((\<Union>p \<in> set S. indexed_hashes crc32 (map_of (rv_sidecars rv) p) (recs p)) \<union>
      (\<Union>p \<in> set (butlast U). fst ` set (recs p))) rv2 \<and>
    dom (map_of (rv_files rv2)) = dom (map_of (rv_files rv)) \<and>
    (\<forall>p. p \<notin> set (butlast U) \<longrightarrow> map_of (rv_files rv2) p = map_of (rv_files rv) p)"
proof -
  let ?B = "\<Union>p \<in> set (butlast U). fst ` set (recs p)"
  obtain rv1 where rv1: "seal_all_but_last blake3 crc32 U rv = (Ok (butlast U), rv1)"
    "rv_ok blake3 recs ?B rv1" "dom (map_of (rv_files rv1)) = dom (map_of (rv_files rv))"
    "\<forall>p. p \<notin> set (butlast U) \<longrightarrow> map_of (rv_files rv1) p = map_of (rv_files rv) p \<and>
       map_of (rv_sidecars rv1) p = map_of (rv_sidecars rv) p"
    "\<forall>p \<in> set (butlast U). sealed_at blake3 crc32 recs rv1 p \<and>
       indexed_hashes crc32 (map_of (rv_sidecars rv1) p) (recs p) = fst ` set (recs p)"
    using seal_all_but_last_ok[OF ok U(1,3), of crc32] by auto
  have nin: "p \<notin> set (butlast U)" if "p \<in> set S" for p
    using that U(2) by (auto dest: in_set_butlastD)
  have "\<forall>p \<in> set (S @ butlast U). sealed_at blake3 crc32 recs rv1 p"
    using S(2) rv1(4,5) nin by (auto simp: sealed_at_def)
  moreover have "distinct (S @ butlast U)"
    using S(1) U(1) nin by (auto simp: distinct_butlast)
  ultimately obtain rv2 where rv2: "load_sealed blake3 crc32 (S @ butlast U) rv1 = (Ok (), rv2)"
    "rv_files rv2 = rv_files rv1"
    "rv_ok blake3 recs (?B \<union> (\<Union>p \<in> set (S @ butlast U). indexed_hashes crc32 (map_of (rv_sidecars rv1) p) (recs p))) rv2"
    using load_sealed_ok[OF rv1(2)] by blast
  have "(\<Union>p \<in> set S. indexed_hashes crc32 (map_of (rv_sidecars rv1) p) (recs p)) =
      (\<Union>p \<in> set S. indexed_hashes crc32 (map_of (rv_sidecars rv) p) (recs p))"
    using rv1(4) nin by (intro SUP_cong) auto
  moreover have "(\<Union>p \<in> set (butlast U). indexed_hashes crc32 (map_of (rv_sidecars rv1) p) (recs p)) = ?B"
    using rv1(5) by (intro SUP_cong) auto
  ultimately have "?B \<union> (\<Union>p \<in> set (S @ butlast U). indexed_hashes crc32 (map_of (rv_sidecars rv1) p) (recs p)) =
      (\<Union>p \<in> set S. indexed_hashes crc32 (map_of (rv_sidecars rv) p) (recs p)) \<union> ?B"
    by (simp only: set_append UN_Un) blast
  then have "rv_ok blake3 recs ((\<Union>p \<in> set S. indexed_hashes crc32 (map_of (rv_sidecars rv) p) (recs p)) \<union> ?B) rv2"
    using rv2(3) by (simp only:)
  then show ?thesis
    using rv1(1,3,4) rv2(1) by (intro exI[of _ rv1] exI[of _ rv2] conjI) (simp_all add: rv2(2))
qed

lemma recovered_split:
  assumes dir: "dir_ok blake3 crc32 recs files sidecars"
  defines "rv \<equiv> remove_runts \<lparr>rv_files = files, rv_sidecars = sidecars, rv_index = index_new\<rparr>"
  shows "recovered_hashes crc32 recs files sidecars =
    (\<Union>p \<in> {p \<in> fst ` set (rv_files rv). is_pack_sealed (map_of (rv_files rv) p)}.
       indexed_hashes crc32 (map_of sidecars p) (recs p)) \<union>
    (\<Union>p \<in> {p \<in> fst ` set (rv_files rv). \<not> is_pack_sealed (map_of (rv_files rv) p)}. fst ` set (recs p))"
proof -
  let ?f = "rv_files rv"
  have d: "distinct (map fst ?f)" and f: "?f = filter (\<lambda>(p, c). \<not> length c < PACK_HEADER_SIZE) files"
    using dir by (simp_all add: rv_def remove_runts_def dir_ok_def distinct_map_filter)
  have "recovered_hashes crc32 recs files sidecars = (\<Union>(p, c) \<in> set ?f.
        if is_pack_sealed (Some c) then indexed_hashes crc32 (map_of sidecars p) (recs p) else fst ` set (recs p))"
    unfolding recovered_hashes_def f by (auto split: if_splits)
  also have "\<dots> = (\<Union>p \<in> fst ` set ?f. if is_pack_sealed (map_of ?f p)
        then indexed_hashes crc32 (map_of sidecars p) (recs p) else fst ` set (recs p))"
  proof -
    have "(case e of (p, c) \<Rightarrow> if is_pack_sealed (Some c) then indexed_hashes crc32 (map_of sidecars p) (recs p)
        else fst ` set (recs p)) = (if is_pack_sealed (map_of ?f (fst e))
        then indexed_hashes crc32 (map_of sidecars (fst e)) (recs (fst e)) else fst ` set (recs (fst e)))"
      if "e \<in> set ?f" for e
    proof -
      obtain p c where e: "e = (p, c)"
        by (cases e)
      then have "map_of ?f p = Some c"
        using that d by simp
      then show ?thesis
        by (simp add: e)
    qed
    then show ?thesis
      unfolding UN_simps(10) by (rule SUP_cong[OF refl])
  qed
  finally show ?thesis
    by (auto split: if_splits)
qed

lemma open_active_ok:
  assumes ok: "rv_ok blake3 recs D rv" and cap: "cap < usize_limit"
    and ids: "set ids = fst ` set (rv_files rv)" "\<forall>p \<in> set ids. unat (pack_num p) + 2 < 2 ^ 32" "sorted ids"
    and act: "\<And>p. active = Some p \<Longrightarrow> \<exists>c. map_of (rv_files rv) p = Some c \<and> torn_image blake3 c (recs p)"
  shows "\<exists>w pid new rv' hdr ps. open_active blake3 now cap ids active rv = (Ok (w, pid, new), rv') \<and>
    rv_ok blake3 recs (D \<union> (case active of None \<Rightarrow> {} | Some p \<Rightarrow> fst ` set (recs p))) rv' \<and>
    pack_log w hdr (raw_recs ps) \<and> list_all (page_ok blake3) ps \<and> pw_max_bytes w < usize_limit \<and>
    (pid \<in> fst ` set (rv_files rv') \<longrightarrow> map_of (rv_files rv') pid = Some (pw_file w) \<and> pw_write_buf w = []) \<and>
    (let ids' = (if new then ids @ [pid] else ids) in ids' \<noteq> [] \<and>
      (\<forall>p \<in> insert pid (fst ` set (rv_files rv')). p < next_id (Max (set ids'))))"
proof (cases active)
  case (Some p)
  obtain c where c: "map_of (rv_files rv) p = Some c" "torn_image blake3 c (recs p)"
    using act[OF Some] by blast
  obtain w hdr rv' where w: "reopen_pack_for_append blake3 p rv = (Ok w, rv')"
    "rv_ok blake3 recs (D \<union> fst ` set (recs p)) rv'" "pack_log w hdr (raw_recs (recs p))"
    "pw_write_buf w = []" "pw_max_bytes w = PACK_MAX_BYTES"
    "map_of (rv_files rv') = (map_of (rv_files rv))(p \<mapsto> pw_file w)"
    using reopen_for_append_ok[OF ok c] by blast
  have dom: "insert p (fst ` set (rv_files rv')) = set ids"
    using c(1) w(6) ids(1) by (metis (no_types, lifting) domI dom_fun_upd dom_map_of_conv_image_fst
        insert_absorb insert_absorb2 option.distinct(1))
  have "list_all (page_ok blake3) (recs p)"
    using ok c(1) by (auto simp: rv_ok_def pages_ok_def)
  moreover have "\<forall>q \<in> set ids. unat (pack_num q) + 1 < 2 ^ 32"
    using ids(2) by auto
  then have "q < next_id (Max (set ids))" if "q \<in> insert p (fst ` set (rv_files rv'))" for q
    using that next_after_max unfolding dom by blast
  moreover have "ids \<noteq> []" "PACK_MAX_BYTES < usize_limit"
    using dom by (auto simp: PACK_MAX_BYTES_def usize_limit_def)
  ultimately show ?thesis
    using w Some by (intro exI[of _ w] exI[of _ p] exI[of _ False] exI[of _ rv'] exI[of _ hdr] exI[of _ "recs p"])
      (simp add: open_active_def sbind_Ok sreturn_def)
next
  case None
  define pid where "pid = (if ids = [] then PackId 0 else next_id (last ids))"
  have small: "\<forall>p \<in> set (ids @ [pid]). unat (pack_num p) + 1 < 2 ^ 32"
  proof -
    have "unat (pack_num (last ids)) + 2 < 2 ^ 32" if "ids \<noteq> []"
      using that ids(2) by simp
    then have "unat (pack_num pid) + 1 < 2 ^ 32"
      using unat_pack_next[of "last ids"] by (auto simp: pid_def)
    then show ?thesis
      using ids(2) by auto
  qed
  have "q < pid" if q: "q \<in> set ids" for q
  proof -
    have ne: "ids \<noteq> []"
      using q by auto
    moreover obtain i where "i < length ids" "q = ids ! i"
      using q by (auto simp: in_set_conv_nth)
    then have "q \<le> last ids"
      using sorted_nth_mono[OF ids(3), of i "length ids - 1"] by (simp add: last_conv_nth[OF ne])
    moreover have "last ids < pid"
      using small ids(2)[rule_format, OF last_in_set[OF ne]] ne by (simp add: pid_def next_id_greater)
    ultimately show ?thesis
      by simp
  qed
  then have fresh: "pid \<notin> fst ` set (rv_files rv)"
    unfolding ids(1)[symmetric] by blast
  then obtain w where w: "create_with_max_bytes (map_of (rv_files rv) pid) pid now cap = Ok w"
    by (simp add: create_with_max_bytes_def map_of_eq_None_iff[THEN iffD2])
  note log = create_pack_log[OF w]
  have "q < next_id (Max (set (ids @ [pid])))" if "q \<in> insert pid (fst ` set (rv_files rv))" for q
    using next_after_max[OF small, of q] that ids(1) by auto
  then show ?thesis
    using w None log ok fresh cap
    by (intro exI[of _ w] exI[of _ pid] exI[of _ True] exI[of _ rv] exI[of _ "pack_header pid now"] exI[of _ "[]"])
      (simp add: open_active_def Let_def pid_def[symmetric])
qed

lemma open_store_ok:
  assumes dir: "dir_ok blake3 crc32 recs files sidecars" and cap: "so_max_pack_bytes opts < usize_limit"
  shows "\<exists>st. open_store blake3 crc32 now opts files sidecars = Ok st \<and> store_inv blake3 st \<and>
    dom (index_get (ps_index st)) = recovered_hashes crc32 recs files sidecars \<and>
    ps_max_pack_bytes st = so_max_pack_bytes opts"
proof -
  define rv where "rv = remove_runts \<lparr>rv_files = files, rv_sidecars = sidecars, rv_index = index_new\<rparr>"
  note start = recovery_start[OF dir, folded rv_def]
  let ?ids = "sort (map fst (rv_files rv))"
  define S where "S = filter (\<lambda>p. is_pack_sealed (map_of (rv_files rv) p)) ?ids"
  define U where "U = sort (filter (\<lambda>p. \<not> is_pack_sealed (map_of (rv_files rv) p)) ?ids)"
  have d: "distinct (map fst (rv_files rv))"
    using start(1) by (simp add: rv_ok_def)
  have found: "\<exists>c. map_of (rv_files rv) p = Some c" if "p \<in> fst ` set (rv_files rv)" for p
    using that by (metis domIff dom_map_of_conv_image_fst not_None_eq)
  have S: "distinct S" "set S = {p \<in> fst ` set (rv_files rv). is_pack_sealed (map_of (rv_files rv) p)}"
    and U: "distinct U" "set U = {p \<in> fst ` set (rv_files rv). \<not> is_pack_sealed (map_of (rv_files rv) p)}"
    using d by (auto simp: S_def U_def)
  have Sok: "\<forall>p \<in> set S. sealed_at blake3 crc32 recs rv p"
    using found start(4) by (fastforce simp: S(2))
  have Uok: "\<forall>p \<in> set U. \<exists>c. map_of (rv_files rv) p = Some c \<and> torn_image blake3 c (recs p)"
    using found start(5) by (fastforce simp: U(2))
  have "set S \<inter> set U = {}"
    by (auto simp: S(2) U(2))
  from recovery_loops[OF start(1) S(1) Sok U(1) this Uok] obtain rv1 rv2 where
    run: "seal_all_but_last blake3 crc32 U rv = (Ok (butlast U), rv1)"
      "load_sealed blake3 crc32 (S @ butlast U) rv1 = (Ok (), rv2)"
    and rv2: "rv_ok blake3 recs ((\<Union>p \<in> set S. indexed_hashes crc32 (map_of sidecars p) (recs p)) \<union>
        (\<Union>p \<in> set (butlast U). fst ` set (recs p))) rv2"
      "dom (map_of (rv_files rv2)) = dom (map_of (rv_files rv))"
      "\<forall>p. p \<notin> set (butlast U) \<longrightarrow> map_of (rv_files rv2) p = map_of (rv_files rv) p"
    unfolding start(2) by blast
  have keys: "fst ` set (rv_files rv2) = fst ` set (rv_files rv)"
    using rv2(2) by (simp add: dom_map_of_conv_image_fst)
  define active where "active = (if U = [] then None else Some (last U))"
  have act: "\<exists>c. map_of (rv_files rv2) p = Some c \<and> torn_image blake3 c (recs p)" if "active = Some p" for p
  proof -
    have p: "p = last U" "U \<noteq> []"
      using that by (auto simp: active_def split: if_splits)
    then have "p \<notin> set (butlast U)"
      using U(1) by (metis append_butlast_last_id distinct_append disjoint_insert(1) list.simps(15))
    then show ?thesis
      using rv2(3) Uok p by auto
  qed
  have ids2: "\<forall>p \<in> set ?ids. unat (pack_num p) + 2 < 2 ^ 32"
    using dir by (auto simp: rv_def remove_runts_def dir_ok_def)
  have ids1: "set ?ids = fst ` set (rv_files rv2)" "sorted ?ids"
    by (simp_all add: keys)
  obtain w pid new rv3 hdr ps where
    op: "open_active blake3 now (so_max_pack_bytes opts) ?ids active rv2 = (Ok (w, pid, new), rv3)"
    and rv3: "rv_ok blake3 recs ((\<Union>p \<in> set S. indexed_hashes crc32 (map_of sidecars p) (recs p)) \<union>
        (\<Union>p \<in> set (butlast U). fst ` set (recs p)) \<union> (case active of None \<Rightarrow> {} | Some p \<Rightarrow> fst ` set (recs p))) rv3"
    and log: "pack_log w hdr (raw_recs ps)" "list_all (page_ok blake3) ps" "pw_max_bytes w < usize_limit"
    and pid: "pid \<in> fst ` set (rv_files rv3) \<longrightarrow> map_of (rv_files rv3) pid = Some (pw_file w) \<and> pw_write_buf w = []"
    and ids: "let ids' = (if new then ?ids @ [pid] else ?ids) in ids' \<noteq> [] \<and>
      (\<forall>p \<in> insert pid (fst ` set (rv_files rv3)). p < next_id (Max (set ids')))"
    using open_active_ok[OF rv2(1) cap ids1(1) ids2 ids1(2) act, where now = now] by blast
  have "set U = (case active of None \<Rightarrow> {} | Some p \<Rightarrow> {p}) \<union> set (butlast U)"
    by (cases U rule: rev_cases) (auto simp: active_def)
  then have cover: "dom (index_get (rv_index rv3)) = recovered_hashes crc32 recs files sidecars"
    using rv3 unfolding recovered_split[OF dir, folded rv_def] S(2)[symmetric] U(2)[symmetric]
    by (auto simp: rv_ok_def split: option.splits)
  define st where "st = \<lparr>ps_files = AList.delete pid (rv_files rv3), ps_sidecars = rv_sidecars rv3,
      ps_index = rv_index rv3, ps_writer = w, ps_pack_id = pid, ps_dirty = [], ps_new_files = new,
      ps_next_pack_id = next_id (Max (set (if new then ?ids @ [pid] else ?ids))),
      ps_max_pack_bytes = so_max_pack_bytes opts, ps_cache = cache_new (so_read_handle_cap opts)\<rparr>"
  have "store_inv blake3 st"
    by (rule recovered_store_inv[OF rv3 log, of pid]) (use pid ids in \<open>auto simp: st_def cache_new_def lru_new_def Let_def\<close>)
  moreover have "open_store blake3 crc32 now opts files sidecars = Ok st"
    using run op ids unfolding open_store_def rv_def[symmetric] Let_def S_def[symmetric] U_def[symmetric] active_def[symmetric]
    by (simp add: sbind_Ok st_def)
  ultimately show ?thesis
    using cover by (intro exI[of _ st]) (simp add: st_def)
qed

section \<open>Properties\<close>

definition demo_opts :: store_options where
  "demo_opts = \<lparr>so_write_buf_size = 4096, so_max_pack_bytes = 10000, so_read_handle_cap = 4\<rparr>"

lemma demo_opts_simps [simp]: "so_max_pack_bytes demo_opts = 10000" "so_read_handle_cap demo_opts = 4"
  by (simp_all add: demo_opts_def)

lemma len_10000 [simp]: "10000 < usize_limit"
  by (simp add: usize_limit_def)

lemma header_not_sealed: "pack_header_ok hdr \<Longrightarrow> \<not> is_pack_sealed (Some hdr)"
  by (simp add: is_pack_sealed_def open_sealed_def pack_header_ok_def read_exact_at_def pack_consts
      split: outcome.splits)

lemma header_torn: "torn_image blake3 (pack_header p t) []"
  using header_not_sealed[of "pack_header p t"] pack_header_ok_header[of p t] unfolding torn_image_def
  by (metis append_Nil2 concat.simps(1) list.simps(8))

text \<open>A directory with a sealed pack of one page and no sidecar, an empty active pack, and a runt.\<close>

definition demo_files :: "(pack_id \<times> bytes) list" where
  "demo_files =
     [(PackId 1, pack_header (PackId 1) 0 @ enc_all (raw_recs [(PageHash 4096, zero_page)]) @ pack_footer 1 0),
      (PackId 2, pack_header (PackId 2) 0), (PackId 3, [])]"

definition demo_recs :: "pack_id \<Rightarrow> (page_hash \<times> bytes) list" where
  "demo_recs p = (if p = PackId 1 then [(PageHash 4096, zero_page)] else [])"

lemma demo_sealed:
  "sealed_image len_hash (pack_header (PackId 1) 0 @ enc_all (raw_recs [(PageHash 4096, zero_page)]) @ pack_footer 1 0)
     [(PageHash 4096, zero_page)]"
  unfolding sealed_image_def using pack_header_ok_header[of "PackId 1" 0] by (metis One_nat_def length_0_conv length_Cons)

lemma demo_pages_ok: "pages_ok len_hash (demo_recs p)"
  using zero_page_ok by (simp add: pages_ok_def demo_recs_def)

lemma demo_dir: "dir_ok len_hash (\<lambda>_. 7) demo_recs demo_files []"
  using demo_sealed header_torn[of len_hash "PackId 2" 0] demo_pages_ok
  by (simp add: dir_ok_def demo_files_def demo_recs_def sidecar_ok_def sidecar_decode_def PACK_HEADER_SIZE_def)

lemma demo_recovered: "recovered_hashes (\<lambda>_. 7) demo_recs demo_files [] = {PageHash 4096}"
proof -
  have "is_pack_sealed (Some (pack_header (PackId 1) 0 @ enc_all (raw_recs [(PageHash 4096, zero_page)]) @ pack_footer 1 0))"
    using sealed_image_sealed[OF demo_sealed] demo_pages_ok[of "PackId 1"] by (simp add: demo_recs_def)
  moreover have "length (pack_header p t) = PACK_HEADER_SIZE" for p t
    using pack_header_ok_header[of p t] by (simp add: pack_header_ok_def)
  ultimately show ?thesis
    using header_not_sealed[of "pack_header (PackId 2) 0"]
    by (simp add: recovered_hashes_def demo_files_def demo_recs_def indexed_hashes_def sidecar_decode_def
        PACK_HEADER_SIZE_def)
qed



lemma demo_store:
  "\<exists>st. open_store len_hash (\<lambda>_. 7) 0 demo_opts [] [] = Ok st \<and> store_inv len_hash st \<and>
     dom (index_get (ps_index st)) = {} \<and> room_for 2 st \<and> ps_files st = [] \<and> ps_pack_id st = PackId 0"
  using open_store_ok[of len_hash "\<lambda>_. 7" "\<lambda>_. []" "[]" "[]" demo_opts 0]
  by (auto simp: dir_ok_def recovered_hashes_def open_store_def remove_runts_def Let_def sbind_def
      open_active_def create_with_max_bytes_def room_for_def pack_consts PAGE_SIZE_def)

text \<open>C14: Ingesting a batch of pages stores every one of them: the store stays in order, nothing
  stored before is lost or moved, the outcome of each page has its hash and its location in the
  index, the index gains exactly the hashes of the batch, and each new hash is reported as newly
  written at exactly one position, whose bytes are the ones stored.  This holds for every
  iteration order of the deduplication map.\<close>

theorem ingest_stores_every_page:
  assumes "store_inv blake3 st" "room_for (length pages) st" "\<forall>p \<in> set pages. length p = PAGE_SIZE"
    "\<And>es. mset (order es) = mset es"
  shows "\<exists>outs st'. ingest blake3 crc32 order now pages st = (Ok outs, st') \<and> store_inv blake3 st' \<and>
    grows st st' \<and> ingest_done blake3 pages st st' outs"
  by (rule ingest_ok[OF assms])

theorem ingest_stores_every_page_witness:
  "\<exists>st outs st'. open_store len_hash (\<lambda>_. 7) 0 demo_opts [] [] = Ok st \<and>
     ingest len_hash (\<lambda>_. 7) id 0 [zero_page, zero_page] st = (Ok outs, st') \<and>
     ingest_done len_hash [zero_page, zero_page] st st' outs"
proof -
  obtain st where st: "open_store len_hash (\<lambda>_. 7) 0 demo_opts [] [] = Ok st" "store_inv len_hash st" "room_for 2 st"
    using demo_store by blast
  then have "room_for (length [zero_page, zero_page]) st"
    by (simp add: numeral_2_eq_2)
  then show ?thesis
    using ingest_stores_every_page[OF st(2), of "[zero_page, zero_page]" id "\<lambda>_. 7" 0] st(1)
    by (simp add: zero_page_def) blast
qed

text \<open>C15: A batched read of any hashes, in any order and with repetitions, answers each with the
  stored page or with nothing if the hash is not indexed, and a page it returns has the requested
  hash; the store is unchanged but for flushed buffers and cached handles.\<close>

theorem get_batch_answers:
  assumes "store_inv blake3 st"
  shows "\<exists>st'. get_batch blake3 hashes st = (Ok (map (stored_page blake3 st) hashes), st') \<and>
    store_inv blake3 st' \<and> same_store st st' \<and>
    (\<forall>h p. stored_page blake3 st h = Some p \<longrightarrow> h = PageHash (blake3 p) \<and> length p = PAGE_SIZE) \<and>
    (\<forall>h. stored_page blake3 st h = None \<longleftrightarrow> h \<notin> dom (index_get (ps_index st)))"
  using get_batch_ok[OF assms, of hashes] stored_page_hash[OF assms]
  by (fastforce simp: stored_page_def)

theorem get_batch_answers_witness:
  "\<exists>st st'. open_store len_hash (\<lambda>_. 7) 0 demo_opts [] [] = Ok st \<and>
     get_batch len_hash [PageHash 5] st = (Ok [None], st')"
proof -
  obtain st where st: "open_store len_hash (\<lambda>_. 7) 0 demo_opts [] [] = Ok st" "store_inv len_hash st"
    "dom (index_get (ps_index st)) = {}"
    using demo_store by blast
  then show ?thesis
    using get_batch_answers[OF st(2), of "[PageHash 5]"] by auto
qed

text \<open>C16: What is ingested can be read back: after an ingest, a batched read of the hashes of the
  batch returns a page of that hash for every position, the very bytes wherever the outcome says
  the page was newly written, and every page readable before is still read with the same
  bytes.\<close>

theorem ingest_then_get:
  assumes inv: "store_inv blake3 st" and room: "room_for (length pages) st"
    and sizes: "\<forall>p \<in> set pages. length p = PAGE_SIZE" and order: "\<And>es. mset (order es) = mset es"
  shows "\<exists>outs st' rs st''. ingest blake3 crc32 order now pages st = (Ok outs, st') \<and>
    get_batch blake3 (map io_hash outs) st' = (Ok rs, st'') \<and> length rs = length pages \<and>
    (\<forall>i < length pages. \<exists>p. rs ! i = Some p \<and> blake3 p = blake3 (pages ! i) \<and>
       (io_newly_written (outs ! i) \<longrightarrow> p = pages ! i)) \<and>
    (\<forall>h p. stored_page blake3 st h = Some p \<longrightarrow> stored_page blake3 st' h = Some p)"
proof -
  obtain outs st' where run: "ingest blake3 crc32 order now pages st = (Ok outs, st')"
    and st': "store_inv blake3 st'" "grows st st'" and done1: "ingest_done blake3 pages st st' outs"
    using ingest_ok[OF inv room sizes order] by blast
  obtain st'' where get: "get_batch blake3 (map io_hash outs) st' =
      (Ok (map (stored_page blake3 st') (map io_hash outs)), st'')"
    using get_batch_ok[OF st'(1)] by blast
  have len: "length outs = length pages"
    using done1 by (simp add: ingest_done_def)
  have "\<exists>p. stored_page blake3 st' (io_hash (outs ! i)) = Some p \<and> blake3 p = blake3 (pages ! i) \<and>
      (io_newly_written (outs ! i) \<longrightarrow> p = pages ! i)" if "i < length pages" for i
  proof -
    let ?h = "hash_of blake3 (pages ! i)"
    have o: "io_hash (outs ! i) = ?h" "index_get (ps_index st') ?h = Some (io_loc (outs ! i))"
      "io_newly_written (outs ! i) \<longrightarrow> stored_page blake3 st' ?h = Some (pages ! i)"
      using done1 that by (simp_all add: ingest_done_def)
    obtain p where p: "stored_page blake3 st' ?h = Some p"
      using o(2) by (simp add: stored_page_def)
    then show ?thesis
      using stored_page_hash[OF st'(1) p] o by auto
  qed
  then show ?thesis
    using run get len grows_stored_page[OF st'(2) inv]
    by (intro exI[of _ outs] exI[of _ st'] exI[of _ "map (stored_page blake3 st') (map io_hash outs)"] exI[of _ st''])
      simp
qed

theorem ingest_then_get_witness:
  "\<exists>st outs st' rs st''. open_store len_hash (\<lambda>_. 7) 0 demo_opts [] [] = Ok st \<and>
     ingest len_hash (\<lambda>_. 7) rev 0 [zero_page] st = (Ok outs, st') \<and>
     get_batch len_hash (map io_hash outs) st' = (Ok rs, st'') \<and> length rs = 1"
proof -
  obtain st where st: "open_store len_hash (\<lambda>_. 7) 0 demo_opts [] [] = Ok st" "store_inv len_hash st" "room_for 2 st"
    using demo_store by blast
  then have "room_for (length [zero_page]) st"
    by (simp add: room_for_def)
  then show ?thesis
    using ingest_then_get[OF st(2), of "[zero_page]" rev "\<lambda>_. 7" 0] st(1) by (simp add: zero_page_def) blast
qed



section \<open>A torn pack that looks sealed\<close>

text \<open>A page whose first bytes are a footer for an empty pack, and the first record of a pack cut
  after those bytes.\<close>

definition forged_page :: bytes where
  "forged_page = pack_footer 0 0 @ replicate (PAGE_SIZE - PACK_FOOTER_SIZE) 0"

definition forged_pack :: "(bytes \<Rightarrow> hash32) \<Rightarrow> bytes" where
  "forged_pack blake3 =
     pack_header (PackId 1) 0 @ take 81 (encode_record (PageHash (blake3 forged_page)) 1 forged_page)"

lemma length_forged_page [simp]: "length forged_page = 4096"
  by (simp add: forged_page_def PAGE_SIZE_def pack_consts)

lemma forged_pack_split:
  "forged_pack blake3 = pack_header (PackId 1) 0 @ take 37 (encode_record (PageHash (blake3 forged_page)) 1 forged_page)
     @ pack_footer 0 0"
proof -
  have "take 81 (encode_record h 1 forged_page) = take 37 (encode_record h 1 forged_page) @ pack_footer 0 0" for h
    using take_add[of 37 44 "encode_record h 1 forged_page"] by (simp add: forged_page_def)
  then show ?thesis
    by (simp add: forged_pack_def)
qed

lemma forged_pack_open:
  "open_sealed (Some (forged_pack blake3)) pid =
     Ok \<lparr>pr_file = forged_pack blake3, pr_pack_id = pid, pr_body_end = Some 57\<rparr>"
  "scan_records (forged_pack blake3) 57 20 = Ok [(20, PageHash (blake3 forged_page))]"
  "read_at_from_file blake3 (forged_pack blake3) 20 (PageHash (blake3 forged_page)) = Err (PkTruncatedRecord 20)"
proof -
  let ?f = "forged_pack blake3" and ?h = "PageHash (blake3 forged_page)"
  let ?hdr = "pack_header (PackId 1) 0" and ?r = "take 37 (encode_record (PageHash (blake3 forged_page)) 1 forged_page)"
  have hdr: "length ?hdr = 20" "take 4 ?hdr = PACK_MAGIC"
    using pack_header_ok_header[of "PackId 1" 0] by (simp_all add: pack_header_ok_def PACK_HEADER_SIZE_def)
  have len: "length ?f = 101"
    by (simp add: forged_pack_split hdr)
  have foot: "take 44 (drop 57 ?f) = pack_footer 0 0"
    by (simp add: forged_pack_split hdr)
  have rl: "rec_len ?f 20 = 4096"
  proof -
    have "take 4 (drop 53 ?f) = take 4 (drop 33 (encode_record ?h 1 forged_page))"
      by (simp add: forged_pack_def hdr drop_take)
    then show ?thesis
      using rec_len_enc[of forged_page ?h 1 "[]"] by (simp add: rec_len_def)
  qed
  have count: "count_records_in_file ?f 57 = Ok 0"
    unfolding count_records_in_file_def by (subst count_records.simps) (simp add: pack_consts rl len read_exact_at_def)
  have footer: "take 4 (pack_footer 0 0) = FOOTER_MAGIC" "unat (from_le_bytes (take 8 (drop 4 (pack_footer 0 0))) :: u64) = 0"
    by (simp_all add: pack_footer_def FOOTER_MAGIC_def le_codec)
  have magic: "take 4 ?f = PACK_MAGIC"
    by (simp add: forged_pack_split hdr)
  show "open_sealed (Some ?f) pid = Ok \<lparr>pr_file = ?f, pr_pack_id = pid, pr_body_end = Some 57\<rparr>"
    using count foot footer by (simp add: open_sealed_def read_exact_at_def len magic pack_consts Let_def)
  have "take 32 (drop 20 ?f) = page_hash_as_bytes ?h"
    by (simp add: forged_pack_split hdr)
  moreover have "scan_records ?f 57 4153 = Ok []"
    by (subst scan_records.simps) simp
  ultimately show "scan_records ?f 57 20 = Ok [(20, ?h)]"
    by (subst scan_records.simps) (simp add: pack_consts rl len read_exact_at_def le_codec page_hash_from_bytes_def)
  show "read_at_from_file blake3 ?f 20 ?h = Err (PkTruncatedRecord 20)"
    by (simp add: read_at_from_file_def read_exact_at_def len pack_consts PAGE_SIZE_def)
qed

text \<open>C18: The test for a sealed pack can be deceived: a pack torn inside its first record, whose page
  begins with the bytes of a footer, is taken for sealed; opening the store then indexes the
  torn page although reading it fails, so a later ingest of that page is answered as a
  duplicate.  No hash function prevents it, since the body hash of the footer is not
  compared.\<close>

theorem torn_pack_taken_for_sealed:
  "\<exists>st. open_store blake3 crc32 now demo_opts [(PackId 1, forged_pack blake3)] [] = Ok st \<and>
    index_get (ps_index st) (PageHash (blake3 forged_page)) = Some (loc_at (PackId 1) 20) \<and>
    fst (get_batch blake3 [PageHash (blake3 forged_page)] st) = Err (StPack (PkTruncatedRecord 20)) \<and>
    fst (ingest blake3 crc32 id now [forged_page] st) =
      Ok [outcome_of (PageHash (blake3 forged_page)) (loc_at (PackId 1) 20) False]"
proof -
  let ?h = "PageHash (blake3 forged_page)" and ?f = "forged_pack blake3" and ?l = "loc_at (PackId 1) 20"
  have hdr: "length (pack_header (PackId 1) 0) = 20" "take 4 ?f = PACK_MAGIC"
    using pack_header_ok_header[of "PackId 1" 0] by (simp_all add: pack_header_ok_def PACK_HEADER_SIZE_def forged_pack_def)
  have len: "length ?f = 101"
    by (simp add: forged_pack_split hdr)
  have sealed: "is_pack_sealed (Some ?f)"
    by (simp add: is_pack_sealed_def forged_pack_open)
  have rebuild: "rebuild_from_pack blake3 (Some ?f) (PackId 1) True = Ok [(?h, ?l)]"
    by (simp add: rebuild_from_pack_def forged_pack_open pack_scan_def PACK_HEADER_SIZE_def loc_at_def)
  have get: "index_get (insert_batch index_new [(?h, ?l)]) ?h = Some ?l"
    by (simp add: insert_batch_eq sharded.lookup_ins)
  obtain w where w: "create_with_max_bytes None (PackId 2) now 10000 = Ok w"
    by (simp add: create_with_max_bytes_def)
  define st where "st = \<lparr>ps_files = [(PackId 1, ?f)],
      ps_sidecars = [(PackId 1, write_sidecar_entries crc32 [(?h, ?l)])],
      ps_index = insert_batch index_new [(?h, ?l)], ps_writer = w, ps_pack_id = PackId 2, ps_dirty = [],
      ps_new_files = True, ps_next_pack_id = PackId 3, ps_max_pack_bytes = 10000, ps_cache = cache_new 4\<rparr>"
  have "open_store blake3 crc32 now demo_opts [(PackId 1, ?f)] [] = Ok st"
    using w by (simp add: open_store_def remove_runts_def len sealed Let_def sbind_def load_sidecar_def sidecar_decode_def
        rebuild open_active_def st_def PACK_HEADER_SIZE_def
        max_def less_eq_pack_id_def)
  moreover have "fst (get_batch blake3 [?h] st) = Err (StPack (PkTruncatedRecord 20))"
    using get hdr(2) len
    by (simp add: get_batch_def resolve_lookups_def st_def read_lookups_def Let_def lk_loc_def loc_at_def sbind_def
        read_group_def get_or_open_def lru_get_def cache_new_def lru_new_def open_sealed_fast_def file_at_def
        read_exact_at_def forged_pack_open(3) split: prod.splits outcome.splits)
  moreover have "fst (ingest blake3 crc32 id now [forged_page] st) = Ok [outcome_of ?h ?l False]"
    using get by (simp add: ingest_def st_def sbind_def)
  ultimately show ?thesis
    using get by (intro exI[of _ st]) (simp add: st_def)
qed

end
