(* ===== verification/Snapshot_Store.thy ===== *)
theory Snapshot_Store
  imports Flatten Page_Open
begin

text \<open>
  The snapshot store (\<^verbatim>\<open>crates/snapstore-store/src/lib.rs\<close>): a page store and a directory of
  manifest files, one per snapshot reference.  The path of a manifest is a function of its
  reference (\<open>ref_to_hex\<close>, shown to be injective), so the directory is a finite map from
  references to file contents, and \<open>tmp/\<close> is another.  Locks are implicit: every
  definition is one critical section of the source, and the commit gate is the atomicity of
  \<open>put_snapshot\<close> and \<open>register_live_ref\<close>.  BLAKE3, zstd and the clock are parameters.
\<close>

section \<open>State\<close>

datatype snap_error =
    SnIo io_kind
  | SnPageStore store_error
  | SnManifest manifest_error
  | SnNotFound
  | SnManifestCorrupt
  | SnMissingPage Snap_Types.page_hash
  | SnChainDepthExceeded
  | SnBaselineNotAncestor
  | SnFlatten flatten_error

text \<open>\<open>PutOther\<close> is the \<open>Io\<close> variant made with \<open>std::io::Error::other\<close> from a read error.\<close>

datatype put_error =
    PutManifest manifest_error
  | PutUnknownParent snapshot_ref
  | PutParentRamMismatch
  | PutMissingPages "Snap_Types.page_hash list"
  | PutIo io_kind
  | PutOther snap_error
  | PutPageStore store_error

record group_commit =
  gc_pending_gen :: nat
  gc_completed_gen :: nat
  gc_flushing :: bool

record flatten_cache =
  fc_cap :: nat
  fc_entries :: "(snapshot_ref \<times> manifest_entry list) list"

record snapshot_store =
  ss_pages :: page_store
  ss_manifests :: "(snapshot_ref \<times> bytes) list"
  ss_tmp :: "(snapshot_ref \<times> bytes) list"
  ss_gc :: group_commit
  ss_epoch :: "snapshot_ref list option"
  ss_flatten :: flatten_cache
  ss_manifests_total :: u64
  ss_logical_page_bytes :: u64

type_synonym ('e, 'a) snap_op = "(snapshot_store, 'e, 'a) op"

definition MAX_CHAIN :: nat where
  "MAX_CHAIN = 4096"

text \<open>An operation of the page store, run on the store's pages.\<close>

definition on_pages :: "'a store_op \<Rightarrow> (store_error, 'a) snap_op" where
  "on_pages f st = (let (r, ps) = f (ss_pages st) in (r, st\<lparr>ss_pages := ps\<rparr>))"

section \<open>File names\<close>

definition hex_digit :: "nat \<Rightarrow> byte" where
  "hex_digit n = (if n < 10 then of_nat (48 + n) else of_nat (87 + n))"

definition ref_to_hex :: "snapshot_ref \<Rightarrow> bytes" where
  "ref_to_hex r =
     concat (map (\<lambda>b. [hex_digit (unat b div 16), hex_digit (unat b mod 16)]) (snapshot_ref_to_bytes r))"

definition hex_nibble :: "byte \<Rightarrow> byte option" where
  "hex_nibble b =
     (if 48 \<le> b \<and> b \<le> 57 then Some (b - 48)
      else if 97 \<le> b \<and> b \<le> 102 then Some (b - 97 + 10)
      else if 65 \<le> b \<and> b \<le> 70 then Some (b - 65 + 10)
      else None)"

fun hex_pairs :: "bytes \<Rightarrow> bytes option" where
  "hex_pairs (a # b # cs) =
     Option.bind (hex_nibble a) (\<lambda>hi.
     Option.bind (hex_nibble b) (\<lambda>lo.
     Option.bind (hex_pairs cs) (\<lambda>out. Some ((push_bit 4 hi OR lo) # out))))"
| "hex_pairs [] = Some []"
| "hex_pairs [a] = None"

definition hex_to_32 :: "bytes \<Rightarrow> bytes option" where
  "hex_to_32 hex = (if length hex \<noteq> 64 then None else hex_pairs hex)"

section \<open>The durability barrier\<close>

definition group_commit_new :: group_commit where
  "group_commit_new = \<lparr>gc_pending_gen = 0, gc_completed_gen = 0, gc_flushing = False\<rparr>"

text \<open>\<open>barrier\<close> as one uninterrupted call (no other flusher): the caller flushes unless its
  generation is already covered.\<close>

definition barrier :: "(store_error, 'a) snap_op \<Rightarrow> (store_error, unit) snap_op" where
  "barrier sync_fn st =
     (let my_gen = gc_pending_gen (ss_gc st) + 1;
          st = st\<lparr>ss_gc := (ss_gc st)\<lparr>gc_pending_gen := my_gen\<rparr>\<rparr>
      in if gc_completed_gen (ss_gc st) \<ge> my_gen then (Ok (), st)
         else
           let flushing_up_to = gc_pending_gen (ss_gc st);
               (result, st) = sync_fn (st\<lparr>ss_gc := (ss_gc st)\<lparr>gc_flushing := True\<rparr>\<rparr>);
               g = ss_gc st;
               g = (case result of
                      Ok _ \<Rightarrow> if flushing_up_to > gc_completed_gen g
                              then g\<lparr>gc_completed_gen := flushing_up_to\<rparr> else g
                    | _ \<Rightarrow> g)
           in (obind result (\<lambda>_. Ok ()), st\<lparr>ss_gc := g\<lparr>gc_flushing := False\<rparr>\<rparr>))"

section \<open>The flatten cache\<close>

definition fc_new :: "nat \<Rightarrow> flatten_cache" where
  "fc_new cap = \<lparr>fc_cap = cap, fc_entries = []\<rparr>"

definition fc_get :: "flatten_cache \<Rightarrow> snapshot_ref \<Rightarrow> manifest_entry list option" where
  "fc_get c r = map_of (fc_entries c) r"

text \<open>Drop the first entry of the key, if any.\<close>

fun drop_first :: "snapshot_ref \<Rightarrow> (snapshot_ref \<times> 'v) list \<Rightarrow> (snapshot_ref \<times> 'v) list" where
  "drop_first r [] = []"
| "drop_first r ((k, v) # es) = (if k = r then es else (k, v) # drop_first r es)"

definition fc_insert :: "flatten_cache \<Rightarrow> snapshot_ref \<Rightarrow> manifest_entry list \<Rightarrow> flatten_cache" where
  "fc_insert c r v =
     (let es = (r, v) # drop_first r (fc_entries c)
      in c\<lparr>fc_entries := (if length es > fc_cap c then butlast es else es)\<rparr>)"

definition fc_remove :: "flatten_cache \<Rightarrow> snapshot_ref \<Rightarrow> flatten_cache" where
  "fc_remove c r = c\<lparr>fc_entries := drop_first r (fc_entries c)\<rparr>"

section \<open>Reading manifests\<close>

definition has_manifest :: "snapshot_store \<Rightarrow> snapshot_ref \<Rightarrow> bool" where
  "has_manifest st r \<longleftrightarrow> map_of (ss_manifests st) r \<noteq> None"

definition list_manifest_refs :: "snapshot_store \<Rightarrow> snapshot_ref list" where
  "list_manifest_refs st = map fst (ss_manifests st)"

definition has_pages :: "snapshot_store \<Rightarrow> Snap_Types.page_hash list \<Rightarrow> bool list" where
  "has_pages st hashes = contains_batch (ss_pages st) hashes"

definition read_manifest_bytes ::
  "(bytes \<Rightarrow> hash32) \<Rightarrow> snapshot_store \<Rightarrow> snapshot_ref \<Rightarrow> (snap_error, bytes) outcome" where
  "read_manifest_bytes blake3 st r =
     (case map_of (ss_manifests st) r of
        None \<Rightarrow> Err SnNotFound
      | Some bs \<Rightarrow>
          if length bs < 32 then Err SnManifestCorrupt
          else if drop (length bs - 32) bs \<noteq> snapshot_ref_to_bytes r then Err SnManifestCorrupt
          else if snapshot_ref_of blake3 bs \<noteq> r then Err SnManifestCorrupt
          else Ok bs)"

definition get_snapshot ::
  "(bytes \<Rightarrow> hash32) \<Rightarrow> snapshot_store \<Rightarrow> snapshot_ref \<Rightarrow> (snap_error, bytes) outcome" where
  "get_snapshot blake3 st r = read_manifest_bytes blake3 st r"

definition read_manifest ::
  "(bytes \<Rightarrow> hash32) \<Rightarrow> (bytes \<Rightarrow> bytes option) \<Rightarrow> snapshot_store \<Rightarrow> snapshot_ref \<Rightarrow>
     (snap_error, manifest) outcome" where
  "read_manifest blake3 zstd st r =
     obind (read_manifest_bytes blake3 st r) (\<lambda>bs. map_err SnManifest (decode blake3 zstd bs))"

text \<open>The walk of \<open>resolve_pages\<close> from a reference to its full root, child first; the first
  argument is how many manifests may still be read.\<close>

fun read_chain ::
  "nat \<Rightarrow> (bytes \<Rightarrow> hash32) \<Rightarrow> (bytes \<Rightarrow> bytes option) \<Rightarrow> snapshot_store \<Rightarrow> snapshot_ref \<Rightarrow>
     (snap_error, (snapshot_ref \<times> manifest) list) outcome" where
  "read_chain 0 blake3 zstd st cursor = Err SnChainDepthExceeded"
| "read_chain (Suc n) blake3 zstd st cursor =
     obind (read_manifest blake3 zstd st cursor) (\<lambda>m.
     if \<not> m_delta m then Ok [(cursor, m)]
     else
       obind (unwrap (m_parent m)) (\<lambda>parent.
       obind (read_chain n blake3 zstd st parent) (\<lambda>chain. Ok ((cursor, m) # chain))))"

text \<open>\<open>validate_closure\<close>, with the remaining depth.\<close>

fun validate_chain ::
  "nat \<Rightarrow> (bytes \<Rightarrow> hash32) \<Rightarrow> (bytes \<Rightarrow> bytes option) \<Rightarrow> snapshot_store \<Rightarrow> snapshot_ref \<Rightarrow>
     (snap_error, unit) outcome" where
  "validate_chain 0 blake3 zstd st cursor = Err SnChainDepthExceeded"
| "validate_chain (Suc n) blake3 zstd st cursor =
     obind (read_manifest blake3 zstd st cursor) (\<lambda>m.
     let hashes = map page_hash (m_entries m);
         present = contains_batch (ss_pages st) hashes
     in case find (\<lambda>(_, ok). \<not> ok) (zip hashes present) of
       Some (h, _) \<Rightarrow> Err (SnMissingPage h)
     | None \<Rightarrow>
         if m_delta m then obind (unwrap (m_parent m)) (validate_chain n blake3 zstd st)
         else Ok ())"

definition validate_closure ::
  "(bytes \<Rightarrow> hash32) \<Rightarrow> (bytes \<Rightarrow> bytes option) \<Rightarrow> snapshot_store \<Rightarrow> snapshot_ref \<Rightarrow>
     (snap_error, unit) outcome" where
  "validate_closure = validate_chain MAX_CHAIN"

section \<open>Live references and the collector's epoch\<close>

definition register_live_ref ::
  "(bytes \<Rightarrow> hash32) \<Rightarrow> (bytes \<Rightarrow> bytes option) \<Rightarrow> snapshot_ref \<Rightarrow> (snap_error, unit) snap_op" where
  "register_live_ref blake3 zstd r st =
     (case ss_epoch st of
        Some late_roots \<Rightarrow>
          let st = st\<lparr>ss_epoch := Some (late_roots @ [r])\<rparr> in (validate_closure blake3 zstd st r, st)
      | None \<Rightarrow> (if has_manifest st r then Ok () else Err SnNotFound, st))"

datatype 'e gc_epoch_error = AlreadyRunning | Roots 'e

text \<open>\<open>begin_gc_epoch\<close>; the argument reads the roots elsewhere and does not touch the store.\<close>

definition end_gc_epoch :: "snapshot_store \<Rightarrow> snapshot_store" where
  "end_gc_epoch st = st\<lparr>ss_epoch := None\<rparr>"

definition begin_gc_epoch ::
  "('e, 'r) outcome \<Rightarrow> ('e gc_epoch_error, pack_id \<times> 'r) snap_op" where
  "begin_gc_epoch snapshot_roots st =
     (let fence_pack = ps_pack_id (ss_pages st)
      in case ss_epoch st of
           Some _ \<Rightarrow> (Err AlreadyRunning, st)
         | None \<Rightarrow>
             let st = st\<lparr>ss_epoch := Some []\<rparr> in
             (case snapshot_roots of
                Ok roots \<Rightarrow> (Ok (fence_pack, roots), st)
              | Err e \<Rightarrow> (Err (Roots e), end_gc_epoch st)
              | Panic \<Rightarrow> (Panic, st)))"

definition drain_late_roots :: "snapshot_store \<Rightarrow> snapshot_ref list \<times> snapshot_store" where
  "drain_late_roots st =
     (case ss_epoch st of
        Some late_roots \<Rightarrow> (late_roots, st\<lparr>ss_epoch := Some []\<rparr>)
      | None \<Rightarrow> ([], st))"

section \<open>Committing a snapshot\<close>

text \<open>Step 2: the parent of a delta is stored and has the same memory size.\<close>

definition check_parent ::
  "(bytes \<Rightarrow> hash32) \<Rightarrow> (bytes \<Rightarrow> bytes option) \<Rightarrow> snapshot_store \<Rightarrow> manifest \<Rightarrow> (put_error, unit) outcome" where
  "check_parent blake3 zstd st m =
     (if m_delta m then
        obind (unwrap (m_parent m)) (\<lambda>parent_ref.
        obind (map_err (\<lambda>e. if e = SnNotFound then PutUnknownParent parent_ref else PutOther e)
                 (read_manifest_bytes blake3 st parent_ref)) (\<lambda>bs.
        obind (map_err PutManifest (decode blake3 zstd bs)) (\<lambda>parent_m.
        if m_guest_ram_bytes parent_m \<noteq> m_guest_ram_bytes m then Err PutParentRamMismatch else Ok ())))
      else Ok ())"

text \<open>Step 3: the hashes that are not in the page store, in order.\<close>

definition missing_pages :: "snapshot_store \<Rightarrow> manifest \<Rightarrow> Snap_Types.page_hash list" where
  "missing_pages st m =
     (let hashes = map page_hash (m_entries m);
          present = contains_batch (ss_pages st) hashes
      in map fst (filter (\<lambda>(_, ok). \<not> ok) (zip hashes present)))"

text \<open>Step 6: staging file, rename.\<close>

definition stage_manifest :: "snapshot_ref \<Rightarrow> bytes \<Rightarrow> snapshot_store \<Rightarrow> snapshot_store" where
  "stage_manifest r container st = st\<lparr>ss_tmp := AList.update r container (ss_tmp st)\<rparr>"

definition rename_manifest :: "snapshot_ref \<Rightarrow> snapshot_store \<Rightarrow> (put_error, unit) outcome \<times> snapshot_store" where
  "rename_manifest r st =
     (case map_of (ss_tmp st) r of
        None \<Rightarrow> (Err (PutIo NotFound), st)
      | Some bs \<Rightarrow>
          (Ok (), st\<lparr>ss_tmp := AList.delete r (ss_tmp st),
                     ss_manifests := AList.update r bs (ss_manifests st)\<rparr>))"

definition count_manifest :: "u64 \<Rightarrow> snapshot_store \<Rightarrow> snapshot_store" where
  "count_manifest guest_ram_bytes st =
     st\<lparr>ss_manifests_total := ss_manifests_total st + 1,
        ss_logical_page_bytes := ss_logical_page_bytes st + guest_ram_bytes\<rparr>"

definition register_put ::
  "(bytes \<Rightarrow> hash32) \<Rightarrow> (bytes \<Rightarrow> bytes option) \<Rightarrow> snapshot_ref \<Rightarrow> (put_error, snapshot_ref) snap_op" where
  "register_put blake3 zstd r st =
     (let (res, st) = register_live_ref blake3 zstd r st
      in (obind (map_err (\<lambda>e. case e of
                            SnMissingPage h \<Rightarrow> PutMissingPages [h]
                          | SnNotFound \<Rightarrow> PutUnknownParent r
                          | other \<Rightarrow> PutOther other) res) (\<lambda>_. Ok r), st))"

definition put_snapshot ::
  "(bytes \<Rightarrow> hash32) \<Rightarrow> (bytes \<Rightarrow> bytes option) \<Rightarrow> bytes \<Rightarrow> (put_error, snapshot_ref) snap_op" where
  "put_snapshot blake3 zstd container st =
     (case obind (map_err PutManifest (decode blake3 zstd container)) (\<lambda>m.
           obind (check_parent blake3 zstd st m) (\<lambda>_.
           if missing_pages st m \<noteq> [] then Err (PutMissingPages (missing_pages st m)) else Ok m)) of
        Err e \<Rightarrow> (Err e, st)
      | Panic \<Rightarrow> (Panic, st)
      | Ok m \<Rightarrow>
          let (synced, st) = barrier (on_pages sync) st
          in case synced of
               Err e \<Rightarrow> (Err (PutPageStore e), st)
             | Panic \<Rightarrow> (Panic, st)
             | Ok _ \<Rightarrow>
                 let snap_ref = snapshot_ref_of blake3 container
                 in if has_manifest st snap_ref then register_put blake3 zstd snap_ref st
                    else
                      sbind (rename_manifest snap_ref) (\<lambda>_ st.
                        register_put blake3 zstd snap_ref (count_manifest (m_guest_ram_bytes m) st))
                        (stage_manifest snap_ref container st))"

section \<open>Resolving pages\<close>

definition flatten_chain ::
  "(snapshot_ref \<times> manifest) list \<Rightarrow> snapshot_ref \<Rightarrow> (snap_error, manifest_entry list) snap_op" where
  "flatten_chain chain r st =
     (case fc_get (ss_flatten st) r of
        Some cached \<Rightarrow> (Ok cached, st)
      | None \<Rightarrow>
          (case flatten (map snd chain) of
             Ok entries \<Rightarrow> (Ok entries, st\<lparr>ss_flatten := fc_insert (ss_flatten st) r entries\<rparr>)
           | Err e \<Rightarrow> (Err (SnFlatten e), st)
           | Panic \<Rightarrow> (Panic, st)))"

type_synonym resolved_page = "u64 \<times> Snap_Types.page_hash \<times> bytes option"

record resolved_pages =
  rp_entries :: "manifest_entry list"
  rp_pos :: nat
  rp_hashes_only :: bool
  rp_chunk :: "(snap_error, resolved_page) outcome list"

definition resolved_new :: "manifest_entry list \<Rightarrow> bool \<Rightarrow> resolved_pages" where
  "resolved_new entries hashes_only =
     \<lparr>rp_entries = entries, rp_pos = 0, rp_hashes_only = hashes_only, rp_chunk = []\<rparr>"

text \<open>The manifests strictly below the baseline.\<close>

definition resolve_pages ::
  "(bytes \<Rightarrow> hash32) \<Rightarrow> (bytes \<Rightarrow> bytes option) \<Rightarrow> snapshot_ref \<Rightarrow> snapshot_ref option \<Rightarrow> bool \<Rightarrow>
     (snap_error, resolved_pages) snap_op" where
  "resolve_pages blake3 zstd r baseline hashes_only st =
     (case read_chain MAX_CHAIN blake3 zstd st r of
        Err e \<Rightarrow> (Err e, st)
      | Panic \<Rightarrow> (Panic, st)
      | Ok chain \<Rightarrow>
          (case baseline of
             None \<Rightarrow>
               sbind (flatten_chain chain r) (\<lambda>entries. sreturn (resolved_new entries hashes_only)) st
           | Some b \<Rightarrow>
               if b \<notin> set (map fst chain) then (Err SnBaselineNotAncestor, st)
               else
                 let delta_segment = map snd (takeWhile (\<lambda>(ref, _). ref \<noteq> b) chain)
                 in if delta_segment = [] then (Ok (resolved_new [] hashes_only), st)
                    else (map_err SnFlatten (obind (flatten_delta delta_segment)
                            (\<lambda>merged. Ok (resolved_new merged hashes_only))), st)))"

definition RESOLVE_CHUNK :: nat where
  "RESOLVE_CHUNK = 512"

text \<open>The iterator: the next item, if any, and the state after it.  The batched read is an argument,
  \<open>get_batch\<close> of the page store.\<close>

definition resolved_item ::
  "manifest_entry \<Rightarrow> bytes option \<Rightarrow> (snap_error, resolved_page) outcome" where
  "resolved_item e result =
     (case result of Some b \<Rightarrow> Ok (page_index e, page_hash e, Some b) | None \<Rightarrow> Err (SnMissingPage (page_hash e)))"

fun pop_chunk :: "resolved_pages \<Rightarrow> (snap_error, resolved_page) outcome option \<times> resolved_pages" where
  "pop_chunk rp =
     (case rp_chunk rp of
        [] \<Rightarrow> (None, rp)
      | item # rest \<Rightarrow> (Some item, rp\<lparr>rp_chunk := rest\<rparr>))"

definition resolved_next ::
  "(Snap_Types.page_hash list \<Rightarrow> ('s, store_error, bytes option list) op) \<Rightarrow> resolved_pages \<Rightarrow> 's \<Rightarrow>
     (snap_error, resolved_page) outcome option \<times> resolved_pages \<times> 's" where
  "resolved_next get rp ps =
     (if rp_hashes_only rp then
        if rp_pos rp \<ge> length (rp_entries rp) then (None, rp, ps)
        else
          let entry = rp_entries rp ! rp_pos rp
          in (Some (Ok (page_index entry, page_hash entry, None)), rp\<lparr>rp_pos := rp_pos rp + 1\<rparr>, ps)
      else if rp_chunk rp \<noteq> [] then let (item, rp) = pop_chunk rp in (item, rp, ps)
      else if rp_pos rp \<ge> length (rp_entries rp) then (None, rp, ps)
      else
        let last1 = min (rp_pos rp + RESOLVE_CHUNK) (length (rp_entries rp));
            slice = take (last1 - rp_pos rp) (drop (rp_pos rp) (rp_entries rp));
            (res, ps) = get (map page_hash slice) ps;
            chunk = (case res of
                       Ok results \<Rightarrow> map2 resolved_item slice results
                     | Err e \<Rightarrow> [Err (SnPageStore e)]
                     | Panic \<Rightarrow> [Panic]);
            (item, rp) = pop_chunk (rp\<lparr>rp_chunk := chunk, rp_pos := last1\<rparr>)
        in (item, rp, ps))"

text \<open>The items of the first \<open>n\<close> calls.\<close>

fun resolved_run ::
  "nat \<Rightarrow> (Snap_Types.page_hash list \<Rightarrow> ('s, store_error, bytes option list) op) \<Rightarrow> resolved_pages \<Rightarrow> 's \<Rightarrow>
     (snap_error, resolved_page) outcome list" where
  "resolved_run 0 get rp ps = []"
| "resolved_run (Suc n) get rp ps =
     (case resolved_next get rp ps of
        (None, _, _) \<Rightarrow> []
      | (Some item, rp, ps) \<Rightarrow> item # resolved_run n get rp ps)"

section \<open>Deleting manifests and counting them\<close>

text \<open>\<open>read_guest_ram_bytes\<close>: the magic is checked, nothing else.\<close>

definition read_guest_ram_bytes :: "bytes \<Rightarrow> u64 option" where
  "read_guest_ram_bytes bs =
     (if length bs < 56 then None
      else if take 8 bs \<noteq> MAGIC then None
      else Some (from_le_bytes (take 8 (drop 48 bs))))"

definition delete_manifest :: "snapshot_ref \<Rightarrow> snapshot_store \<Rightarrow> bool \<times> snapshot_store" where
  "delete_manifest r st =
     (case map_of (ss_manifests st) r of
        None \<Rightarrow> (False, st)
      | Some bs \<Rightarrow>
          let grb = (case read_guest_ram_bytes bs of Some n \<Rightarrow> n | None \<Rightarrow> 0)
          in (True, st\<lparr>ss_manifests := AList.delete r (ss_manifests st),
                       ss_flatten := fc_remove (ss_flatten st) r,
                       ss_manifests_total := ss_manifests_total st - 1,
                       ss_logical_page_bytes := saturating_sub (ss_logical_page_bytes st) grb\<rparr>))"

fun walk_manifest_counters :: "(snapshot_ref \<times> bytes) list \<Rightarrow> u64 \<Rightarrow> u64 \<Rightarrow> u64 \<times> u64" where
  "walk_manifest_counters [] n sum1 = (n, sum1)"
| "walk_manifest_counters ((r, bs) # ms) n sum1 =
     (case read_guest_ram_bytes bs of
        Some grb \<Rightarrow> walk_manifest_counters ms (n + 1) (saturating_add sum1 grb)
      | None \<Rightarrow> walk_manifest_counters ms n sum1)"

definition manifest_count_and_logical_bytes :: "snapshot_store \<Rightarrow> u64 \<times> u64" where
  "manifest_count_and_logical_bytes st = (ss_manifests_total st, ss_logical_page_bytes st)"

section \<open>Opening\<close>

record store_opts =
  opt_pagestore :: store_options
  opt_flatten_cache_entries :: nat

definition default_store_opts :: store_opts where
  "default_store_opts = \<lparr>opt_pagestore = default_store_options, opt_flatten_cache_entries = 1024\<rparr>"

text \<open>\<open>open_with_options\<close> on the contents of \<open>pages/\<close> and \<open>manifests/\<close>; whatever \<open>tmp/\<close> held is
  removed.\<close>

definition open_snapshot_store ::
  "(bytes \<Rightarrow> hash32) \<Rightarrow> (bytes \<Rightarrow> u32) \<Rightarrow> u64 \<Rightarrow> store_opts \<Rightarrow> (pack_id \<times> bytes) list \<Rightarrow>
     (pack_id \<times> bytes) list \<Rightarrow> (snapshot_ref \<times> bytes) list \<Rightarrow> (snap_error, snapshot_store) outcome" where
  "open_snapshot_store blake3 crc32 now opts files sidecars manifests =
     obind (map_err SnPageStore (open_store blake3 crc32 now (opt_pagestore opts) files sidecars)) (\<lambda>pages.
     let (n, logical) = walk_manifest_counters manifests 0 0
     in Ok \<lparr>ss_pages = pages, ss_manifests = manifests, ss_tmp = [], ss_gc = group_commit_new,
            ss_epoch = None, ss_flatten = fc_new (opt_flatten_cache_entries opts),
            ss_manifests_total = n, ss_logical_page_bytes = logical\<rparr>)"

end
