(* ===== verification/Input_Log.thy ===== *)
theory Input_Log
  imports Snap_Types
begin

text \<open>
  The SILG input-log container, module \<open>input_log\<close> of
  \<^verbatim>\<open>crates/snapstore-manifest/src/lib.rs\<close>: a 24-byte header, an opaque payload and a
  BLAKE3 footer.  BLAKE3 is the argument \<open>blake3\<close>; nothing is assumed of it.
\<close>

section \<open>The codec\<close>

definition SILG_MAGIC :: bytes where
  "SILG_MAGIC = ascii ''SILG''"

definition CONTAINER_VERSION :: u16 where
  "CONTAINER_VERSION = 1"

definition HDR_LEN :: nat where
  "HDR_LEN = 24"

definition SILG_FOOTER_LEN :: nat where
  "SILG_FOOTER_LEN = 32"

record input_log_container =
  il_inner_format_version :: u32
  il_payload :: bytes

datatype input_log_error =
    IlBadMagic
  | IlUnsupportedVersion u16
  | IlNonZeroFlags u16
  | IlReservedNonZero
  | IlPayloadLenMismatch u64
  | IlFooterMismatch
  | IlTrailingBytes
  | IlTruncated

definition il_header :: "u32 \<Rightarrow> bytes \<Rightarrow> bytes" where
  "il_header inner_format_version payload =
     SILG_MAGIC
     @ to_le_bytes 2 CONTAINER_VERSION
     @ to_le_bytes 2 (0 :: u16)
     @ to_le_bytes 4 inner_format_version
     @ to_le_bytes 4 (0 :: u32)
     @ to_le_bytes 8 (of_nat (length payload) :: u64)"

definition il_encode :: "(bytes \<Rightarrow> hash32) \<Rightarrow> u32 \<Rightarrow> bytes \<Rightarrow> bytes" where
  "il_encode blake3 inner_format_version payload =
     (let buf = il_header inner_format_version payload @ payload
      in buf @ to_le_bytes 32 (blake3 buf))"

definition il_decode ::
  "(bytes \<Rightarrow> hash32) \<Rightarrow> bytes \<Rightarrow> (input_log_error, input_log_container) outcome" where
  "il_decode blake3 buf =
     (if length buf < HDR_LEN + SILG_FOOTER_LEN then Err IlTruncated
      else
      let footer_start = length buf - SILG_FOOTER_LEN in
      obind (slice 0 footer_start buf) (\<lambda>body.
      obind (read_le 32 footer_start buf) (\<lambda>stored.
      if blake3 body \<noteq> stored then Err IlFooterMismatch
      else
      obind (slice 0 4 buf) (\<lambda>magic.
      if magic \<noteq> SILG_MAGIC then Err IlBadMagic
      else
      obind (read_le 2 4 buf) (\<lambda>version.
      if version \<noteq> CONTAINER_VERSION then Err (IlUnsupportedVersion version)
      else
      obind (read_le 2 6 buf) (\<lambda>flags.
      if flags \<noteq> 0 then Err (IlNonZeroFlags flags)
      else
      obind (read_le 4 8 buf) (\<lambda>inner_format_version.
      obind (read_le 4 12 buf) (\<lambda>reserved.
      if reserved \<noteq> (0 :: u32) then Err IlReservedNonZero
      else
      obind (read_le 8 16 buf) (\<lambda>payload_len.
      obind (ok_or IlTruncated (checked_add HDR_LEN (unat payload_len))) (\<lambda>expected_body.
      if length body \<noteq> expected_body
      then (if length body < expected_body then Err (IlPayloadLenMismatch payload_len)
            else Err IlTrailingBytes)
      else
      obind (slice HDR_LEN (HDR_LEN + unat (payload_len :: u64)) buf) (\<lambda>payload.
      Ok \<lparr>il_inner_format_version = inner_format_version, il_payload = payload\<rparr>)))))))))))"

text \<open>\<open>log_id\<close> hashes everything before the footer.\<close>

definition log_id_of :: "(bytes \<Rightarrow> hash32) \<Rightarrow> bytes \<Rightarrow> log_id" where
  "log_id_of blake3 buf =
     (let body_len = length buf - SILG_FOOTER_LEN in LogId (blake3 (take body_len buf)))"

lemmas il_consts = HDR_LEN_def SILG_FOOTER_LEN_def

section \<open>Reading a container back\<close>

lemma length_SILG_MAGIC [simp]: "length SILG_MAGIC = 4"
  by (simp add: SILG_MAGIC_def)

lemma length_il_header [simp]: "length (il_header v p) = 24"
  by (simp add: il_header_def)

lemma read_il_header:
  fixes v p r
  defines "buf \<equiv> il_header v p @ r"
  shows "slice 0 4 buf = Ok SILG_MAGIC"
    "read_le 2 4 buf = Ok CONTAINER_VERSION"
    "read_le 2 6 buf = Ok (0 :: u16)"
    "read_le 4 8 buf = Ok v"
    "read_le 4 12 buf = Ok (0 :: u32)"
    "read_le 8 16 buf = Ok (of_nat (length p) :: u64)"
  by (simp_all add: buf_def il_header_def le_codec)

lemma il_decode_encode:
  assumes "24 + length p < usize_limit"
  shows "il_decode blake3 (il_encode blake3 v p) = Ok \<lparr>il_inner_format_version = v, il_payload = p\<rparr>"
proof -
  let ?h = "blake3 (il_header v p @ p)"
  let ?buf = "il_header v p @ p @ to_le_bytes 32 ?h"
  have buf: "il_encode blake3 v p = ?buf"
    by (simp add: il_encode_def Let_def)
  have frame: "length ?buf = 56 + length p"
    "slice 0 (24 + length p) ?buf = Ok (il_header v p @ p)"
    "read_le 32 (24 + length p) ?buf = Ok ?h"
    "slice 24 (24 + length p) ?buf = Ok p"
    "length (il_header v p @ p) = 24 + length p"
    by (simp_all add: le_codec)
  have n: "unat (of_nat (length p) :: u64) = length p"
    using assms by (simp add: unat_of_nat_u64)
  show ?thesis
    unfolding buf il_decode_def
    using assms
    by (simp add: il_consts checked_add_def Let_def frame read_il_header n
        del: slice_Ok read_le_Ok length_append)
qed

lemma il_decode_no_panic [no_panic]: "il_decode blake3 buf \<noteq> Panic"
  by (auto simp: il_decode_def Let_def obind_eq_Panic slice_Panic read_le_Panic il_consts
      split: if_splits)

lemma il_decode_OkE:
  assumes "il_decode blake3 buf = Ok c"
  obtains len :: u64 where
    "length buf = 56 + unat len" "24 + unat len < usize_limit"
    "blake3 (take (length buf - 32) buf) = from_le_bytes (drop (length buf - 32) buf)"
    "SILG_MAGIC = take 4 buf" "CONTAINER_VERSION = from_le_bytes (take 2 (drop 4 buf))"
    "(0 :: u16) = from_le_bytes (take 2 (drop 6 buf))"
    "il_inner_format_version c = from_le_bytes (take 4 (drop 8 buf))"
    "(0 :: u32) = from_le_bytes (take 4 (drop 12 buf))"
    "len = from_le_bytes (take 8 (drop 16 buf))"
    "il_payload c = take (unat len) (drop 24 buf)"
proof -
  show thesis
    using assms
    apply (simp add: il_decode_def Let_def obind_eq_Ok il_consts split: if_split_asm)
    apply (elim exE conjE)
    apply (drule sym[where t = c])
    apply (rule that[where len = "from_le_bytes (take 8 (drop 16 buf))"])
    apply (rule refl | assumption | erule sym | simp (no_asm_simp) | linarith)+
    done
qed

lemma il_decode_canonical:
  assumes "il_decode blake3 buf = Ok c"
  shows "il_encode blake3 (il_inner_format_version c) (il_payload c) = buf"
    and "24 + length (il_payload c) < usize_limit"
proof -
  from assms show "il_encode blake3 (il_inner_format_version c) (il_payload c) = buf"
  proof (rule il_decode_OkE, goal_cases)
    case (1 len)
    have len: "length (il_payload c) = unat len"
      using 1(1,10) by simp
    have hdr: "il_header (il_inner_format_version c) (il_payload c) = take 24 buf"
      unfolding il_header_def len of_nat_unat ucast_id 1(4) 1(5) 1(6) 1(7) 1(8) 1(9)
      using 1(1) by (simp add: le_codec join_fields)
    have body: "take 24 buf @ il_payload c = take (length buf - 32) buf"
      unfolding 1(10) using 1(1) by (simp add: join_fields)
    show ?case
      using 1(1,3) by (simp add: il_encode_def Let_def hdr body le_codec)
  qed
  from assms show "24 + length (il_payload c) < usize_limit"
  proof (rule il_decode_OkE, goal_cases)
    case (1 len)
    show ?case
      using 1(1,2) unfolding 1(10) by simp
  qed
qed

section \<open>Properties\<close>

text \<open>C5: The input-log decoder accepts exactly the canonical containers: a buffer decodes
  to a container if and only if it is the encoding of that container's version and payload
  (and the sizes fit the machine), and it never panics.\<close>

theorem il_decode_iff_encode:
  "il_decode blake3 buf \<noteq> Panic \<and>
   (il_decode blake3 buf = Ok c \<longleftrightarrow>
      24 + length (il_payload c) < usize_limit \<and>
      buf = il_encode blake3 (il_inner_format_version c) (il_payload c))"
  using il_decode_no_panic il_decode_canonical il_decode_encode[of "il_payload c" blake3]
  by (metis input_log_container.surjective old.unit.exhaust)

end
