(* ===== verification/Meta_Types.thy ===== *)
theory Meta_Types
  imports Input_Log
begin

text \<open>
  The data of the metadata database, crate \<^verbatim>\<open>snapstore-meta\<close>: the row and parameter
  types of \<^verbatim>\<open>types.rs\<close>, the errors of \<^verbatim>\<open>error.rs\<close>, and the tables that the SQL of
  \<^verbatim>\<open>migrations/\<close> declares, column by column.  SQLite integers are the 64-bit words
  that the code casts to and from \<open>i64\<close>; \<open>ORDER BY\<close> and the comparisons of a query read
  them as signed numbers.  An \<open>f64\<close> is its bit pattern.
\<close>

section \<open>Rows and parameters\<close>

type_synonym i64 = "64 word"
type_synonym f64 = "64 word"

record node_row =
  nr_experiment_id :: experiment_id
  nr_node_id :: node_id
  nr_parent_node_id :: "node_id option"
  nr_depth :: u32
  nr_snapshot_ref :: snapshot_ref
  nr_input_log_id :: "log_id option"
  nr_status :: node_status
  nr_score :: "f64 option"
  nr_visit_count :: u64
  nr_icount :: u64
  nr_virtual_ns :: u64
  nr_created_at :: u64
  nr_updated_at :: u64
  nr_last_visited_at :: u64
  nr_attrs :: "bytes option"

record pin_row =
  pin_snapshot_ref :: snapshot_ref
  pin_note :: "string option"
  pin_created_at :: u64

record tombstone_row =
  ts_experiment_id :: experiment_id
  ts_node_id :: node_id
  ts_created_at :: u64

record gc_state_row =
  gs_cycles_total :: u64
  gs_last_fence_counter :: u64
  gs_last_finished_at :: u64
  gs_last_freed_bytes :: u64

definition gc_state_default :: gc_state_row where
  "gc_state_default = \<lparr>gs_cycles_total = 0, gs_last_fence_counter = 0,
     gs_last_finished_at = 0, gs_last_freed_bytes = 0\<rparr>"

record stats_row =
  st_experiments_count :: u64
  st_total_nodes :: u64
  st_pins_count :: u64
  st_tombstones_count :: u64
  st_logical_counter :: u64
  st_kv_count :: u64
  st_input_logs_count :: u64
  st_input_logs_bytes :: u64
  st_exp_nodes_frontier :: u64
  st_exp_nodes_expanded :: u64
  st_exp_nodes_pruned :: u64
  st_exp_nodes_goal :: u64
  st_exp_max_depth :: u32
  st_exp_input_log_count :: u64

record create_node_params =
  cp_experiment_id :: experiment_id
  cp_node_id :: node_id
  cp_parent_node_id :: "node_id option"
  cp_snapshot_ref :: snapshot_ref
  cp_input_log_id :: "log_id option"
  cp_inline_log_container :: "bytes option"
  cp_status :: node_status
  cp_score :: "f64 option"
  cp_icount :: u64
  cp_virtual_ns :: u64
  cp_attrs :: "bytes option"

record node_update =
  nu_node_id :: node_id
  nu_status :: "node_status option"
  nu_score :: "f64 option"
  nu_attrs :: "bytes option"
  nu_visit_count_delta :: i64
  nu_touch_visited :: bool
  nu_icount :: "u64 option"
  nu_virtual_ns :: "u64 option"

definition node_update_new :: "node_id \<Rightarrow> node_update" where
  "node_update_new node_id = \<lparr>nu_node_id = node_id, nu_status = None, nu_score = None,
     nu_attrs = None, nu_visit_count_delta = 0, nu_touch_visited = False, nu_icount = None,
     nu_virtual_ns = None\<rparr>"

datatype query_order = ByCreatedAt | ByUpdatedAt | ByNodeId

record query_filter =
  qf_experiment_id :: experiment_id
  qf_status :: "node_status option"
  qf_parent_node_id :: "node_id option"
  qf_min_depth :: "u32 option"
  qf_max_depth :: "u32 option"
  qf_order :: query_order
  qf_created_after :: "u64 option"
  qf_updated_after :: "u64 option"
  qf_limit :: "u32 option"

definition query_filter_new :: "experiment_id \<Rightarrow> query_filter" where
  "query_filter_new experiment_id = \<lparr>qf_experiment_id = experiment_id, qf_status = None,
     qf_parent_node_id = None, qf_min_depth = None, qf_max_depth = None,
     qf_order = ByCreatedAt, qf_created_after = None, qf_updated_after = None,
     qf_limit = None\<rparr>"

definition effective_limit :: "query_filter \<Rightarrow> u32" where
  "effective_limit f = min (case qf_limit f of Some l \<Rightarrow> l | None \<Rightarrow> 512) 4096"

section \<open>Errors\<close>

text \<open>
  The errors of \<open>rusqlite\<close> that the code can meet: a value of the wrong type in column number
  \<open>n\<close>, a violated constraint, a query that must return a row and finds none, a table that
  already exists.
\<close>

datatype sqlite_error = InvalidColumnType nat | ConstraintViolation | QueryReturnedNoRows | TableExists

text \<open>Numbers that a message interpolates are left out of its text.\<close>

datatype meta_error =
    MeSqlite sqlite_error
  | MeIo string
  | MeActorDead
  | MeFutureVersion i64 i64
  | MeParentNotFound
  | MeAlreadyExists
  | MeMissingNodes "node_id list"
  | MePruneRootDenied
  | MeCasFailed u64
  | MeInvalidArgument string
  | MeLogIdMismatch
  | MeLogTooSmall
  | MeLogTooLarge
  | MeInvalidNodeStatus byte

section \<open>Tables\<close>

text \<open>
  A column of integer affinity holds an integer, or the real number that an addition of SQL
  gives when the sum does not fit 64 bits.
\<close>

datatype sql_num = SqlInt i64 | SqlReal f64

record node_sql =
  c_experiment_id :: string
  c_node_id :: i64
  c_parent_node_id :: "i64 option"
  c_depth :: i64
  c_snapshot_ref :: bytes
  c_input_log_id :: "bytes option"
  c_status :: i64
  c_score :: "f64 option"
  c_visit_count :: sql_num
  c_icount :: i64
  c_virtual_ns :: i64
  c_created_at :: i64
  c_updated_at :: i64
  c_last_visited_at :: i64
  c_attrs :: "bytes option"

record log_sql =
  l_log_id :: bytes
  l_inner_format_version :: i64
  l_content :: bytes
  l_created_at :: i64

record kv_sql =
  k_key :: bytes
  k_value :: bytes
  k_generation :: sql_num
  k_updated_at :: i64

record pin_sql =
  p_snapshot_ref :: bytes
  p_note :: "string option"
  p_created_at :: i64

record tombstone_sql =
  t_experiment_id :: string
  t_node_id :: i64
  t_created_at :: i64

record gc_state_sql =
  g_cycles_total :: i64
  g_last_fence_counter :: i64
  g_last_finished_at :: i64
  g_last_freed_bytes :: i64

record meta_sql =
  m_schema_version :: i64
  m_store_uuid :: string
  m_logical_counter :: i64

text \<open>
  The database.  \<open>db_has_meta\<close> says that the tables of the first migration exist and
  \<open>db_has_gc_state\<close> that the table of the second does.  A table is the list of its rows in
  insertion order; a table with at most one row (\<open>CHECK (id = 1)\<close>) is an option.
\<close>

record tree_db =
  db_has_meta :: bool
  db_has_gc_state :: bool
  db_migrations :: "(nat \<times> string \<times> i64) list"
  db_meta :: "meta_sql option"
  db_nodes :: "node_sql list"
  db_input_logs :: "log_sql list"
  db_kv_metadata :: "kv_sql list"
  db_pins :: "pin_sql list"
  db_tombstones :: "tombstone_sql list"
  db_gc_state :: "gc_state_sql option"

section \<open>Constants and configuration\<close>

definition WRITE_BATCH_MAX :: nat where
  "WRITE_BATCH_MAX = 256"

definition READ_POOL_SIZE :: nat where
  "READ_POOL_SIZE = 4"

definition DEFAULT_INPUT_LOG_MAX_BYTES :: nat where
  "DEFAULT_INPUT_LOG_MAX_BYTES = 16 * 1024 * 1024"

definition KV_KEY_MAX :: nat where
  "KV_KEY_MAX = 512"

definition KV_VALUE_MAX :: nat where
  "KV_VALUE_MAX = 16 * 1024 * 1024"

definition INPUT_LOG_MIN_BYTES :: nat where
  "INPUT_LOG_MIN_BYTES = 56"

record meta_config =
  mc_input_log_max_bytes :: nat

definition meta_config_default :: meta_config where
  "meta_config_default = \<lparr>mc_input_log_max_bytes = DEFAULT_INPUT_LOG_MAX_BYTES\<rparr>"

section \<open>Columns\<close>

definition node_id_to_sql :: "node_id \<Rightarrow> i64" where
  "node_id_to_sql n = node_num n"

definition snapshot_ref_to_sql :: "snapshot_ref \<Rightarrow> bytes" where
  "snapshot_ref_to_sql r = snapshot_ref_to_bytes r"

definition log_id_to_sql :: "log_id \<Rightarrow> bytes" where
  "log_id_to_sql l = log_id_to_bytes l"

definition status_to_sql :: "node_status \<Rightarrow> i64" where
  "status_to_sql s = ucast (node_status_as_u8 s)"

text \<open>\<open>row.get::<_, i64>(n)\<close>: a real number is refused.\<close>

primrec get_i64 :: "nat \<Rightarrow> sql_num \<Rightarrow> (sqlite_error, i64) outcome" where
  "get_i64 n (SqlInt v) = Ok v"
| "get_i64 n (SqlReal x) = Err (InvalidColumnType n)"

text \<open>Binding an \<open>f64\<close>: SQLite stores a NaN as \<open>NULL\<close>.\<close>

definition f64_is_nan :: "f64 \<Rightarrow> bool" where
  "f64_is_nan x = (take_bit 11 (drop_bit 52 x) = 2047 \<and> take_bit 52 x \<noteq> 0)"

definition bind_f64 :: "f64 option \<Rightarrow> f64 option" where
  "bind_f64 v = (case v of Some x \<Rightarrow> if f64_is_nan x then None else Some x | None \<Rightarrow> None)"

definition row_to_node :: "node_sql \<Rightarrow> (sqlite_error, node_row) outcome" where
  "row_to_node row =
     obind (get_i64 8 (c_visit_count row)) (\<lambda>visit_count.
     obind (ok_or (InvalidColumnType 6) (node_status_from_u8 (ucast (c_status row)))) (\<lambda>status.
     obind (map_err (\<lambda>_. InvalidColumnType 0) (experiment_id_new (c_experiment_id row)))
       (\<lambda>experiment_id.
     obind (slice 0 32 (c_snapshot_ref row)) (\<lambda>snap_arr.
     obind (case c_input_log_id row of
              None \<Rightarrow> Ok None
            | Some b \<Rightarrow> obind (slice 0 32 b) (\<lambda>arr. Ok (Some (log_id_from_bytes arr))))
       (\<lambda>input_log_id.
     Ok \<lparr>nr_experiment_id = experiment_id,
         nr_node_id = NodeId (c_node_id row),
         nr_parent_node_id = map_option NodeId (c_parent_node_id row),
         nr_depth = ucast (c_depth row),
         nr_snapshot_ref = snapshot_ref_from_bytes snap_arr,
         nr_input_log_id = input_log_id,
         nr_status = status,
         nr_score = c_score row,
         nr_visit_count = visit_count,
         nr_icount = c_icount row,
         nr_virtual_ns = c_virtual_ns row,
         nr_created_at = c_created_at row,
         nr_updated_at = c_updated_at row,
         nr_last_visited_at = c_last_visited_at row,
         nr_attrs = c_attrs row\<rparr>)))))"

text \<open>\<open>collect::<Result<Vec<_>, _>>\<close> of the rows a query returns.\<close>

fun collect_rows :: "('a \<Rightarrow> ('e, 'b) outcome) \<Rightarrow> 'a list \<Rightarrow> ('e, 'b list) outcome" where
  "collect_rows f [] = Ok []"
| "collect_rows f (r # rs) =
     obind (f r) (\<lambda>x. obind (collect_rows f rs) (\<lambda>xs. Ok (x # xs)))"

lemma collect_rows_Ok: "(\<And>r. r \<in> set rs \<Longrightarrow> f r = Ok (g r)) \<Longrightarrow> collect_rows f rs = Ok (map g rs)"
  by (induction rs) auto

lemma status_from_to_sql [simp]: "node_status_from_u8 (ucast (status_to_sql s)) = Some s"
  by (cases s) (simp_all add: status_to_sql_def node_status_from_u8_def)

lemma status_to_sql_inject [simp]: "status_to_sql a = status_to_sql b \<longleftrightarrow> a = b"
  by (metis option.inject status_from_to_sql)

lemma node_id_to_sql_inject [simp]: "node_id_to_sql a = node_id_to_sql b \<longleftrightarrow> a = b"
  by (cases a; cases b) (simp add: node_id_to_sql_def)

lemma NodeId_to_sql [simp]: "NodeId (node_id_to_sql n) = n"
  by (cases n) (simp add: node_id_to_sql_def)

lemma is_root_to_sql: "is_root n \<longleftrightarrow> node_id_to_sql n = 0"
  by (simp add: is_root_def node_id_to_sql_def)

lemma log_id_to_sql_inject [simp]: "log_id_to_sql a = log_id_to_sql b \<longleftrightarrow> a = b"
  by (cases a; cases b) (simp add: log_id_to_sql_def le_codec)

lemma snapshot_ref_to_sql_inject [simp]: "snapshot_ref_to_sql a = snapshot_ref_to_sql b \<longleftrightarrow> a = b"
  by (cases a; cases b) (simp add: snapshot_ref_to_sql_def le_codec)

lemma experiment_str_inject [simp]: "experiment_str a = experiment_str b \<longleftrightarrow> a = b"
  by (cases a; cases b) simp

end
