(* ===== verification/Rpc_Errors.thy ===== *)
theory Rpc_Errors
  imports Snapshot_Store Meta_Types
begin

text \<open>
  The errors of the service on the wire, \<^verbatim>\<open>crates/snapstore-server/src/errors.rs\<close>, and what the
  client makes of them, \<^verbatim>\<open>details.rs\<close> and \<^verbatim>\<open>error.rs\<close> of \<^verbatim>\<open>crates/snapstore-client/src\<close>.  The protobuf
  encoding of the messages is the code of a library: the record \<open>prost\<close> holds its functions over an
  abstract type \<open>'w\<close> of encoded bytes, and \<open>prost_ok\<close> says that decoding undoes encoding.  The
  values that \<open>format!\<close> puts into a message text are left out.
\<close>

section \<open>Statuses\<close>

datatype rpc_code =
    CodeInvalidArgument | CodeDeadlineExceeded | CodeNotFound | CodeAlreadyExists
  | CodeFailedPrecondition | CodeInternal | CodeUnavailable | CodeOther u32

text \<open>\<open>code as i32\<close>, the numbers of gRPC.\<close>

fun code_num :: "rpc_code \<Rightarrow> u32" where
  "code_num CodeInvalidArgument = 3"
| "code_num CodeDeadlineExceeded = 4"
| "code_num CodeNotFound = 5"
| "code_num CodeAlreadyExists = 6"
| "code_num CodeFailedPrecondition = 9"
| "code_num CodeInternal = 13"
| "code_num CodeUnavailable = 14"
| "code_num (CodeOther n) = n"

datatype 'w any = Any (any_url: string) (any_value: 'w)

datatype 'w rpc_status = RpcStatus (rs_code: u32) (rs_message: string) (rs_details: "'w any list")

record missing_pages_pb =
  mp_page_hashes :: "bytes list"
  mp_parent_ref :: bytes

datatype missing_nodes_pb = MissingNodesPb (mn_node_ids: "u64 list")

datatype current_generation_pb = CurrentGenerationPb (cg_generation: u64)

record 'w status =
  sx_code :: rpc_code
  sx_message :: string
  sx_details :: 'w

record 'w prost =
  px_empty :: 'w
  px_enc_status :: "'w rpc_status \<Rightarrow> 'w"
  px_dec_status :: "'w \<Rightarrow> 'w rpc_status option"
  px_enc_pages :: "missing_pages_pb \<Rightarrow> 'w"
  px_dec_pages :: "'w \<Rightarrow> missing_pages_pb option"
  px_enc_nodes :: "missing_nodes_pb \<Rightarrow> 'w"
  px_dec_nodes :: "'w \<Rightarrow> missing_nodes_pb option"
  px_enc_generation :: "current_generation_pb \<Rightarrow> 'w"
  px_dec_generation :: "'w \<Rightarrow> current_generation_pb option"

definition prost_ok :: "'w prost \<Rightarrow> bool" where
  "prost_ok px \<longleftrightarrow>
     (\<forall>s. px_dec_status px (px_enc_status px s) = Some s) \<and>
     (\<forall>s. rs_details s \<noteq> [] \<longrightarrow> px_enc_status px s \<noteq> px_empty px) \<and>
     (\<forall>m. px_dec_pages px (px_enc_pages px m) = Some m) \<and>
     (\<forall>m. px_dec_nodes px (px_enc_nodes px m) = Some m) \<and>
     (\<forall>m. px_dec_generation px (px_enc_generation px m) = Some m)"

definition status_new :: "'w prost \<Rightarrow> rpc_code \<Rightarrow> string \<Rightarrow> 'w status" where
  "status_new px code message = \<lparr>sx_code = code, sx_message = message, sx_details = px_empty px\<rparr>"

section \<open>The server's side\<close>

definition TYPE_URL_MISSING_PAGES :: string where
  "TYPE_URL_MISSING_PAGES = ''type.googleapis.com/determinism.snapstore.v1.MissingPages''"

definition TYPE_URL_MISSING_NODES :: string where
  "TYPE_URL_MISSING_NODES = ''type.googleapis.com/determinism.snapstore.v1.MissingNodes''"

definition TYPE_URL_CURRENT_GENERATION :: string where
  "TYPE_URL_CURRENT_GENERATION = ''type.googleapis.com/determinism.snapstore.v1.CurrentGeneration''"

definition status_with_detail :: "'w prost \<Rightarrow> rpc_code \<Rightarrow> string \<Rightarrow> 'w any list \<Rightarrow> 'w status" where
  "status_with_detail px code message details =
     \<lparr>sx_code = code, sx_message = message,
      sx_details = px_enc_status px (RpcStatus (code_num code) message details)\<rparr>"

definition put_error_to_status :: "'w prost \<Rightarrow> put_error \<Rightarrow> 'w status" where
  "put_error_to_status px e =
     (case e of
        PutMissingPages hashes \<Rightarrow>
          status_with_detail px CodeFailedPrecondition ''missing page(s) in pagestore''
            [Any TYPE_URL_MISSING_PAGES (px_enc_pages px
               \<lparr>mp_page_hashes = map page_hash_as_bytes hashes, mp_parent_ref = []\<rparr>)]
      | PutUnknownParent r \<Rightarrow>
          status_with_detail px CodeFailedPrecondition ''parent manifest not found''
            [Any TYPE_URL_MISSING_PAGES (px_enc_pages px
               \<lparr>mp_page_hashes = [], mp_parent_ref = snapshot_ref_to_bytes r\<rparr>)]
      | PutParentRamMismatch \<Rightarrow> status_new px CodeInvalidArgument ''parent guest_ram_bytes mismatch''
      | PutManifest _ \<Rightarrow> status_new px CodeInvalidArgument ''manifest decode error''
      | PutIo _ \<Rightarrow> status_new px CodeInternal ''I/O error''
      | PutOther _ \<Rightarrow> status_new px CodeInternal ''I/O error''
      | PutPageStore _ \<Rightarrow> status_new px CodeInternal ''page store error'')"

definition meta_error_to_status :: "'w prost \<Rightarrow> meta_error \<Rightarrow> 'w status" where
  "meta_error_to_status px e =
     (case e of
        MeMissingNodes ids \<Rightarrow>
          status_with_detail px CodeNotFound ''nodes not found''
            [Any TYPE_URL_MISSING_NODES (px_enc_nodes px (MissingNodesPb (map node_num ids)))]
      | MeCasFailed current \<Rightarrow>
          status_with_detail px CodeFailedPrecondition ''CAS failed''
            [Any TYPE_URL_CURRENT_GENERATION (px_enc_generation px (CurrentGenerationPb current))]
      | MeAlreadyExists \<Rightarrow> status_new px CodeAlreadyExists ''node already exists''
      | MeParentNotFound \<Rightarrow> status_new px CodeFailedPrecondition ''parent node not found or is pruned''
      | MePruneRootDenied \<Rightarrow> status_new px CodeFailedPrecondition ''root node pruning requires allow_root''
      | MeInvalidArgument msg \<Rightarrow> status_new px CodeInvalidArgument msg
      | MeLogIdMismatch \<Rightarrow> status_new px CodeInvalidArgument ''log_id does not match container content''
      | MeLogTooSmall \<Rightarrow> status_new px CodeInvalidArgument ''input log container too small''
      | MeLogTooLarge \<Rightarrow> status_new px CodeInvalidArgument ''input log container exceeds max size''
      | MeFutureVersion _ _ \<Rightarrow> status_new px CodeInternal ''schema version > supported''
      | MeActorDead \<Rightarrow> status_new px CodeInternal ''meta actor thread died''
      | MeSqlite _ \<Rightarrow> status_new px CodeInternal ''sqlite error''
      | MeIo _ \<Rightarrow> status_new px CodeInternal ''meta I/O error''
      | MeInvalidNodeStatus _ \<Rightarrow> status_new px CodeInternal ''invalid node status byte'')"

text \<open>The decoders of the server's own tests.\<close>

definition decode_status_details :: "'w prost \<Rightarrow> 'w status \<Rightarrow> 'w rpc_status option" where
  "decode_status_details px s = (if sx_details s = px_empty px then None else px_dec_status px (sx_details s))"

definition decode_first :: "'w prost \<Rightarrow> string \<Rightarrow> ('w \<Rightarrow> 'm option) \<Rightarrow> 'w status \<Rightarrow> 'm option" where
  "decode_first px url dec s =
     Option.bind (decode_status_details px s) (\<lambda>rpc.
     Option.bind (find (\<lambda>a. any_url a = url) (rs_details rpc)) (\<lambda>a. dec (any_value a)))"

definition decode_missing_pages :: "'w prost \<Rightarrow> 'w status \<Rightarrow> missing_pages_pb option" where
  "decode_missing_pages px = decode_first px TYPE_URL_MISSING_PAGES (px_dec_pages px)"

definition decode_missing_nodes :: "'w prost \<Rightarrow> 'w status \<Rightarrow> missing_nodes_pb option" where
  "decode_missing_nodes px = decode_first px TYPE_URL_MISSING_NODES (px_dec_nodes px)"

definition decode_current_generation :: "'w prost \<Rightarrow> 'w status \<Rightarrow> current_generation_pb option" where
  "decode_current_generation px = decode_first px TYPE_URL_CURRENT_GENERATION (px_dec_generation px)"

section \<open>The client's side\<close>

datatype 'w client_error =
    CeMissingPages "Snap_Types.page_hash list" "snapshot_ref option"
  | CeMissingNodes "u64 list"
  | CeCasFailed u64
  | CeAlreadyExists
  | CeStatus "'w status"
  | CeTransport string
  | CeCorruptPayload string string string
  | CeBatchBlake3Mismatch string string
  | CeCorruptInputLog string string

definition is_non_retryable :: "'w client_error \<Rightarrow> bool" where
  "is_non_retryable e =
     (case e of
        CeMissingPages _ _ \<Rightarrow> True
      | CeMissingNodes _ \<Rightarrow> True
      | CeCasFailed _ \<Rightarrow> True
      | CeAlreadyExists \<Rightarrow> True
      | CeBatchBlake3Mismatch _ _ \<Rightarrow> True
      | CeCorruptPayload _ _ _ \<Rightarrow> True
      | CeCorruptInputLog _ _ \<Rightarrow> True
      | _ \<Rightarrow> False)"

text \<open>One detail of a status, and the first one that can be decoded.\<close>

definition decode_any :: "'w prost \<Rightarrow> 'w any \<Rightarrow> 'w client_error option" where
  "decode_any px a =
     (if any_url a = TYPE_URL_MISSING_PAGES then
        map_option (\<lambda>pb.
          CeMissingPages
            (map page_hash_from_bytes (filter (\<lambda>b. length b = 32) (mp_page_hashes pb)))
            (if length (mp_parent_ref pb) = 32 then Some (snapshot_ref_from_bytes (mp_parent_ref pb)) else None))
          (px_dec_pages px (any_value a))
      else if any_url a = TYPE_URL_MISSING_NODES then
        map_option (\<lambda>pb. CeMissingNodes (mn_node_ids pb)) (px_dec_nodes px (any_value a))
      else if any_url a = TYPE_URL_CURRENT_GENERATION then
        map_option (\<lambda>pb. CeCasFailed (cg_generation pb)) (px_dec_generation px (any_value a))
      else None)"

fun first_detail :: "'w prost \<Rightarrow> 'w any list \<Rightarrow> 'w client_error option" where
  "first_detail px [] = None"
| "first_detail px (a # as) = (case decode_any px a of Some e \<Rightarrow> Some e | None \<Rightarrow> first_detail px as)"

definition decode_details :: "'w prost \<Rightarrow> 'w status \<Rightarrow> 'w client_error option" where
  "decode_details px s =
     (if sx_details s = px_empty px then None
      else case px_dec_status px (sx_details s) of
             None \<Rightarrow> None
           | Some rpc \<Rightarrow> first_detail px (rs_details rpc))"

definition decode_status :: "'w prost \<Rightarrow> 'w status \<Rightarrow> 'w client_error" where
  "decode_status px s =
     (if sx_code s = CodeAlreadyExists then CeAlreadyExists
      else if sx_code s \<noteq> CodeFailedPrecondition \<and> sx_code s \<noteq> CodeNotFound then CeStatus s
      else case decode_details px s of Some e \<Rightarrow> e | None \<Rightarrow> CeStatus s)"

text \<open>The encoders of \<^verbatim>\<open>details.rs\<close>, whose status has no code and no message of its own.\<close>

definition encode_detail_bytes :: "'w prost \<Rightarrow> string \<Rightarrow> 'w \<Rightarrow> 'w" where
  "encode_detail_bytes px type_url msg = px_enc_status px (RpcStatus 0 [] [Any type_url msg])"

definition encode_missing_pages :: "'w prost \<Rightarrow> Snap_Types.page_hash list \<Rightarrow> snapshot_ref option \<Rightarrow> 'w" where
  "encode_missing_pages px page_hashes parent_ref =
     encode_detail_bytes px TYPE_URL_MISSING_PAGES (px_enc_pages px
       \<lparr>mp_page_hashes = map page_hash_as_bytes page_hashes,
        mp_parent_ref = (case parent_ref of Some r \<Rightarrow> snapshot_ref_to_bytes r | None \<Rightarrow> [])\<rparr>)"

definition encode_missing_nodes :: "'w prost \<Rightarrow> u64 list \<Rightarrow> 'w" where
  "encode_missing_nodes px node_ids =
     encode_detail_bytes px TYPE_URL_MISSING_NODES (px_enc_nodes px (MissingNodesPb node_ids))"

definition encode_current_generation :: "'w prost \<Rightarrow> u64 \<Rightarrow> 'w" where
  "encode_current_generation px generation =
     encode_detail_bytes px TYPE_URL_CURRENT_GENERATION (px_enc_generation px (CurrentGenerationPb generation))"

section \<open>What the client learns\<close>

lemma type_urls [simp]:
  "TYPE_URL_MISSING_NODES \<noteq> TYPE_URL_MISSING_PAGES" "TYPE_URL_CURRENT_GENERATION \<noteq> TYPE_URL_MISSING_PAGES"
  "TYPE_URL_CURRENT_GENERATION \<noteq> TYPE_URL_MISSING_NODES"
  by (simp_all add: TYPE_URL_MISSING_PAGES_def TYPE_URL_MISSING_NODES_def TYPE_URL_CURRENT_GENERATION_def)

lemma decode_with_detail:
  assumes "prost_ok px" "details \<noteq> []"
  shows "decode_details px (status_with_detail px code message details) = first_detail px details"
    "sx_code (status_with_detail px code message details) = code"
    "decode_status_details px (status_with_detail px code message details) = Some (RpcStatus (code_num code) message details)"
  using assms by (simp_all add: decode_details_def decode_status_details_def status_with_detail_def prost_ok_def)

lemma decode_new [simp]:
  "decode_details px (status_new px code message) = None" "sx_code (status_new px code message) = code"
  by (simp_all add: decode_details_def status_new_def)

lemma page_hashes_back: "map (page_hash_from_bytes \<circ> page_hash_as_bytes) hs = hs"
  by (induction hs) simp_all

text \<open>What the client should see: the server's error where it has a type of its own, and otherwise the
  status.\<close>

definition put_error_seen :: "'w prost \<Rightarrow> put_error \<Rightarrow> 'w client_error" where
  "put_error_seen px e =
     (case e of
        PutMissingPages hashes \<Rightarrow> CeMissingPages hashes None
      | PutUnknownParent r \<Rightarrow> CeMissingPages [] (Some r)
      | _ \<Rightarrow> CeStatus (put_error_to_status px e))"

definition meta_error_seen :: "'w prost \<Rightarrow> meta_error \<Rightarrow> 'w client_error" where
  "meta_error_seen px e =
     (case e of
        MeMissingNodes ids \<Rightarrow> CeMissingNodes (map node_num ids)
      | MeCasFailed current \<Rightarrow> CeCasFailed current
      | MeAlreadyExists \<Rightarrow> CeAlreadyExists
      | _ \<Rightarrow> CeStatus (meta_error_to_status px e))"


text \<open>The encoders and the decoder of the client agree, whatever the code and message around them.\<close>

lemma client_details_round_trip:
  assumes "prost_ok px"
  shows "decode_details px \<lparr>sx_code = c, sx_message = m, sx_details = encode_missing_pages px hs parent\<rparr> = Some (CeMissingPages hs parent)"
    "decode_details px \<lparr>sx_code = c, sx_message = m, sx_details = encode_missing_nodes px ns\<rparr> = Some (CeMissingNodes ns)"
    "decode_details px \<lparr>sx_code = c, sx_message = m, sx_details = encode_current_generation px g\<rparr> = Some (CeCasFailed g)"
  using assms
  by (auto simp: decode_details_def encode_missing_pages_def encode_missing_nodes_def encode_current_generation_def
      encode_detail_bytes_def decode_any_def prost_ok_def page_hashes_back split: option.split)

text \<open>A codec whose encoded form is the message itself.\<close>

datatype wire =
    WEmpty
  | WStatus u32 string "wire any list"
  | WPages "bytes list" bytes
  | WNodes "u64 list"
  | WGeneration u64

definition demo_prost :: "wire prost" where
  "demo_prost = \<lparr>px_empty = WEmpty,
     px_enc_status = (\<lambda>s. WStatus (rs_code s) (rs_message s) (rs_details s)),
     px_dec_status = (\<lambda>w. case w of WStatus c m ds \<Rightarrow> Some (RpcStatus c m ds) | _ \<Rightarrow> None),
     px_enc_pages = (\<lambda>m. WPages (mp_page_hashes m) (mp_parent_ref m)),
     px_dec_pages = (\<lambda>w. case w of WPages hs p \<Rightarrow> Some \<lparr>mp_page_hashes = hs, mp_parent_ref = p\<rparr> | _ \<Rightarrow> None),
     px_enc_nodes = (\<lambda>m. WNodes (mn_node_ids m)),
     px_dec_nodes = (\<lambda>w. case w of WNodes ns \<Rightarrow> Some (MissingNodesPb ns) | _ \<Rightarrow> None),
     px_enc_generation = (\<lambda>m. WGeneration (cg_generation m)),
     px_dec_generation = (\<lambda>w. case w of WGeneration g \<Rightarrow> Some (CurrentGenerationPb g) | _ \<Rightarrow> None)\<rparr>"

lemma demo_prost_ok: "prost_ok demo_prost"
  by (simp add: prost_ok_def demo_prost_def)


end
