(* ===== verification/Page_Iface.thy ===== *)
theory Page_Iface
  imports Page_Open
begin

text \<open>
  What the layers above rely on of the page store: which page a hash stands for, a batched
  read, a presence check, and that reading changes neither.  The page store provides it.
\<close>

locale page_reader =
  fixes inv :: "'s \<Rightarrow> bool"
    and stored :: "'s \<Rightarrow> page_hash \<Rightarrow> bytes option"
    and get :: "page_hash list \<Rightarrow> ('s, store_error, bytes option list) op"
    and contains :: "'s \<Rightarrow> page_hash list \<Rightarrow> bool list"
    and hash :: "bytes \<Rightarrow> hash32"
  assumes get_ok: "inv s \<Longrightarrow> \<exists>s'. get hs s = (Ok (map (stored s) hs), s') \<and> inv s' \<and> stored s' = stored s"
    and contains_stored: "contains s hs = map (\<lambda>h. stored s h \<noteq> None) hs"
    and stored_hash: "inv s \<Longrightarrow> stored s h = Some p \<Longrightarrow> h = PageHash (hash p)"
begin

lemma contains_all: "list_all (\<lambda>b. b) (contains s hs) \<longleftrightarrow> (\<forall>h \<in> set hs. stored s h \<noteq> None)"
  by (simp add: contains_stored list_all_iff)

lemma get_present:
  assumes "inv s" "list_all (\<lambda>b. b) (contains s hs)"
  shows "\<exists>ps s'. get hs s = (Ok (map Some ps), s') \<and> map (\<lambda>p. PageHash (hash p)) ps = hs"
proof -
  let ?ps = "map (\<lambda>h. the (stored s h)) hs"
  have some: "stored s h = Some (the (stored s h))" if "h \<in> set hs" for h
    using assms(2) that by (auto simp: contains_all)
  then have "map (stored s) hs = map Some ?ps"
    by (simp add: comp_def)
  moreover have "map (\<lambda>p. PageHash (hash p)) ?ps = hs"
    using stored_hash[OF assms(1)] some by (simp add: comp_def) (metis (mono_tags, lifting) map_idI)
  ultimately show ?thesis
    using get_ok[OF assms(1), of hs] by metis
qed

end

lemma same_store_stored_page:
  assumes "same_store st st'"
  shows "stored_page blake3 st' = stored_page blake3 st"
  using assms logical_file_cong(2)[of st' st blake3] by (simp add: same_store_def stored_page_def fun_eq_iff)

interpretation pages: page_reader "store_inv blake3" "stored_page blake3" "get_batch blake3" contains_batch blake3
  for blake3
proof
  fix s :: page_store and hs
  assume "store_inv blake3 s"
  then show "\<exists>s'. get_batch blake3 hs s = (Ok (map (stored_page blake3 s) hs), s') \<and> store_inv blake3 s' \<and>
      stored_page blake3 s' = stored_page blake3 s"
    using get_batch_ok same_store_stored_page by blast
next
  fix s :: page_store and hs
  show "contains_batch s hs = map (\<lambda>h. stored_page blake3 s h \<noteq> None) hs"
    by (simp add: contains_batch_def stored_page_def)
next
  fix s :: page_store and h p
  assume "store_inv blake3 s" "stored_page blake3 s h = Some p"
  then show "h = PageHash (blake3 p)"
    using stored_page_hash by blast
qed

end
