(* ===== verification/Snapshot_Read.thy ===== *)
theory Snapshot_Read
  imports Snapshot_Store Page_Iface
begin

text \<open>
  Reading snapshots: the names of manifest files, the integrity of what \<open>get_snapshot\<close> returns,
  the parent chain, and the stream of pages of \<open>resolve_pages\<close>, which relies on the page store
  only through the interface \<open>page_reader\<close>.
\<close>

section \<open>File names\<close>

lemma hex_nibble_digit:
  assumes "n < 16"
  shows "hex_nibble (hex_digit n) = Some (of_nat n)"
proof -
  have "\<forall>k \<in> set [0..<16]. hex_nibble (hex_digit k) = Some (of_nat k)"
    by (simp add: upt_rec hex_digit_def hex_nibble_def)
  then show ?thesis
    using assms by simp
qed

lemma nibbles_join: "push_bit 4 (of_nat (unat b div 16)) OR of_nat (unat b mod 16) = (b :: byte)"
proof (rule bit_word_eqI)
  fix i assume "i < LENGTH(8)"
  have "unat b div 16 = drop_bit 4 (unat b)" "unat b mod 16 = take_bit 4 (unat b)"
    by (simp_all add: drop_bit_eq_div take_bit_eq_mod)
  then show "bit (push_bit 4 (of_nat (unat b div 16) :: byte) OR of_nat (unat b mod 16)) i = bit b i"
    using \<open>i < LENGTH(8)\<close> by (auto simp: bit_simps)
qed

lemma hex_pairs_encode:
  "hex_pairs (concat (map (\<lambda>b. [hex_digit (unat b div 16), hex_digit (unat b mod 16)]) bs)) = Some bs"
proof (induction bs)
  case (Cons b bs)
  have "unat b div 16 < 16"
    using unsigned_less[where 'a = nat and w = b] by (simp add: div_less_iff_less_mult)
  then show ?case
    using Cons.IH by (simp add: hex_nibble_digit nibbles_join)
qed simp

lemma length_hex: "length (concat (map (\<lambda>b. [f b, g b]) bs)) = 2 * length bs"
  by (induction bs) auto

lemma hex_round_trip: "hex_to_32 (ref_to_hex r) = Some (snapshot_ref_to_bytes r)"
  by (cases r) (simp add: hex_to_32_def ref_to_hex_def hex_pairs_encode length_hex)

lemma ref_to_hex_inject: "ref_to_hex r = ref_to_hex r' \<longleftrightarrow> r = r'"
  by (metis hex_round_trip option.inject snapshot_ref_from_to_bytes)

section \<open>The stream of pages\<close>

context page_reader
begin

text \<open>The item of an entry, and the state of the iterator before item \<open>k\<close>.\<close>

definition item :: "'s \<Rightarrow> manifest_entry \<Rightarrow> (snap_error, resolved_page) outcome" where
  "item s e = resolved_item e (stored s (page_hash e))"

definition at_item :: "'s \<Rightarrow> manifest_entry list \<Rightarrow> nat \<Rightarrow> resolved_pages \<Rightarrow> bool" where
  "at_item s es k rp \<longleftrightarrow>
     rp_entries rp = es \<and> \<not> rp_hashes_only rp \<and> k \<le> length es \<and> rp_pos rp = k + length (rp_chunk rp) \<and>
     rp_pos rp \<le> length es \<and> rp_chunk rp = map (item s) (take (length (rp_chunk rp)) (drop k es))"

lemma same_items:
  assumes "stored s = stored s'"
  shows "item s = item s'" "at_item s = at_item s'"
proof -
  show *: "item s = item s'"
    using assms by (simp add: item_def fun_eq_iff)
  show "at_item s = at_item s'"
    by (simp add: at_item_def fun_eq_iff *)
qed

lemma next_item:
  assumes inv: "inv s" and at: "at_item s es k rp" and k: "k < length es"
  shows "\<exists>rp' s'. resolved_next get rp s = (Some (item s (es ! k)), rp', s') \<and> inv s' \<and> stored s' = stored s \<and>
    at_item s es (Suc k) rp'"
proof (cases "rp_chunk rp")
  case Nil
  define e where "e = min (k + RESOLVE_CHUNK) (length es)"
  define sl where "sl = take (e - k) (drop k es)"
  have pos: "rp_pos rp = k" "rp_entries rp = es" "\<not> rp_hashes_only rp"
    using at Nil by (simp_all add: at_item_def)
  obtain s' where s': "get (map page_hash sl) s = (Ok (map (stored s) (map page_hash sl)), s')" "inv s'"
    "stored s' = stored s"
    using get_ok[OF inv] by blast
  have e: "k < e" "e \<le> length es"
    using k by (simp_all add: e_def RESOLVE_CHUNK_def)
  have chunk: "map2 resolved_item sl (map (stored s) (map page_hash sl)) = map (item s) sl"
    by (simp add: item_def map2_map_map comp_def zip_map2 case_prod_beta zip_same_conv_map)
  have sl: "sl = es ! k # take (e - Suc k) (drop (Suc k) es)"
    using k e(1) unfolding sl_def by (simp add: Cons_nth_drop_Suc[symmetric] take_Cons')
  let ?rp = "rp\<lparr>rp_chunk := map (item s) (take (e - Suc k) (drop (Suc k) es)), rp_pos := e\<rparr>"
  have "resolved_next get rp s = (Some (item s (es ! k)), ?rp, s')"
    using pos Nil k s'(1) chunk unfolding resolved_next_def
    by (simp add: Let_def e_def[symmetric] sl_def[symmetric]) (simp add: sl)
  moreover have "at_item s es (Suc k) ?rp"
    using pos e k by (auto simp: at_item_def min_def)
  ultimately show ?thesis
    using s' by blast
next
  case (Cons it its)
  have t: "take (length (rp_chunk rp)) (drop k es) = es ! k # take (length its) (drop (Suc k) es)"
    using k Cons by (simp add: Cons_nth_drop_Suc[symmetric])
  have it: "it = item s (es ! k)" and its: "its = map (item s) (take (length its) (drop (Suc k) es))"
    using at unfolding at_item_def t by (simp_all add: Cons)
  have a: "rp_entries rp = es" "\<not> rp_hashes_only rp" "rp_pos rp = Suc k + length its" "rp_pos rp \<le> length es"
    using at Cons by (simp_all add: at_item_def)
  have "at_item s es (Suc k) (rp\<lparr>rp_chunk := its\<rparr>)"
    using k a by (simp add: at_item_def its[symmetric])
  moreover have "resolved_next get rp s = (Some (item s (es ! k)), rp\<lparr>rp_chunk := its\<rparr>, s)"
    using a(2) Cons it by (simp add: resolved_next_def)
  ultimately show ?thesis
    using inv by blast
qed

lemma next_end:
  assumes "at_item s es (length es) rp"
  shows "resolved_next get rp s' = (None, rp, s')"
  using assms by (auto simp: at_item_def resolved_next_def)

lemma run_items:
  assumes "inv s" "stored s = stored s0" "at_item s0 es k rp"
  shows "resolved_run n get rp s = take n (map (item s0) (drop k es))"
  using assms
proof (induction n arbitrary: rp s k)
  case (Suc n)
  show ?case
  proof (cases "k < length es")
    case True
    note same = same_items[OF Suc.prems(2)]
    have at: "at_item s es k rp"
      using Suc.prems(3) by (simp add: same)
    obtain rp' s' where step: "resolved_next get rp s = (Some (item s (es ! k)), rp', s')" "inv s'"
      "stored s' = stored s" "at_item s es (Suc k) rp'"
      using next_item[OF Suc.prems(1) at True] by blast
    have "at_item s0 es (Suc k) rp'" "item s (es ! k) = item s0 (es ! k)"
      using step(4) by (simp_all add: same)
    then have "resolved_run (Suc n) get rp s = item s0 (es ! k) # take n (map (item s0) (drop (Suc k) es))"
      using Suc.IH[OF step(2), of "Suc k" rp'] step(1,3) Suc.prems(2) by simp
    then show ?thesis
      using True by (simp add: Cons_nth_drop_Suc[symmetric])
  next
    case False
    then have "k = length es"
      using Suc.prems(3) by (simp add: at_item_def)
    then show ?thesis
      using next_end[of s0 es rp s] Suc.prems(3) by simp
  qed
qed simp

lemma stream_items:
  "inv s \<Longrightarrow> resolved_run n get (resolved_new es False) s = take n (map (item s) es)"
  using run_items[of s s es 0 "resolved_new es False" n] by (simp add: at_item_def resolved_new_def)

end

lemma stream_hashes:
  "resolved_run n get rp s = take n (map (\<lambda>e. Ok (page_index e, page_hash e, None)) (drop (rp_pos rp) (rp_entries rp)))"
  if "rp_hashes_only rp"
  using that
proof (induction n arbitrary: rp)
  case (Suc n)
  show ?case
  proof (cases "rp_pos rp < length (rp_entries rp)")
    case True
    then show ?thesis
      using Suc.IH[of "rp\<lparr>rp_pos := rp_pos rp + 1\<rparr>"] Suc.prems
      by (simp add: resolved_next_def Let_def Cons_nth_drop_Suc[symmetric])
  next
    case False
    then show ?thesis
      using Suc.prems by (simp add: resolved_next_def)
  qed
qed simp

section \<open>Parent chains\<close>

lemma read_manifest_inv:
  "read_manifest blake3 zstd st r = Ok m \<Longrightarrow> manifest_inv m"
  using decode_Ok by (fastforce simp: read_manifest_def obind_eq_Ok manifest_wire_ok_def)

lemma read_chain_Ok:
  assumes "read_chain n blake3 zstd st r = Ok chain"
  shows "chain \<noteq> [] \<and> fst (hd chain) = r \<and> length chain \<le> n \<and> \<not> m_delta (snd (last chain)) \<and>
    list_all (\<lambda>(c, m). read_manifest blake3 zstd st c = Ok m \<and> manifest_inv m) chain \<and>
    list_all (\<lambda>(c, m). m_delta m) (butlast chain)"
  using assms
proof (induction n blake3 zstd st r arbitrary: chain rule: read_chain.induct)
  case (2 n blake3 zstd st r)
  obtain m where m: "read_manifest blake3 zstd st r = Ok m"
    using "2.prems" by (auto simp: obind_eq_Ok)
  show ?case
  proof (cases "m_delta m")
    case False
    then show ?thesis
      using "2.prems" m read_manifest_inv[OF m] by auto
  next
    case True
    then obtain p c where p: "m_parent m = Some p" "read_chain n blake3 zstd st p = Ok c" "chain = (r, m) # c"
      using "2.prems" m by (auto simp: obind_eq_Ok)
    then have "c \<noteq> [] \<and> length c \<le> n \<and> \<not> m_delta (snd (last c)) \<and>
        list_all (\<lambda>(c, m). read_manifest blake3 zstd st c = Ok m \<and> manifest_inv m) c \<and>
        list_all (\<lambda>(c, m). m_delta m) (butlast c)"
      using "2.IH"[of m p c] m True by simp
    then show ?thesis
      using p(3) True m read_manifest_inv[OF m] by simp
  qed
qed simp

lemma read_chain_more:
  assumes "read_chain n blake3 zstd st r = Ok chain" "n \<le> k"
  shows "read_chain k blake3 zstd st r = Ok chain"
  using assms
proof (induction n blake3 zstd st r arbitrary: chain k rule: read_chain.induct)
  case (2 n blake3 zstd st r)
  obtain k' where k: "k = Suc k'" "n \<le> k'"
    using "2.prems"(2) by (cases k) auto
  obtain m where m: "read_manifest blake3 zstd st r = Ok m"
    using "2.prems"(1) by (auto simp: obind_eq_Ok)
  show ?case
  proof (cases "m_delta m")
    case True
    then obtain p c where "m_parent m = Some p" "read_chain n blake3 zstd st p = Ok c" "chain = (r, m) # c"
      using "2.prems"(1) m by (auto simp: obind_eq_Ok)
    then show ?thesis
      using "2.IH"[of m p c k'] m k True by simp
  next
    case False
    then show ?thesis
      using "2.prems"(1) m k by simp
  qed
qed simp

text \<open>The chain of an ancestor is the rest of the chain.\<close>

lemma read_chain_suffix:
  assumes "read_chain n blake3 zstd st r = Ok (as @ (b, m) # bs)" "n \<le> k"
  shows "read_chain k blake3 zstd st b = Ok ((b, m) # bs)"
  using assms
proof (induction as arbitrary: n r)
  case Nil
  then have "b = r"
    using read_chain_Ok[OF Nil(1)] by simp
  then show ?case
    using read_chain_more[OF Nil(1,2)] by simp
next
  case (Cons a as)
  obtain n' where n: "n = Suc n'" "n' \<le> k"
    using Cons.prems by (cases n) auto
  then obtain p where "read_chain n' blake3 zstd st p = Ok (as @ (b, m) # bs)"
    using Cons.prems(1) by (auto simp: obind_eq_Ok split: if_splits)
  then show ?case
    using Cons.IH n(2) by blast
qed

lemma validate_chain_iff:
  "validate_chain n blake3 zstd st r = Ok () \<longleftrightarrow>
     (\<exists>chain. read_chain n blake3 zstd st r = Ok chain \<and>
        (\<forall>(c, m) \<in> set chain. \<forall>e \<in> set (m_entries m). page_hash e \<in> dom (index_get (ps_index (ss_pages st)))))"
proof (induction n blake3 zstd st r rule: validate_chain.induct)
  case (2 n blake3 zstd st r)
  let ?present = "\<lambda>m. \<forall>e \<in> set (m_entries m). page_hash e \<in> dom (index_get (ps_index (ss_pages st)))"
  have found: "find (\<lambda>(_, ok). \<not> ok) (zip hs (contains_batch (ss_pages st) hs)) = None \<longleftrightarrow>
      (\<forall>h \<in> set hs. h \<in> dom (index_get (ps_index (ss_pages st))))" for hs
    by (induction hs) (auto simp: contains_batch_def)
  show ?case
  proof (cases "read_manifest blake3 zstd st r")
    case (Ok m)
    show ?thesis
    proof (cases "?present m")
      case False
      then obtain h ok where "find (\<lambda>(_, ok). \<not> ok)
          (zip (map page_hash (m_entries m)) (contains_batch (ss_pages st) (map page_hash (m_entries m)))) = Some (h, ok)"
        using found[of "map page_hash (m_entries m)"] by (metis (no_types, lifting) image_iff image_set not_None_eq surj_pair)
      then show ?thesis
        using Ok False by (auto simp: obind_eq_Ok Let_def) (metis domIff)
    next
      case True
      then have "find (\<lambda>(_, ok). \<not> ok)
          (zip (map page_hash (m_entries m)) (contains_batch (ss_pages st) (map page_hash (m_entries m)))) = None"
        using found by auto
      then show ?thesis
        using Ok True "2.IH"[OF refl refl] by (cases "m_parent m") (auto simp: obind_eq_Ok Let_def)
    qed
  qed auto
qed simp

lemma chain_lookup_mem: "chain_lookup ms p = Some e \<Longrightarrow> \<exists>m \<in> set ms. e \<in> set (m_entries m)"
  by (induction ms) (auto dest: entry_at_Some split: option.splits)

section \<open>The flatten cache\<close>

lemma map_of_drop_first: "k \<noteq> r \<Longrightarrow> map_of (drop_first r es) k = map_of es k"
  by (induction es) auto

lemma map_of_butlast: "map_of (butlast es) k = Some v \<Longrightarrow> map_of es k = Some v"
  by (induction es) (auto split: if_splits)

lemma fc_get_insert:
  "fc_get (fc_insert c r v) k = Some es \<Longrightarrow> k = r \<and> es = v \<or> fc_get c k = Some es"
  by (auto simp: fc_insert_def fc_get_def Let_def map_of_drop_first dest!: map_of_butlast split: if_splits)

definition fc_ok :: "(bytes \<Rightarrow> hash32) \<Rightarrow> (bytes \<Rightarrow> bytes option) \<Rightarrow> snapshot_store \<Rightarrow> bool" where
  "fc_ok blake3 zstd st \<longleftrightarrow>
     (\<forall>r es. fc_get (ss_flatten st) r = Some es \<longrightarrow>
        (\<exists>chain. read_chain MAX_CHAIN blake3 zstd st r = Ok chain \<and> flatten (map snd chain) = Ok es))"

text \<open>Manifests are read from the manifest directory only.\<close>

lemma read_manifest_cong:
  "ss_manifests st' = ss_manifests st \<Longrightarrow> read_manifest blake3 zstd st' = read_manifest blake3 zstd st"
  by (simp add: read_manifest_def read_manifest_bytes_def fun_eq_iff)

lemma read_chain_cong:
  assumes "ss_manifests st' = ss_manifests st"
  shows "read_chain n blake3 zstd st' = read_chain n blake3 zstd st"
proof (induction n)
  case (Suc n)
  show ?case
    by (rule ext) (simp add: Suc read_manifest_cong[OF assms] cong: if_cong)
qed (simp add: fun_eq_iff)

definition same_ram :: "manifest list \<Rightarrow> bool" where
  "same_ram ms \<longleftrightarrow> list_all (\<lambda>m. m_guest_ram_bytes m = m_guest_ram_bytes (hd ms)) ms"

lemma read_chain_ok:
  assumes "read_chain n blake3 zstd st r = Ok chain" "same_ram (map snd chain)"
  shows "chain_ok (map snd chain)"
  using read_chain_Ok[OF assms(1)] assms(2) by (auto simp: chain_ok_def same_ram_def last_map list_all_iff)

lemma flatten_ram_mismatch:
  assumes "read_chain n blake3 zstd st r = Ok chain" "\<not> same_ram (map snd chain)"
  shows "flatten (map snd chain) = Err RamMismatch"
  using read_chain_Ok[OF assms(1)] assms(2) unfolding same_ram_def flatten_def
  by (simp add: last_map Let_def del: list.pred_map)

lemma resolve_full:
  assumes chain: "read_chain MAX_CHAIN blake3 zstd st r = Ok chain" and fc: "fc_ok blake3 zstd st"
    and ram: "same_ram (map snd chain)"
  shows "\<exists>es c. resolve_pages blake3 zstd r None hashes_only st =
      (Ok (resolved_new es hashes_only), st\<lparr>ss_flatten := c\<rparr>) \<and>
    flatten (map snd chain) = Ok es \<and> fc_ok blake3 zstd (st\<lparr>ss_flatten := c\<rparr>)"
proof -
  obtain es where es: "flatten (map snd chain) = Ok es"
    using flatten_chain_ok[OF read_chain_ok[OF chain ram]] by blast
  have same: "read_chain n blake3 zstd (st\<lparr>ss_flatten := c\<rparr>) = read_chain n blake3 zstd st" for c n
    by (rule read_chain_cong) simp
  show ?thesis
  proof (cases "fc_get (ss_flatten st) r")
    case None
    have "fc_ok blake3 zstd (st\<lparr>ss_flatten := fc_insert (ss_flatten st) r es\<rparr>)"
      using fc chain es by (auto simp: fc_ok_def same dest!: fc_get_insert)
    then show ?thesis
      using chain es None by (simp add: resolve_pages_def flatten_chain_def sbind_def sreturn_def) blast
  next
    case (Some es')
    then have "flatten (map snd chain) = Ok es'"
      using fc chain unfolding fc_ok_def by (metis outcome.inject(1))
    then show ?thesis
      using chain Some fc
      by (intro exI[of _ es'] exI[of _ "ss_flatten st"])
        (simp add: resolve_pages_def flatten_chain_def sbind_def sreturn_def)
  qed
qed

text \<open>The segment below a baseline.\<close>

lemma resolve_delta:
  assumes chain: "read_chain MAX_CHAIN blake3 zstd st r = Ok (seg @ (b, m) # base)" and seg: "seg \<noteq> []"
    and new: "b \<notin> fst ` set seg" and ram: "same_ram (map snd (seg @ (b, m) # base))"
  shows "\<exists>ds. resolve_pages blake3 zstd r (Some b) hashes_only st = (Ok (resolved_new ds hashes_only), st) \<and>
    flatten_delta (map snd seg) = Ok ds \<and> segment_ok (map snd seg)"
proof -
  note c = read_chain_Ok[OF chain]
  have "list_all (\<lambda>(c, m). m_delta m) seg" "list_all (\<lambda>(c, m). read_manifest blake3 zstd st c = Ok m \<and> manifest_inv m) seg"
    using c by (simp_all add: butlast_append)
  then have "list_all m_delta (map snd seg)" "list_all manifest_inv (map snd seg)"
    by (auto simp: list_all_iff)
  moreover have "list_all (\<lambda>m. m_guest_ram_bytes m = m_guest_ram_bytes (hd (map snd seg))) (map snd seg)"
    using ram seg by (simp add: same_ram_def hd_append del: list.pred_map)
  ultimately have ok: "segment_ok (map snd seg)"
    using seg by (simp add: segment_ok_def del: list.pred_map)
  then obtain ds where ds: "flatten_delta (map snd seg) = Ok ds"
    using flatten_delta_segment_ok by blast
  have "takeWhile (\<lambda>(ref, _). ref \<noteq> b) (seg @ (b, m) # base) = seg"
    using new by (subst takeWhile_append2) force+
  then show ?thesis
    using chain ds seg ok by (auto simp: resolve_pages_def Let_def)
qed

section \<open>Properties\<close>

text \<open>The name of a manifest file determines its snapshot: decoding the 64 hexadecimal digits of
  a reference gives its 32 bytes back, so different references never share a path.\<close>

theorem manifest_names_are_injective:
  "hex_to_32 (ref_to_hex r) = Some (snapshot_ref_to_bytes r) \<and> (ref_to_hex r = ref_to_hex r' \<longleftrightarrow> r = r')"
  by (simp add: hex_round_trip ref_to_hex_inject)

text \<open>C19: Resolving a snapshot whose closure is complete streams its whole memory: one item per
  guest page in ascending order, with the hash of the manifest nearest the child and a payload of
  that hash, and then the end.  It fails with a size mismatch exactly if the manifests of the chain
  disagree on the memory size.  Cached and computed page tables agree.\<close>

theorem resolve_streams_every_page:
  assumes inv: "store_inv blake3 (ss_pages st)" and closed: "validate_closure blake3 zstd st r = Ok ()"
    and fc: "fc_ok blake3 zstd st"
  shows "\<exists>chain. read_chain MAX_CHAIN blake3 zstd st r = Ok chain \<and>
    (if same_ram (map snd chain)
     then \<exists>es st'. resolve_pages blake3 zstd r None False st = (Ok (resolved_new es False), st') \<and>
       fc_ok blake3 zstd st' \<and> length es = total_pages (snd (hd chain)) \<and>
       (\<forall>i < length es. page_index (es ! i) = of_nat i \<and> chain_lookup (map snd chain) (of_nat i) = Some (es ! i)) \<and>
       (\<exists>ps. length ps = length es \<and> (\<forall>i < length es. page_hash (es ! i) = PageHash (blake3 (ps ! i))) \<and>
          (\<forall>n. resolved_run n (get_batch blake3) (resolved_new es False) (ss_pages st') =
             take n (map2 (\<lambda>e p. Ok (page_index e, page_hash e, Some p)) es ps)))
     else fst (resolve_pages blake3 zstd r None False st) = Err (SnFlatten RamMismatch))"
proof -
  obtain chain where chain: "read_chain MAX_CHAIN blake3 zstd st r = Ok chain" and present: "\<forall>(c, m) \<in> set chain.
      \<forall>e \<in> set (m_entries m). page_hash e \<in> dom (index_get (ps_index (ss_pages st)))"
    using closed unfolding validate_closure_def validate_chain_iff by blast
  show ?thesis
  proof (cases "same_ram (map snd chain)")
    case False
    then have "fc_get (ss_flatten st) r = None"
      using fc chain flatten_ram_mismatch[OF chain] unfolding fc_ok_def
      by (metis not_None_eq outcome.distinct(1) outcome.inject(1))
    then show ?thesis
      using False chain flatten_ram_mismatch[OF chain False]
      by (simp add: resolve_pages_def flatten_chain_def sbind_def)
  next
    case True
    obtain es c where es: "resolve_pages blake3 zstd r None False st = (Ok (resolved_new es False), st\<lparr>ss_flatten := c\<rparr>)"
      "flatten (map snd chain) = Ok es" "fc_ok blake3 zstd (st\<lparr>ss_flatten := c\<rparr>)"
      using resolve_full[OF chain fc True] by blast
    have hd: "hd (map snd chain) = snd (hd chain)"
      using read_chain_Ok[OF chain] by (simp add: hd_map)
    have flat: "length es = total_pages (snd (hd chain))"
      "\<forall>i < length es. chain_lookup (map snd chain) (of_nat i) = Some (es ! i)"
      using flatten_chain_ok[OF read_chain_ok[OF chain True]] es(2) unfolding hd by auto
    have stored: "stored_page blake3 (ss_pages st) (page_hash e) \<noteq> None" if e: "e \<in> set es" for e
    proof -
      obtain i where "i < length es" "e = es ! i"
        using e by (auto simp: in_set_conv_nth)
      then obtain m where "m \<in> set (map snd chain)" "e \<in> set (m_entries m)"
        using chain_lookup_mem flat(2) by metis
      then show ?thesis
        using present by (fastforce simp: stored_page_def)
    qed
    let ?ps = "map (\<lambda>e. the (stored_page blake3 (ss_pages st) (page_hash e))) es"
    have item: "pages.item blake3 (ss_pages st) e =
        Ok (page_index e, page_hash e, Some (the (stored_page blake3 (ss_pages st) (page_hash e))))"
      if "e \<in> set es" for e
      using stored[OF that] by (auto simp: pages.item_def resolved_item_def)
    have "map (pages.item blake3 (ss_pages st)) es = map2 (\<lambda>e p. Ok (page_index e, page_hash e, Some p)) es ?ps"
      by (simp add: item zip_map2 zip_same_conv_map)
    then have "resolved_run n (get_batch blake3) (resolved_new es False) (ss_pages st) =
        take n (map2 (\<lambda>e p. Ok (page_index e, page_hash e, Some p)) es ?ps)" for n
      using pages.stream_items[OF inv] by simp
    moreover have "page_hash (es ! i) = PageHash (blake3 (?ps ! i))" if "i < length es" for i
      using stored_page_hash[OF inv] stored[of "es ! i"] that by fastforce
    ultimately show ?thesis
      using True chain es flat chain_lookup_Some by (auto intro!: exI[of _ es] exI[of _ ?ps])
  qed
qed

text \<open>A store with one full snapshot of one zero page.\<close>

definition demo_one :: manifest where
  "demo_one = \<lparr>m_version = 1, m_delta = False, m_parent = None, m_guest_ram_bytes = 4096,
     m_entries = [\<lparr>page_index = 0, page_hash = PageHash 4096\<rparr>],
     m_device_blob = \<lparr>blob_format = 1, blob_zstd = False, blob_bytes = [], blob_raw_len = 0\<rparr>\<rparr>"

definition demo_container :: bytes where
  "demo_container = encode len_hash demo_one"

lemma demo_one_ok: "manifest_wire_ok zstd demo_one"
  by (simp add: manifest_wire_ok_def manifest_inv_def demo_one_def manifest_consts usize_limit_def)

lemma demo_body: "length (encode_body demo_one) = 136"
  by (simp add: encode_body_def demo_one_def)

lemma demo_container_facts:
  "decode len_hash zstd demo_container = Ok demo_one" "snapshot_ref_of len_hash demo_container = SnapshotRef 136"
  "length demo_container = 168" "drop 136 demo_container = snapshot_ref_to_bytes (SnapshotRef 136)"
  using decode_encode[OF demo_one_ok, of len_hash zstd]
  by (simp_all add: demo_container_def snapshot_ref_of_def encode_def Let_def demo_body len_hash_def FOOTER_LEN_def)

definition snap_with :: "page_store \<Rightarrow> (snapshot_ref \<times> bytes) list \<Rightarrow> snapshot_store" where
  "snap_with ps ms =
     \<lparr>ss_pages = ps, ss_manifests = ms, ss_tmp = [], ss_gc = group_commit_new, ss_epoch = None,
      ss_flatten = fc_new 8, ss_manifests_total = of_nat (length ms), ss_logical_page_bytes = 0\<rparr>"

lemma demo_read:
  assumes "map_of ms (SnapshotRef 136) = Some demo_container"
  shows "read_manifest len_hash zstd (snap_with ps ms) (SnapshotRef 136) = Ok demo_one"
  using assms demo_container_facts by (simp add: read_manifest_def read_manifest_bytes_def snap_with_def)

lemma demo_pages:
  "\<exists>st outs ps. open_store len_hash (\<lambda>_. 7) 0 demo_opts [] [] = Ok st \<and>
     ingest len_hash (\<lambda>_. 7) id 0 [zero_page] st = (Ok outs, ps) \<and>
     store_inv len_hash ps \<and> dom (index_get (ps_index ps)) = {PageHash 4096}"
proof -
  obtain st where st: "store_inv len_hash st" "dom (index_get (ps_index st)) = {}" "room_for 2 st"
    "open_store len_hash (\<lambda>_. 7) 0 demo_opts [] [] = Ok st"
    using demo_store by blast
  then have "room_for (length [zero_page]) st"
    by (simp add: room_for_def)
  then obtain outs st' where "ingest len_hash (\<lambda>_. 7) id 0 [zero_page] st = (Ok outs, st')"
    "store_inv len_hash st'" "ingest_done len_hash [zero_page] st st' outs"
    using ingest_ok[OF st(1), of "[zero_page]" id "\<lambda>_. 7" 0] by (auto simp: zero_page_def)
  then show ?thesis
    using st(2,4) by (auto simp: ingest_done_def len_hash_def zero_page_def PAGE_SIZE_def)
qed

lemma demo_closed:
  assumes "map_of ms (SnapshotRef 136) = Some demo_container" "PageHash 4096 \<in> dom (index_get (ps_index ps))"
  shows "validate_closure len_hash zstd (snap_with ps ms) (SnapshotRef 136) = Ok ()"
proof -
  have "read_chain MAX_CHAIN len_hash zstd (snap_with ps ms) (SnapshotRef 136) = Ok [(SnapshotRef 136, demo_one)]"
    using demo_read[OF assms(1)] by (simp add: MAX_CHAIN_def numeral_eq_Suc) (simp add: demo_one_def)
  then show ?thesis
    using assms(2) unfolding validate_closure_def validate_chain_iff by (auto simp: demo_one_def snap_with_def)
qed

lemma snap_with_fc_ok: "fc_ok blake3 zstd (snap_with ps ms)"
  by (simp add: fc_ok_def snap_with_def fc_new_def fc_get_def)

theorem resolve_streams_every_page_witness:
  "\<exists>ps. validate_closure len_hash Some (snap_with ps [(SnapshotRef 136, demo_container)]) (SnapshotRef 136) = Ok () \<and>
     (\<exists>chain. read_chain MAX_CHAIN len_hash Some (snap_with ps [(SnapshotRef 136, demo_container)]) (SnapshotRef 136) = Ok chain)"
proof -
  obtain ps where ps: "store_inv len_hash ps" "dom (index_get (ps_index ps)) = {PageHash 4096}"
    using demo_pages by blast
  let ?st = "snap_with ps [(SnapshotRef 136, demo_container)]"
  have v: "validate_closure len_hash Some ?st (SnapshotRef 136) = Ok ()"
    using demo_closed ps(2) by simp
  have "store_inv len_hash (ss_pages ?st)"
    using ps(1) by (simp add: snap_with_def)
  from resolve_streams_every_page[OF this v snap_with_fc_ok] show ?thesis
    using v by blast
qed

text \<open>C20: A resolve against a baseline in the parent chain is an incremental restore: its entries
  written over the page table of the baseline give the page table of the snapshot; against the
  snapshot itself it is empty, and a baseline outside the chain is refused.\<close>

theorem resolve_against_baseline:
  assumes chain: "read_chain MAX_CHAIN blake3 zstd st r = Ok chain" and fc: "fc_ok blake3 zstd st"
    and ram: "same_ram (map snd chain)"
  shows "if b \<notin> fst ` set chain then resolve_pages blake3 zstd r (Some b) h st = (Err SnBaselineNotAncestor, st)
    else if b = r then resolve_pages blake3 zstd r (Some b) h st = (Ok (resolved_new [] h), st)
    else \<exists>es ds bs. fst (resolve_pages blake3 zstd r None h st) = Ok (resolved_new es h) \<and>
      fst (resolve_pages blake3 zstd b None h st) = Ok (resolved_new bs h) \<and>
      fst (resolve_pages blake3 zstd r (Some b) h st) = Ok (resolved_new ds h) \<and> es = overlay ds bs"
proof -
  note c = read_chain_Ok[OF chain]
  have split1: "\<exists>seg m base. chain = seg @ (b, m) # base \<and> b \<notin> fst ` set seg" if "b \<in> fst ` set chain"
  proof -
    have "\<exists>x \<in> set chain. fst x = b"
      using that by auto
    from split_list_first_prop[OF this] show ?thesis
      by fastforce
  qed
  consider "b \<notin> fst ` set chain" | "b = r" | seg m base where "chain = seg @ (b, m) # base" "b \<notin> fst ` set seg" "b \<noteq> r"
    using split1 by blast
  then show ?thesis
  proof cases
    case 1
    then show ?thesis
      using chain by (simp add: resolve_pages_def)
  next
    case 2
    then have "takeWhile (\<lambda>(ref, _). ref \<noteq> b) chain = []" "b \<in> fst ` set chain"
      using c by (cases chain; auto)+
    then show ?thesis
      using chain 2 by (simp add: resolve_pages_def)
  next
    case 3
    have seg: "seg \<noteq> []"
      using c 3(1,3) by auto
    obtain ds where ds: "resolve_pages blake3 zstd r (Some b) h st = (Ok (resolved_new ds h), st)"
      "flatten_delta (map snd seg) = Ok ds" "segment_ok (map snd seg)"
      using resolve_delta[OF chain[unfolded 3(1)] seg 3(2) ram[unfolded 3(1)]] by blast
    obtain es where es: "fst (resolve_pages blake3 zstd r None h st) = Ok (resolved_new es h)" "flatten (map snd chain) = Ok es"
      using resolve_full[OF chain fc ram, of h] by (metis fst_conv)
    have bchain: "read_chain MAX_CHAIN blake3 zstd st b = Ok ((b, m) # base)"
      using read_chain_suffix[OF chain[unfolded 3(1)]] by simp
    have ok: "chain_ok (map snd seg @ map snd ((b, m) # base))"
      using read_chain_ok[OF chain ram] by (simp add: 3(1))
    then have "same_ram (map snd ((b, m) # base))"
      using chain_ok_suffix(1)[OF ok] by (simp add: chain_ok_def same_ram_def del: list.pred_map)
    then obtain bs where bs: "fst (resolve_pages blake3 zstd b None h st) = Ok (resolved_new bs h)"
      "flatten (map snd ((b, m) # base)) = Ok bs"
      using resolve_full[OF bchain fc, of h] by (metis fst_conv)
    have "es = overlay ds bs"
      using flatten_overlay[OF ok ds(3) _ ds(2) bs(2)] es(2) by (simp add: 3(1))
    then show ?thesis
      using ds(1) es(1) bs(1) 3 by simp blast
  qed
qed

text \<open>A delta over the full snapshot, with a device blob of one byte.\<close>

definition demo_two :: manifest where
  "demo_two = demo_one\<lparr>m_delta := True, m_parent := Some (SnapshotRef 136),
     m_device_blob := \<lparr>blob_format = 1, blob_zstd = False, blob_bytes = [7], blob_raw_len = 1\<rparr>\<rparr>"

lemma demo_two_ok: "manifest_wire_ok zstd demo_two"
  by (simp add: manifest_wire_ok_def manifest_inv_def demo_one_def demo_two_def snapshot_ref_zero_def
      manifest_consts usize_limit_def)

lemma demo_two_body: "length (encode_body demo_two) = 137"
  by (simp add: encode_body_def demo_one_def demo_two_def)

lemma demo_two_facts:
  "decode len_hash zstd (encode len_hash demo_two) = Ok demo_two"
  "snapshot_ref_of len_hash (encode len_hash demo_two) = SnapshotRef 137"
  "length (encode len_hash demo_two) = 169"
  "drop 137 (encode len_hash demo_two) = snapshot_ref_to_bytes (SnapshotRef 137)"
  using decode_encode[OF demo_two_ok, of len_hash zstd]
  by (simp_all add: snapshot_ref_of_def encode_def Let_def demo_two_body len_hash_def FOOTER_LEN_def)

definition demo_pair :: "(snapshot_ref \<times> bytes) list" where
  "demo_pair = [(SnapshotRef 137, encode len_hash demo_two), (SnapshotRef 136, demo_container)]"

lemma demo_pair_chain:
  "read_chain MAX_CHAIN len_hash zstd (snap_with ps demo_pair) (SnapshotRef 137) =
     Ok [(SnapshotRef 137, demo_two), (SnapshotRef 136, demo_one)]"
proof -
  have "read_manifest len_hash zstd (snap_with ps demo_pair) (SnapshotRef 137) = Ok demo_two"
    using demo_two_facts by (simp add: read_manifest_def read_manifest_bytes_def snap_with_def demo_pair_def)
  moreover have "read_manifest len_hash zstd (snap_with ps demo_pair) (SnapshotRef 136) = Ok demo_one"
    by (rule demo_read) (simp add: demo_pair_def)
  ultimately show ?thesis
    by (simp add: MAX_CHAIN_def numeral_eq_Suc) (simp add: demo_one_def demo_two_def)
qed

theorem resolve_against_baseline_witness:
  "\<exists>ps es ds bs. fst (resolve_pages len_hash Some (SnapshotRef 137) None True (snap_with ps demo_pair)) = Ok (resolved_new es True) \<and>
     fst (resolve_pages len_hash Some (SnapshotRef 136) None True (snap_with ps demo_pair)) = Ok (resolved_new bs True) \<and>
     fst (resolve_pages len_hash Some (SnapshotRef 137) (Some (SnapshotRef 136)) True (snap_with ps demo_pair)) =
       Ok (resolved_new ds True) \<and> es = overlay ds bs"
proof -
  have "same_ram (map snd [(SnapshotRef 137, demo_two), (SnapshotRef 136, demo_one)])"
    by (simp add: same_ram_def demo_two_def)
  from resolve_against_baseline[OF demo_pair_chain snap_with_fc_ok this,
      where b = "SnapshotRef 136" and h = True and zstd = Some]
  show ?thesis
    by auto
qed

end
