(* ===== verification/Snapshot_Commit.thy ===== *)
theory Snapshot_Commit
  imports Snapshot_Read
begin

text \<open>
  Committing snapshots: what \<open>put_snapshot\<close> of the snapshot store does on every branch, the
  invariant that every stored manifest can be resolved, and the maintained counters.
\<close>

section \<open>Syncing the page store\<close>

text \<open>The packs that still have to be synced are on disk.\<close>

definition dirty_ok :: "page_store \<Rightarrow> bool" where
  "dirty_ok ps \<longleftrightarrow> list_all (\<lambda>p. file_at ps p \<noteq> None) (ps_dirty ps)"

lemma dirty_ok_iff: "dirty_ok ps \<longleftrightarrow> set (ps_dirty ps) \<subseteq> insert (ps_pack_id ps) (fst ` set (ps_files ps))"
proof -
  have "file_at ps p \<noteq> None \<longleftrightarrow> p \<in> insert (ps_pack_id ps) (fst ` set (ps_files ps))" for p
    unfolding file_at_def by (simp add: map_of_eq_None_iff del: not_None_eq)
  then show ?thesis
    unfolding dirty_ok_def list_all_iff by blast
qed

lemma rotate_dirty_ok: "dirty_ok ps \<Longrightarrow> dirty_ok (snd (rotate_locked blake3 crc32 now ps))"
  by (auto simp: rotate_locked_def Let_def dirty_ok_iff dom_update split: outcome.split)

lemma ensure_room_dirty_ok: "dirty_ok ps \<Longrightarrow> dirty_ok (snd (ensure_room blake3 crc32 now ps))"
  using rotate_dirty_ok[of ps blake3 crc32 now]
  by (auto simp: ensure_room_def sbind_def sreturn_def split: prod.splits outcome.splits)

lemma write_misses_dirty_ok:
  "dirty_ok ps \<Longrightarrow> dirty_ok (snd (write_misses blake3 crc32 now pages tw outs ps))"
proof (induction blake3 crc32 now pages tw outs ps rule: write_misses.induct)
  case (2 blake3 crc32 now pages h i tw outs ps)
  show ?case
  proof (cases "index_get (ps_index ps) h")
    case None
    obtain res ps1 where ps1: "ensure_room blake3 crc32 now ps = (res, ps1)" "dirty_ok ps1"
      using ensure_room_dirty_ok[OF "2.prems", of blake3 crc32 now] by (cases "ensure_room blake3 crc32 now ps") simp
    have "dirty_ok (ps1\<lparr>ps_writer := w, ps_dirty := List.insert (ps_pack_id ps1) (ps_dirty ps1), ps_index := ix\<rparr>)" for w ix
      using ps1(2) by (auto simp: dirty_ok_iff)
    then show ?thesis
      using None ps1 "2.IH"(1)[OF None] by (auto simp: sbind_def Let_def split: outcome.splits)
  next
    case (Some loc)
    then show ?thesis
      using "2.IH"(2)[OF Some] "2.prems" by simp
  qed
qed simp

lemma ingest_dirty_ok: "dirty_ok ps \<Longrightarrow> dirty_ok (snd (ingest blake3 crc32 order now pages ps))"
  using write_misses_dirty_ok[of ps]
  by (auto simp: ingest_def sbind_def Let_def split: prod.splits outcome.splits) (metis snd_conv)+

lemma open_store_dirty_ok: "open_store blake3 crc32 now opts files sidecars = Ok ps \<Longrightarrow> dirty_ok ps"
  by (auto simp: open_store_def Let_def obind_eq_Ok dirty_ok_def split: prod.splits)

text \<open>Everything the store holds has reached its files.\<close>

definition flushed :: "page_store \<Rightarrow> bool" where
  "flushed ps \<longleftrightarrow> ps_dirty ps = [] \<and> pw_write_buf (ps_writer ps) = []"

lemma same_logical_stored_page:
  assumes "logical_file ps' = logical_file ps" "ps_index ps' = ps_index ps"
  shows "stored_page blake3 ps' = stored_page blake3 ps"
  using logical_file_cong(2)[OF assms(1)] assms(2) by (simp add: stored_page_def fun_eq_iff)

lemma sync_ok:
  assumes inv: "store_inv blake3 ps" and dirty: "dirty_ok ps"
  shows "\<exists>synced ps'. sync ps = (Ok synced, ps') \<and> set (ps_dirty ps) \<subseteq> set synced \<and>
    store_inv blake3 ps' \<and> dirty_ok ps' \<and> flushed ps' \<and> ps_index ps' = ps_index ps \<and>
    grows ps ps' \<and> logical_file ps' = logical_file ps"
proof -
  let ?f = "ps\<lparr>ps_writer := flush_buf (ps_writer ps)\<rparr>"
  let ?ps = "?f\<lparr>ps_dirty := [], ps_new_files := False\<rparr>"
  have act: "active_ok blake3 ps"
    using inv by (simp add: store_inv_def)
  have "logical_file ?ps = logical_file ?f"
    by (simp add: logical_file_def fun_eq_iff)
  then have lf: "logical_file ?ps = logical_file ps"
    using flush_logical(1)[OF act] by (rule trans)
  have "active_ok blake3 ?ps"
    using flush_logical(2)[OF act] by (simp add: active_ok_def)
  moreover have "files_ok ?ps" "cache_ok ?ps"
    using inv by (simp_all add: store_inv_def files_ok_def cache_ok_def)
  ultimately have "store_inv blake3 ?ps"
    using inv logical_file_cong(1)[OF lf] by (simp add: store_inv_def)
  moreover have "pw_write_buf (flush_buf (ps_writer ps)) = []"
    using act flush_buf_log(2) by (auto simp: active_ok_def)
  moreover have "list_all (\<lambda>p. file_at (?f\<lparr>ps_dirty := []\<rparr>) p \<noteq> None) (List.insert (ps_pack_id ps) (ps_dirty ps))"
    using dirty by (auto simp: dirty_ok_def list_all_iff file_at_def)
  then have "sync ps = (Ok (List.insert (ps_pack_id ps) (ps_dirty ps)), ?ps)"
    by (simp add: sync_def Let_def)
  moreover have "grows ps ?ps"
    using lf by (simp add: grows_def)
  ultimately show ?thesis
    using lf by (intro exI[of _ "List.insert (ps_pack_id ps) (ps_dirty ps)"] exI[of _ ?ps])
      (auto simp: flushed_def dirty_ok_def)
qed

definition barrier_inv :: "snapshot_store \<Rightarrow> bool" where
  "barrier_inv st \<longleftrightarrow> gc_completed_gen (ss_gc st) \<le> gc_pending_gen (ss_gc st)"

text \<open>The state after an uncontended barrier.\<close>

definition after_barrier :: "page_store \<Rightarrow> snapshot_store \<Rightarrow> snapshot_store" where
  "after_barrier ps st =
     st\<lparr>ss_pages := ps, ss_gc := (let n = gc_pending_gen (ss_gc st) + 1
         in (ss_gc st)\<lparr>gc_pending_gen := n, gc_completed_gen := n, gc_flushing := False\<rparr>)\<rparr>"

lemma barrier_synced:
  assumes "barrier_inv st" "sync (ss_pages st) = (Ok synced, ps)"
  shows "barrier (on_pages sync) st = (Ok (), after_barrier ps st)"
  using assms by (simp add: barrier_def on_pages_def Let_def after_barrier_def barrier_inv_def)

lemma after_barrier_simps [simp]:
  "ss_pages (after_barrier ps st) = ps" "ss_manifests (after_barrier ps st) = ss_manifests st"
  "ss_epoch (after_barrier ps st) = ss_epoch st" "ss_flatten (after_barrier ps st) = ss_flatten st"
  "ss_tmp (after_barrier ps st) = ss_tmp st" "barrier_inv (after_barrier ps st)"
  "ss_manifests_total (after_barrier ps st) = ss_manifests_total st"
  "ss_logical_page_bytes (after_barrier ps st) = ss_logical_page_bytes st"
  by (simp_all add: after_barrier_def barrier_inv_def Let_def)

section \<open>The invariant of the store\<close>

text \<open>Every stored manifest is the encoding named by its reference, and its parents and pages are
  stored.  The depth of a chain is not bounded.\<close>

definition intact :: "(bytes \<Rightarrow> hash32) \<Rightarrow> (bytes \<Rightarrow> bytes option) \<Rightarrow> snapshot_store \<Rightarrow> bool" where
  "intact blake3 zstd st \<longleftrightarrow>
     (\<forall>r bs. map_of (ss_manifests st) r = Some bs \<longrightarrow> (\<exists>n. validate_chain n blake3 zstd st r = Ok ()))"

text \<open>What commits and reads need to run.\<close>

definition base_inv :: "(bytes \<Rightarrow> hash32) \<Rightarrow> snapshot_store \<Rightarrow> bool" where
  "base_inv blake3 st \<longleftrightarrow>
     store_inv blake3 (ss_pages st) \<and> dirty_ok (ss_pages st) \<and> barrier_inv st \<and> distinct (map fst (ss_manifests st))"

definition snap_inv :: "(bytes \<Rightarrow> hash32) \<Rightarrow> (bytes \<Rightarrow> bytes option) \<Rightarrow> snapshot_store \<Rightarrow> bool" where
  "snap_inv blake3 zstd st \<longleftrightarrow>
     base_inv blake3 st \<and> intact blake3 zstd st \<and> fc_ok blake3 zstd st"

lemma decode_stored:
  assumes "decode blake3 zstd bs = Ok m" "map_of (ss_manifests st) (snapshot_ref_of blake3 bs) = Some bs"
  shows "read_manifest_bytes blake3 st (snapshot_ref_of blake3 bs) = Ok bs"
    "read_manifest blake3 zstd st (snapshot_ref_of blake3 bs) = Ok m"
proof -
  have bs: "bs = encode_body m @ to_le_bytes 32 (blake3 (encode_body m))"
    using decode_Ok(1)[OF assms(1)] by (simp add: encode_def Let_def)
  have r: "snapshot_ref_of blake3 bs = SnapshotRef (blake3 (encode_body m))"
    by (simp add: snapshot_ref_of_def bs FOOTER_LEN_def)
  have "drop (length bs - 32) bs = to_le_bytes 32 (blake3 (encode_body m))" "32 \<le> length bs"
    by (simp_all add: bs)
  then show "read_manifest_bytes blake3 st (snapshot_ref_of blake3 bs) = Ok bs"
    using assms(2) by (simp add: read_manifest_bytes_def r)
  then show "read_manifest blake3 zstd st (snapshot_ref_of blake3 bs) = Ok m"
    using assms(1) by (simp add: read_manifest_def)
qed

lemma read_manifest_stored:
  assumes "read_manifest blake3 zstd st r = Ok m"
  shows "\<exists>bs. map_of (ss_manifests st) r = Some bs \<and> decode blake3 zstd bs = Ok m \<and>
    snapshot_ref_of blake3 bs = r \<and> read_manifest_bytes blake3 st r = Ok bs"
  using assms by (auto simp: read_manifest_def read_manifest_bytes_def obind_eq_Ok split: option.splits if_splits)

lemma intact_read:
  assumes "intact blake3 zstd st" "map_of (ss_manifests st) r = Some bs"
  shows "\<exists>m. read_manifest blake3 zstd st r = Ok m \<and> decode blake3 zstd bs = Ok m \<and>
    snapshot_ref_of blake3 bs = r \<and> read_manifest_bytes blake3 st r = Ok bs"
proof -
  obtain n where "validate_chain n blake3 zstd st r = Ok ()"
    using assms by (auto simp: intact_def)
  then obtain k where "validate_chain (Suc k) blake3 zstd st r = Ok ()"
    by (cases n) auto
  then obtain m where "read_manifest blake3 zstd st r = Ok m"
    by (auto simp: obind_eq_Ok simp del: obind.simps)
  then show ?thesis
    using read_manifest_stored assms(2) by fastforce
qed

section \<open>Adding manifests and pages\<close>

text \<open>A store that has all manifests of another, and all its pages.\<close>

definition extends :: "snapshot_store \<Rightarrow> snapshot_store \<Rightarrow> bool" where
  "extends st st' \<longleftrightarrow>
     map_of (ss_manifests st) \<subseteq>\<^sub>m map_of (ss_manifests st') \<and>
     dom (index_get (ps_index (ss_pages st))) \<subseteq> dom (index_get (ps_index (ss_pages st')))"

lemma extends_refl [simp]: "extends st st"
  by (simp add: extends_def)

lemma extends_read:
  assumes "extends st st'" "read_manifest blake3 zstd st r = Ok m"
  shows "read_manifest blake3 zstd st' r = Ok m"
proof -
  obtain bs where bs: "map_of (ss_manifests st) r = Some bs" "read_manifest_bytes blake3 st r = Ok bs"
    "decode blake3 zstd bs = Ok m"
    using read_manifest_stored[OF assms(2)] by blast
  then have "map_of (ss_manifests st') r = Some bs"
    using assms(1) by (auto simp: extends_def map_le_def dom_def)
  then show ?thesis
    using bs by (simp add: read_manifest_def read_manifest_bytes_def)
qed

lemma extends_chain:
  assumes "extends st st'" "read_chain n blake3 zstd st r = Ok chain"
  shows "read_chain n blake3 zstd st' r = Ok chain"
  using assms(2)
proof (induction n arbitrary: r chain)
  case (Suc n)
  then show ?case
    by (auto simp: obind_eq_Ok extends_read[OF assms(1)] split: if_splits)
qed simp

lemma extends_valid:
  assumes "extends st st'" "validate_chain n blake3 zstd st r = Ok ()"
  shows "validate_chain n blake3 zstd st' r = Ok ()"
  using assms extends_chain[OF assms(1)] unfolding validate_chain_iff extends_def by fast

lemma extends_fc_ok:
  assumes "extends st st'" "ss_flatten st' = ss_flatten st" "fc_ok blake3 zstd st"
  shows "fc_ok blake3 zstd st'"
  using assms(2,3) extends_chain[OF assms(1)] by (metis fc_ok_def)

section \<open>The commit\<close>

text \<open>The state after staging, renaming and counting a manifest that was not stored.\<close>

definition published :: "snapshot_ref \<Rightarrow> bytes \<Rightarrow> u64 \<Rightarrow> snapshot_store \<Rightarrow> snapshot_store" where
  "published r container grb st =
     count_manifest grb
       (st\<lparr>ss_tmp := AList.delete r (ss_tmp st), ss_manifests := AList.update r container (ss_manifests st)\<rparr>)"

lemma publish_steps:
  "sbind (rename_manifest r) (\<lambda>_ st. f (count_manifest grb st)) (stage_manifest r container st) =
     f (published r container grb st)"
  by (simp add: sbind_def rename_manifest_def stage_manifest_def published_def update_conv' delete_update_same)

lemma published_simps [simp]:
  "ss_pages (published r c g st) = ss_pages st" "ss_epoch (published r c g st) = ss_epoch st"
  "ss_flatten (published r c g st) = ss_flatten st"
  "map_of (ss_manifests (published r c g st)) = (map_of (ss_manifests st))(r \<mapsto> c)"
  "barrier_inv (published r c g st) = barrier_inv st"
  by (simp_all add: published_def count_manifest_def barrier_inv_def update_conv')

text \<open>The checks before the barrier, and the state at registration.\<close>

definition put_checks ::
  "(bytes \<Rightarrow> hash32) \<Rightarrow> (bytes \<Rightarrow> bytes option) \<Rightarrow> snapshot_store \<Rightarrow> bytes \<Rightarrow> (put_error, manifest) outcome" where
  "put_checks blake3 zstd st container =
     obind (map_err PutManifest (decode blake3 zstd container)) (\<lambda>m.
     obind (check_parent blake3 zstd st m) (\<lambda>_.
     if missing_pages st m \<noteq> [] then Err (PutMissingPages (missing_pages st m)) else Ok m))"

definition committed ::
  "(bytes \<Rightarrow> hash32) \<Rightarrow> bytes \<Rightarrow> manifest \<Rightarrow> page_store \<Rightarrow> snapshot_store \<Rightarrow> snapshot_store" where
  "committed blake3 container m ps st =
     (let r = snapshot_ref_of blake3 container; st1 = after_barrier ps st
      in if has_manifest st r then st1 else published r container (m_guest_ram_bytes m) st1)"

lemma put_snapshot_fails:
  assumes "put_checks blake3 zstd st container = Err e"
  shows "put_snapshot blake3 zstd container st = (Err e, st)"
  using assms by (simp add: put_snapshot_def put_checks_def)

lemma put_snapshot_run:
  assumes inv: "base_inv blake3 st" and ok: "put_checks blake3 zstd st container = Ok m"
  shows "\<exists>ps. put_snapshot blake3 zstd container st =
      register_put blake3 zstd (snapshot_ref_of blake3 container) (committed blake3 container m ps st) \<and>
    store_inv blake3 ps \<and> dirty_ok ps \<and> flushed ps \<and> ps_index ps = ps_index (ss_pages st) \<and>
    logical_file ps = logical_file (ss_pages st) \<and> grows (ss_pages st) ps"
proof -
  obtain synced ps where ps: "sync (ss_pages st) = (Ok synced, ps)" "store_inv blake3 ps" "dirty_ok ps" "flushed ps"
    "ps_index ps = ps_index (ss_pages st)" "logical_file ps = logical_file (ss_pages st)" "grows (ss_pages st) ps"
    using sync_ok inv unfolding base_inv_def by metis
  have "barrier (on_pages sync) st = (Ok (), after_barrier ps st)"
    using barrier_synced[OF _ ps(1)] inv by (simp add: base_inv_def)
  then have "put_snapshot blake3 zstd container st =
      register_put blake3 zstd (snapshot_ref_of blake3 container) (committed blake3 container m ps st)"
    using ok unfolding put_snapshot_def put_checks_def[symmetric]
    by (simp add: committed_def Let_def publish_steps has_manifest_def)
  then show ?thesis
    using ps by blast
qed

lemma missing_pages_eq:
  "missing_pages st m =
     filter (\<lambda>h. h \<notin> dom (index_get (ps_index (ss_pages st)))) (map page_hash (m_entries m))"
proof -
  have "map fst (filter (\<lambda>(_, ok). \<not> ok) (zip hs (contains_batch (ss_pages st) hs))) =
      filter (\<lambda>h. h \<notin> dom (index_get (ps_index (ss_pages st)))) hs" for hs
    by (induction hs) (auto simp: contains_batch_def)
  then show ?thesis
    by (simp add: missing_pages_def)
qed

lemma put_checks_Ok:
  assumes "put_checks blake3 zstd st container = Ok m"
  shows "decode blake3 zstd container = Ok m" "manifest_inv m"
    "\<forall>e \<in> set (m_entries m). page_hash e \<in> dom (index_get (ps_index (ss_pages st)))"
    "m_delta m \<Longrightarrow> \<exists>p pm. m_parent m = Some p \<and> read_manifest blake3 zstd st p = Ok pm \<and>
       m_guest_ram_bytes pm = m_guest_ram_bytes m"
proof -
  show dec: "decode blake3 zstd container = Ok m"
    using assms by (auto simp: put_checks_def obind_eq_Ok split: if_splits)
  show "manifest_inv m"
    using decode_Ok(2)[OF dec] by (simp add: manifest_wire_ok_def)
  show "\<forall>e \<in> set (m_entries m). page_hash e \<in> dom (index_get (ps_index (ss_pages st)))"
    using assms by (auto simp: put_checks_def obind_eq_Ok missing_pages_eq filter_empty_conv split: if_splits)
  show "\<exists>p pm. m_parent m = Some p \<and> read_manifest blake3 zstd st p = Ok pm \<and>
      m_guest_ram_bytes pm = m_guest_ram_bytes m" if "m_delta m"
    using assms that
    by (auto simp: put_checks_def obind_eq_Ok check_parent_def read_manifest_def split: if_splits)
qed

section \<open>Depth\<close>

lemma read_chain_at:
  assumes "read_chain k blake3 zstd st r = Ok c"
  shows "read_chain n blake3 zstd st r = (if length c \<le> n then Ok c else Err SnChainDepthExceeded)"
  using assms
proof (induction k arbitrary: r c n)
  case (Suc k)
  obtain m where m: "read_manifest blake3 zstd st r = Ok m"
    using Suc.prems by (auto simp: obind_eq_Ok)
  show ?case
  proof (cases n)
    case 0
    then show ?thesis
      using read_chain_Ok[OF Suc.prems] by simp
  next
    case (Suc n')
    show ?thesis
    proof (cases "m_delta m")
      case True
      then obtain p c' where "m_parent m = Some p" "read_chain k blake3 zstd st p = Ok c'" "c = (r, m) # c'"
        using Suc.prems m by (auto simp: obind_eq_Ok)
      then show ?thesis
        using Suc.IH[of p c' n'] m True Suc by simp
    next
      case False
      then show ?thesis
        using Suc.prems m Suc by auto
    qed
  qed
qed simp

lemma validate_chain_at:
  assumes "validate_chain k blake3 zstd st r = Ok ()" "read_chain k blake3 zstd st r = Ok c"
  shows "validate_chain n blake3 zstd st r = (if length c \<le> n then Ok () else Err SnChainDepthExceeded)"
  using assms
proof (induction k arbitrary: r c n)
  case (Suc k)
  obtain m where m: "read_manifest blake3 zstd st r = Ok m"
    using Suc.prems by (auto simp: obind_eq_Ok)
  show ?case
  proof (cases n)
    case 0
    then show ?thesis
      using read_chain_Ok[OF Suc.prems(2)] by simp
  next
    case (Suc n')
    show ?thesis
    proof (cases "m_delta m")
      case True
      then obtain p c' where "m_parent m = Some p" "read_chain k blake3 zstd st p = Ok c'" "c = (r, m) # c'"
        using Suc.prems m by (auto simp: obind_eq_Ok)
      then show ?thesis
        using Suc.IH[of p c' n'] m True Suc Suc.prems(1) by (auto simp: Let_def split: option.splits prod.splits)
    next
      case False
      then show ?thesis
        using Suc.prems m Suc by (auto simp: Let_def split: option.splits prod.splits)
    qed
  qed
qed simp

lemma intact_chain:
  assumes "intact blake3 zstd st" "map_of (ss_manifests st) r = Some bs"
  shows "\<exists>k c. read_chain k blake3 zstd st r = Ok c \<and>
    (\<forall>n. read_chain n blake3 zstd st r = (if length c \<le> n then Ok c else Err SnChainDepthExceeded)) \<and>
    (\<forall>n. validate_chain n blake3 zstd st r = (if length c \<le> n then Ok () else Err SnChainDepthExceeded))"
proof -
  obtain k where k: "validate_chain k blake3 zstd st r = Ok ()"
    using assms by (auto simp: intact_def)
  then obtain c where "read_chain k blake3 zstd st r = Ok c"
    unfolding validate_chain_iff by blast
  then show ?thesis
    using validate_chain_at[OF k] read_chain_at by blast
qed

section \<open>The committed state\<close>

lemma extends_after_barrier:
  "ps_index ps = ps_index (ss_pages st) \<Longrightarrow> extends st (after_barrier ps st)"
  by (simp add: extends_def)

lemma committed_extends:
  assumes "ps_index ps = ps_index (ss_pages st)"
  shows "extends st (committed blake3 container m ps st)"
  using assms by (auto simp: extends_def committed_def Let_def has_manifest_def map_le_def)

lemma committed_new:
  assumes ok: "put_checks blake3 zstd st container = Ok m"
    and new: "\<not> has_manifest st (snapshot_ref_of blake3 container)"
  shows "read_manifest blake3 zstd (committed blake3 container m ps st) (snapshot_ref_of blake3 container) = Ok m"
    "read_manifest_bytes blake3 (committed blake3 container m ps st) (snapshot_ref_of blake3 container) = Ok container"
  using decode_stored[OF put_checks_Ok(1)[OF ok], of "committed blake3 container m ps st"] new
  by (simp_all add: committed_def Let_def)

lemma committed_new_chain:
  assumes ok: "put_checks blake3 zstd st container = Ok m" and ix: "ps_index ps = ps_index (ss_pages st)"
    and new: "\<not> has_manifest st (snapshot_ref_of blake3 container)" and inv: "intact blake3 zstd st"
  defines "r \<equiv> snapshot_ref_of blake3 container" and "X \<equiv> committed blake3 container m ps st"
  shows "\<exists>k c. read_chain k blake3 zstd X r = Ok ((r, m) # c) \<and> validate_chain k blake3 zstd X r = Ok () \<and>
    (if m_delta m then read_chain (k - 1) blake3 zstd st (the (m_parent m)) = Ok c else c = [])"
proof -
  have rd: "read_manifest blake3 zstd X r = Ok m"
    using committed_new(1)[OF ok new] by (simp add: X_def r_def)
  have ext: "extends st X"
    unfolding X_def by (rule committed_extends[OF ix])
  have pages: "\<forall>e \<in> set (m_entries m). page_hash e \<in> dom (index_get (ps_index (ss_pages X)))"
    using put_checks_Ok(3)[OF ok] ix by (simp add: X_def committed_def Let_def)
  show ?thesis
  proof (cases "m_delta m")
    case True
    obtain p pm where p: "m_parent m = Some p" "read_manifest blake3 zstd st p = Ok pm"
      using put_checks_Ok(4)[OF ok True] by blast
    then obtain bs where "map_of (ss_manifests st) p = Some bs"
      using read_manifest_stored by blast
    then obtain n where v: "validate_chain n blake3 zstd st p = Ok ()"
      using inv by (auto simp: intact_def)
    then obtain c where c: "read_chain n blake3 zstd st p = Ok c"
      unfolding validate_chain_iff by blast
    have "read_chain n blake3 zstd X p = Ok c" "validate_chain n blake3 zstd X p = Ok ()"
      using extends_chain[OF ext c] extends_valid[OF ext v] by auto
    then have "read_chain (Suc n) blake3 zstd X r = Ok ((r, m) # c)" "validate_chain (Suc n) blake3 zstd X r = Ok ()"
      using rd p(1) True pages unfolding validate_chain_iff by auto
    then show ?thesis
      using True p(1) c by (intro exI[of _ "Suc n"] exI[of _ c]) simp
  next
    case False
    then have "read_chain (Suc 0) blake3 zstd X r = Ok [(r, m)]"
      using rd by simp
    moreover from this have "validate_chain (Suc 0) blake3 zstd X r = Ok ()"
      using pages unfolding validate_chain_iff by auto
    ultimately show ?thesis
      using False by (intro exI[of _ "Suc 0"] exI[of _ "[]"]) simp
  qed
qed

lemma committed_base_inv:
  assumes "base_inv blake3 st" "store_inv blake3 ps" "dirty_ok ps"
  shows "base_inv blake3 (committed blake3 container m ps st)"
proof -
  have "distinct (map fst (ss_manifests (committed blake3 container m ps st)))"
    using assms(1) by (simp add: base_inv_def committed_def Let_def published_def count_manifest_def distinct_update)
  then show ?thesis
    using assms by (simp add: base_inv_def committed_def Let_def)
qed

lemma committed_inv:
  assumes inv: "snap_inv blake3 zstd st" and ok: "put_checks blake3 zstd st container = Ok m"
    and ps: "store_inv blake3 ps" "dirty_ok ps" "ps_index ps = ps_index (ss_pages st)"
  shows "snap_inv blake3 zstd (committed blake3 container m ps st)" (is "snap_inv _ _ ?X")
proof -
  let ?r = "snapshot_ref_of blake3 container"
  have ext: "extends st ?X"
    by (rule committed_extends[OF ps(3)])
  have "\<exists>n. validate_chain n blake3 zstd ?X r = Ok ()" if r: "map_of (ss_manifests ?X) r = Some bs" for r bs
  proof (cases "map_of (ss_manifests st) r")
    case (Some bs')
    then show ?thesis
      using inv extends_valid[OF ext] by (metis intact_def snap_inv_def)
  next
    case None
    then have "r = ?r" "\<not> has_manifest st ?r"
      using r by (auto simp: committed_def Let_def has_manifest_def split: if_splits)
    then show ?thesis
      using committed_new_chain[OF ok ps(3), of] inv by (auto simp: snap_inv_def)
  qed
  moreover have "fc_ok blake3 zstd ?X"
    by (rule extends_fc_ok[OF ext]) (use inv in \<open>simp_all add: snap_inv_def committed_def Let_def\<close>)
  moreover have "base_inv blake3 ?X"
    using committed_base_inv ps(1,2) inv by (simp add: snap_inv_def)
  ultimately show ?thesis
    by (simp add: snap_inv_def intact_def)
qed

section \<open>Registration\<close>

lemma validate_chain_cong:
  assumes "ss_manifests st' = ss_manifests st" "ss_pages st' = ss_pages st"
  shows "validate_chain n blake3 zstd st' = validate_chain n blake3 zstd st"
proof (induction n)
  case (Suc n)
  show ?case
    unfolding fun_eq_iff validate_chain.simps Suc read_manifest_cong[OF assms(1)] assms(2) by blast
qed (simp add: fun_eq_iff)

lemma validate_closure_epoch [simp]:
  "validate_closure blake3 zstd (st\<lparr>ss_epoch := e\<rparr>) = validate_closure blake3 zstd st"
  unfolding validate_closure_def by (rule validate_chain_cong) simp_all

lemma snap_inv_cong:
  assumes "ss_manifests st' = ss_manifests st" "ss_pages st' = ss_pages st" "ss_gc st' = ss_gc st"
    "ss_flatten st' = ss_flatten st"
  shows "snap_inv blake3 zstd st' = snap_inv blake3 zstd st"
  using assms by (simp add: snap_inv_def base_inv_def intact_def fc_ok_def barrier_inv_def
      validate_chain_cong[OF assms(1,2)] read_chain_cong[OF assms(1)])

text \<open>A registration appends the reference to the late roots of the running epoch, if any.\<close>

definition registered :: "snapshot_ref \<Rightarrow> snapshot_store \<Rightarrow> snapshot_store" where
  "registered r st = st\<lparr>ss_epoch := map_option (\<lambda>late_roots. late_roots @ [r]) (ss_epoch st)\<rparr>"

lemma registered_simps [simp]:
  "ss_manifests (registered r st) = ss_manifests st" "ss_pages (registered r st) = ss_pages st"
  "read_manifest_bytes blake3 (registered r st) = read_manifest_bytes blake3 st"
  by (simp_all add: registered_def read_manifest_bytes_def fun_eq_iff)

lemma snap_inv_registered [simp]: "snap_inv blake3 zstd (registered r st) = snap_inv blake3 zstd st"
  by (rule snap_inv_cong) (simp_all add: registered_def)

lemma register_live_ref_state: "snd (register_live_ref blake3 zstd r st) = registered r st"
  by (simp add: register_live_ref_def registered_def Let_def split: option.split)

lemma register_live_ref_intact:
  assumes inv: "intact blake3 zstd st"
  shows "register_live_ref blake3 zstd r st =
    (if \<not> has_manifest st r then Err SnNotFound
     else if ss_epoch st = None \<or> (\<exists>c. read_chain MAX_CHAIN blake3 zstd st r = Ok c) then Ok ()
     else Err SnChainDepthExceeded, registered r st)"
proof (cases "map_of (ss_manifests st) r")
  case None
  then have "validate_closure blake3 zstd st r = Err SnNotFound"
    by (simp add: validate_closure_def MAX_CHAIN_def numeral_eq_Suc)
      (simp add: read_manifest_def read_manifest_bytes_def)
  then show ?thesis
    using None by (simp add: register_live_ref_def registered_def has_manifest_def Let_def split: option.split)
next
  case (Some bs)
  obtain c where "\<forall>n. read_chain n blake3 zstd st r = (if length c \<le> n then Ok c else Err SnChainDepthExceeded)"
    "\<forall>n. validate_chain n blake3 zstd st r = (if length c \<le> n then Ok () else Err SnChainDepthExceeded)"
    using intact_chain[OF inv Some] by blast
  then have "validate_closure blake3 zstd st r =
      (if \<exists>c. read_chain MAX_CHAIN blake3 zstd st r = Ok c then Ok () else Err SnChainDepthExceeded)"
    by (simp add: validate_closure_def)
  then show ?thesis
    using Some by (simp add: register_live_ref_def registered_def has_manifest_def Let_def split: option.split)
qed

lemma register_put_intact:
  assumes "intact blake3 zstd st" "has_manifest st r"
  shows "register_put blake3 zstd r st =
    (if ss_epoch st = None \<or> (\<exists>c. read_chain MAX_CHAIN blake3 zstd st r = Ok c) then Ok r
     else Err (PutOther SnChainDepthExceeded), registered r st)"
  using register_live_ref_intact[OF assms(1), of r] assms(2) by (simp add: register_put_def)

text \<open>What a checked commit answers, in terms of the state before it.\<close>

definition fits_depth ::
  "(bytes \<Rightarrow> hash32) \<Rightarrow> (bytes \<Rightarrow> bytes option) \<Rightarrow> snapshot_store \<Rightarrow> bytes \<Rightarrow> manifest \<Rightarrow> bool" where
  "fits_depth blake3 zstd st container m \<longleftrightarrow>
     (let r = snapshot_ref_of blake3 container in
      if has_manifest st r then \<exists>c. read_chain MAX_CHAIN blake3 zstd st r = Ok c
      else m_delta m \<longrightarrow> (\<exists>c. read_chain (MAX_CHAIN - 1) blake3 zstd st (the (m_parent m)) = Ok c))"

lemma committed_depth:
  assumes inv: "snap_inv blake3 zstd st" and ok: "put_checks blake3 zstd st container = Ok m"
    and ix: "ps_index ps = ps_index (ss_pages st)"
  shows "(\<exists>c. read_chain MAX_CHAIN blake3 zstd (committed blake3 container m ps st)
      (snapshot_ref_of blake3 container) = Ok c) \<longleftrightarrow> fits_depth blake3 zstd st container m"
proof (cases "has_manifest st (snapshot_ref_of blake3 container)")
  case True
  then have "ss_manifests (committed blake3 container m ps st) = ss_manifests st"
    by (simp add: committed_def)
  from read_chain_cong[OF this, of MAX_CHAIN blake3 zstd] show ?thesis
    using True by (simp add: fits_depth_def)
next
  case False
  let ?X = "committed blake3 container m ps st" and ?r = "snapshot_ref_of blake3 container"
  have "intact blake3 zstd st"
    using inv by (simp add: snap_inv_def)
  from committed_new_chain[OF ok ix False this] obtain k c where
    c: "read_chain k blake3 zstd ?X ?r = Ok ((?r, m) # c)"
    "if m_delta m then read_chain (k - 1) blake3 zstd st (the (m_parent m)) = Ok c else c = []"
    by blast
  have "(\<exists>c. read_chain MAX_CHAIN blake3 zstd ?X ?r = Ok c) \<longleftrightarrow> Suc (length c) \<le> MAX_CHAIN"
    by (simp add: read_chain_at[OF c(1)])
  moreover have "(\<exists>c. read_chain (MAX_CHAIN - 1) blake3 zstd st (the (m_parent m)) = Ok c) \<longleftrightarrow>
      length c \<le> MAX_CHAIN - 1" if "m_delta m"
  proof -
    have "read_chain (k - 1) blake3 zstd st (the (m_parent m)) = Ok c"
      using c(2) that by simp
    from read_chain_at[OF this, of "MAX_CHAIN - 1"] show ?thesis
      by simp
  qed
  ultimately show ?thesis
    using False c(2) by (auto simp: fits_depth_def Let_def MAX_CHAIN_def)
qed

text \<open>The commit of a snapshot, in one equation.\<close>

lemma put_snapshot_committed:
  assumes inv: "snap_inv blake3 zstd st" and ok: "put_checks blake3 zstd st container = Ok m"
  shows "\<exists>ps. put_snapshot blake3 zstd container st =
      (if ss_epoch st = None \<or> fits_depth blake3 zstd st container m then Ok (snapshot_ref_of blake3 container)
       else Err (PutOther SnChainDepthExceeded),
       registered (snapshot_ref_of blake3 container) (committed blake3 container m ps st)) \<and>
    snap_inv blake3 zstd (committed blake3 container m ps st) \<and> flushed ps \<and> store_inv blake3 ps \<and>
    ps_index ps = ps_index (ss_pages st) \<and> stored_page blake3 ps = stored_page blake3 (ss_pages st)"
proof -
  obtain ps where ps: "put_snapshot blake3 zstd container st =
      register_put blake3 zstd (snapshot_ref_of blake3 container) (committed blake3 container m ps st)"
    "store_inv blake3 ps" "dirty_ok ps" "flushed ps" "ps_index ps = ps_index (ss_pages st)"
    "logical_file ps = logical_file (ss_pages st)"
    using put_snapshot_run[OF _ ok] inv unfolding snap_inv_def by blast
  let ?X = "committed blake3 container m ps st"
  have X: "snap_inv blake3 zstd ?X"
    by (rule committed_inv[OF inv ok ps(2,3,5)])
  have "has_manifest ?X (snapshot_ref_of blake3 container)" "ss_epoch ?X = ss_epoch st"
    by (simp_all add: committed_def Let_def has_manifest_def)
  then show ?thesis
    using ps(1,2,4,5) X register_put_intact[of blake3 zstd ?X] committed_depth[OF inv ok ps(5)]
      same_logical_stored_page[OF ps(6,5)] by (auto simp: snap_inv_def)
qed

lemma snap_inv_flatten:
  assumes inv: "snap_inv blake3 zstd st" and chain: "read_chain MAX_CHAIN blake3 zstd st r = Ok chain"
    and es: "flatten (map snd chain) = Ok es"
  shows "snap_inv blake3 zstd (st\<lparr>ss_flatten := fc_insert (ss_flatten st) r es\<rparr>)" (is "snap_inv _ _ ?st")
proof -
  have same: "read_chain n blake3 zstd ?st = read_chain n blake3 zstd st" for n
    by (rule read_chain_cong) simp
  have "fc_ok blake3 zstd ?st"
    using inv chain es by (auto simp: fc_ok_def snap_inv_def same dest!: fc_get_insert)
  moreover have "validate_chain n blake3 zstd ?st = validate_chain n blake3 zstd st" for n
    by (rule validate_chain_cong) simp_all
  ultimately show ?thesis
    using inv by (simp add: snap_inv_def base_inv_def intact_def barrier_inv_def)
qed

lemma resolve_pages_inv:
  assumes inv: "snap_inv blake3 zstd st"
  shows "snap_inv blake3 zstd (snd (resolve_pages blake3 zstd r baseline hashes_only st))"
proof (cases "read_chain MAX_CHAIN blake3 zstd st r")
  case (Ok chain)
  show ?thesis
    using inv Ok snap_inv_flatten[OF inv Ok]
    by (auto simp: resolve_pages_def flatten_chain_def sbind_def sreturn_def Let_def
        split: option.split outcome.split prod.split)
qed (use inv in \<open>simp_all add: resolve_pages_def\<close>)

section \<open>Properties\<close>

text \<open>C21: What a commit answers, on every branch.  A container that does not decode is refused with
  the decoder's error; a delta is refused if its parent is not stored or has another memory size;
  a snapshot with absent pages is refused with all of them, in order.  Everything else is accepted
  with the reference of its bytes, except that during a collection a chain deeper than the limit is
  refused.  A refusal before the commit leaves the store as it was.\<close>

theorem put_snapshot_answers:
  assumes inv: "snap_inv blake3 zstd st"
  shows "case decode blake3 zstd container of
      Err e \<Rightarrow> put_snapshot blake3 zstd container st = (Err (PutManifest e), st)
    | Panic \<Rightarrow> False
    | Ok m \<Rightarrow>
        let absent = filter (\<lambda>h. h \<notin> dom (index_get (ps_index (ss_pages st)))) (map page_hash (m_entries m)) in
        if m_delta m \<and> \<not> has_manifest st (the (m_parent m))
        then put_snapshot blake3 zstd container st = (Err (PutUnknownParent (the (m_parent m))), st)
        else if m_delta m \<and> (\<exists>pm. read_manifest blake3 zstd st (the (m_parent m)) = Ok pm \<and>
          m_guest_ram_bytes pm \<noteq> m_guest_ram_bytes m)
        then put_snapshot blake3 zstd container st = (Err PutParentRamMismatch, st)
        else if absent \<noteq> [] then put_snapshot blake3 zstd container st = (Err (PutMissingPages absent), st)
        else fst (put_snapshot blake3 zstd container st) =
          (if ss_epoch st = None \<or> fits_depth blake3 zstd st container m
           then Ok (snapshot_ref_of blake3 container) else Err (PutOther SnChainDepthExceeded))"
proof (cases "decode blake3 zstd container")
  case (Ok m)
  have parent: "m_parent m \<noteq> None" if "m_delta m"
    using decode_Ok(2)[OF Ok] that by (auto simp: manifest_wire_ok_def manifest_inv_def)
  let ?absent = "filter (\<lambda>h. h \<notin> dom (index_get (ps_index (ss_pages st)))) (map page_hash (m_entries m))"
  consider p where "m_delta m" "m_parent m = Some p" "\<not> has_manifest st p"
    | p pm where "m_delta m" "m_parent m = Some p" "read_manifest blake3 zstd st p = Ok pm"
    | "\<not> m_delta m"
    using parent intact_read[of blake3 zstd st] inv by (fastforce simp: has_manifest_def snap_inv_def)
  then show ?thesis
  proof cases
    case (1 p)
    then have "put_checks blake3 zstd st container = Err (PutUnknownParent p)"
      using Ok by (simp add: put_checks_def check_parent_def read_manifest_bytes_def has_manifest_def)
    then show ?thesis
      using Ok 1 put_snapshot_fails by (simp add: Let_def)
  next
    case (2 p pm)
    then obtain bs where bs: "read_manifest_bytes blake3 st p = Ok bs" "decode blake3 zstd bs = Ok pm"
      "has_manifest st p"
      using read_manifest_stored by (fastforce simp: has_manifest_def)
    have "put_checks blake3 zstd st container =
        (if m_guest_ram_bytes pm \<noteq> m_guest_ram_bytes m then Err PutParentRamMismatch
         else if ?absent \<noteq> [] then Err (PutMissingPages ?absent) else Ok m)"
      using Ok 2 bs by (simp add: put_checks_def check_parent_def missing_pages_eq)
    then show ?thesis
      using Ok 2 bs put_snapshot_fails put_snapshot_committed[OF inv, of container m] by (auto simp: Let_def)
  next
    case 3
    then have "put_checks blake3 zstd st container =
        (if ?absent \<noteq> [] then Err (PutMissingPages ?absent) else Ok m)"
      using Ok by (simp add: put_checks_def check_parent_def missing_pages_eq)
    then show ?thesis
      using Ok 3 put_snapshot_fails put_snapshot_committed[OF inv, of container m] by (auto simp: Let_def)
  qed
next
  case (Err e)
  then show ?thesis
    using put_snapshot_fails[of blake3 zstd st container] by (simp add: put_checks_def)
next
  case Panic
  then show ?thesis
    using decode_no_panic by blast
qed

lemma snap_with_simps [simp]:
  "ss_pages (snap_with ps ms) = ps" "ss_manifests (snap_with ps ms) = ms" "ss_epoch (snap_with ps ms) = None"
  "barrier_inv (snap_with ps ms)"
  by (simp_all add: snap_with_def barrier_inv_def group_commit_new_def)

lemma demo_snap_inv:
  assumes "store_inv len_hash ps" "dirty_ok ps"
  shows "snap_inv len_hash zstd (snap_with ps [])"
  using assms snap_with_fc_ok[of len_hash zstd ps "[]"]
  by (simp add: snap_inv_def base_inv_def intact_def)

lemma demo_synced_pages:
  "\<exists>ps. store_inv len_hash ps \<and> dirty_ok ps \<and> dom (index_get (ps_index ps)) = {PageHash 4096}"
  using demo_pages open_store_dirty_ok ingest_dirty_ok by (metis snd_conv)

theorem put_snapshot_answers_witness:
  "\<exists>ps. snap_inv len_hash Some (snap_with ps []) \<and>
     fst (put_snapshot len_hash Some demo_container (snap_with ps [])) = Ok (SnapshotRef 136)"
proof -
  obtain ps where ps: "store_inv len_hash ps" "dirty_ok ps" "dom (index_get (ps_index ps)) = {PageHash 4096}"
    using demo_synced_pages by blast
  note inv = demo_snap_inv[OF ps(1,2), of Some]
  from put_snapshot_answers[OF inv, of demo_container] show ?thesis
    using inv ps(3) by (auto simp: demo_container_facts demo_one_def snap_with_def)
qed

text \<open>C22: An acknowledged commit is complete.  The reference is that of the container; all pages the
  store holds have reached their files; the container can be read back (unless the reference was
  stored already: then its stored bytes stay, and they have the same hash); no other manifest is
  touched; every chain that could be read can still be read; and the store stays in order.\<close>

theorem put_snapshot_commits:
  assumes inv: "snap_inv blake3 zstd st" and put: "put_snapshot blake3 zstd container st = (Ok r, st')"
  shows "r = snapshot_ref_of blake3 container \<and> snap_inv blake3 zstd st' \<and> flushed (ss_pages st') \<and>
    stored_page blake3 (ss_pages st') = stored_page blake3 (ss_pages st) \<and>
    map_of (ss_manifests st') =
      (if has_manifest st r then map_of (ss_manifests st) else (map_of (ss_manifests st))(r \<mapsto> container)) \<and>
    (\<exists>bs. get_snapshot blake3 st' r = Ok bs \<and> snapshot_ref_of blake3 bs = r \<and>
       (\<not> has_manifest st r \<longrightarrow> bs = container)) \<and>
    (\<forall>n r' chain. read_chain n blake3 zstd st r' = Ok chain \<longrightarrow> read_chain n blake3 zstd st' r' = Ok chain)"
proof -
  obtain m where ok: "put_checks blake3 zstd st container = Ok m"
    using put by (auto simp: put_snapshot_def put_checks_def[symmetric] split: outcome.splits)
  from put_snapshot_committed[OF inv ok] put obtain ps where
    ps: "flushed ps" "store_inv blake3 ps" "ps_index ps = ps_index (ss_pages st)"
      "stored_page blake3 ps = stored_page blake3 (ss_pages st)"
    and r: "r = snapshot_ref_of blake3 container" and X: "snap_inv blake3 zstd (committed blake3 container m ps st)"
    and st': "st' = registered r (committed blake3 container m ps st)"
    by (auto split: if_splits)
  let ?X = "committed blake3 container m ps st"
  have ms: "map_of (ss_manifests ?X) =
      (if has_manifest st r then map_of (ss_manifests st) else (map_of (ss_manifests st))(r \<mapsto> container))"
    by (simp add: committed_def Let_def r)
  then obtain bs where bs: "map_of (ss_manifests ?X) r = Some bs" "\<not> has_manifest st r \<longrightarrow> bs = container"
    by (cases "map_of (ss_manifests st) r") (auto simp: has_manifest_def)
  have "get_snapshot blake3 ?X r = Ok bs \<and> snapshot_ref_of blake3 bs = r"
    using intact_read[OF _ bs(1), of blake3 zstd] X by (auto simp: snap_inv_def get_snapshot_def)
  moreover have "read_chain n blake3 zstd st' r' = Ok chain" if "read_chain n blake3 zstd st r' = Ok chain" for n r' chain
    using extends_chain[OF committed_extends[OF ps(3)] that] read_chain_cong[of st' ?X] by (simp add: st')
  moreover have "ss_pages ?X = ps"
    by (simp add: committed_def Let_def)
  ultimately show ?thesis
    using r X ps ms bs(2) by (auto simp: st' get_snapshot_def)
qed

theorem put_snapshot_commits_witness:
  "\<exists>ps st'. put_snapshot len_hash Some demo_container (snap_with ps []) = (Ok (SnapshotRef 136), st') \<and>
     get_snapshot len_hash st' (SnapshotRef 136) = Ok demo_container \<and> flushed (ss_pages st')"
proof -
  obtain ps where ps: "store_inv len_hash ps" "dirty_ok ps" "dom (index_get (ps_index ps)) = {PageHash 4096}"
    using demo_synced_pages by blast
  note inv = demo_snap_inv[OF ps(1,2), of Some]
  have "put_checks len_hash Some (snap_with ps []) demo_container = Ok demo_one"
    using ps(3) by (auto simp: put_checks_def demo_container_facts check_parent_def missing_pages_eq demo_one_def snap_with_def)
  from put_snapshot_committed[OF inv this] obtain st' where
    put: "put_snapshot len_hash Some demo_container (snap_with ps []) = (Ok (SnapshotRef 136), st')"
    by (auto simp: demo_container_facts snap_with_def)
  have "\<not> has_manifest (snap_with ps []) (SnapshotRef 136)"
    by (simp add: has_manifest_def snap_with_def)
  then show ?thesis
    using put put_snapshot_commits[OF inv put] by blast
qed

text \<open>C23: The store stays in order under every operation of its interface, whatever it returns:
  commits, registrations, reads of pages and the marks of an epoch.  In particular a commit that is
  refused at its registration has published its manifest, and that manifest can be resolved but for
  its depth.\<close>

theorem operations_keep_invariant:
  assumes inv: "snap_inv blake3 zstd st"
  shows "snap_inv blake3 zstd (snd (put_snapshot blake3 zstd container st)) \<and>
    snap_inv blake3 zstd (snd (register_live_ref blake3 zstd r st)) \<and>
    snap_inv blake3 zstd (snd (resolve_pages blake3 zstd r baseline hashes_only st)) \<and>
    snap_inv blake3 zstd (snd (begin_gc_epoch roots st)) \<and>
    snap_inv blake3 zstd (snd (drain_late_roots st)) \<and> snap_inv blake3 zstd (end_gc_epoch st)"
proof -
  have "snap_inv blake3 zstd (snd (put_snapshot blake3 zstd container st))"
  proof (cases "put_checks blake3 zstd st container")
    case (Ok m)
    then show ?thesis
      using put_snapshot_committed[OF inv Ok] by auto
  next
    case (Err e)
    then show ?thesis
      using inv by (simp add: put_snapshot_fails)
  next
    case Panic
    then have "snd (put_snapshot blake3 zstd container st) = st"
      by (simp add: put_snapshot_def put_checks_def)
    then show ?thesis
      using inv by simp
  qed
  moreover have "snap_inv blake3 zstd (snd (resolve_pages blake3 zstd r baseline hashes_only st))"
    by (rule resolve_pages_inv[OF inv])
  moreover have "snap_inv blake3 zstd (st\<lparr>ss_epoch := e\<rparr>)" for e
    using inv snap_inv_cong[of "st\<lparr>ss_epoch := e\<rparr>" st] by simp
  ultimately show ?thesis
    using inv by (auto simp: register_live_ref_state begin_gc_epoch_def drain_late_roots_def end_gc_epoch_def Let_def
        split: option.split outcome.split)
qed

theorem operations_keep_invariant_witness:
  "\<exists>ps. snap_inv len_hash Some (snd (put_snapshot len_hash Some demo_container (snap_with ps [])))"
proof -
  obtain ps where ps: "store_inv len_hash ps" "dirty_ok ps"
    using demo_synced_pages by blast
  show ?thesis
    using operations_keep_invariant[OF demo_snap_inv[OF ps, of Some], of demo_container] by blast
qed

end
