(* ===== verification/Gc_Engine.thy ===== *)
theory Gc_Engine
  imports Snapshot_Commit Complex_Main
begin

text \<open>
  The collector (\<^verbatim>\<open>crates/snapstore-store/src/gc.rs\<close>): marking, the sweep and compaction of packs, the
  sweep of manifests.  A cycle works on the store, the live set and the report.  The hooks are the
  source's: a callback run at named points, here any function on the store, and the deliberate
  faults of the negative tests.  Other threads run between the source's critical sections too:
  \<open>hk_round\<close> and \<open>hk_batch\<close> are what they do while the commit gate is free between two
  rounds of the straggler loop and between two batches of the manifest sweep.  Liveness is compared
  with the threshold as rational numbers.
\<close>

definition RECORD_BYTES :: u64 where
  "RECORD_BYTES = 37 + 4096"

datatype gc_point =
    BeforeMark
  | BeforePackSweep pack_id
  | AfterCopy pack_id
  | BeforeFinalize pack_id
  | AfterRepoint pack_id
  | AfterUnlink pack_id
  | BeforeManifestSweep

datatype sabotage = DropPinsFromRoots | SkipLateRootsDrain | UnlinkBeforeRepoint | SkipIndexRemoveOfDead

type_synonym store_change = "snapshot_store \<Rightarrow> snapshot_store"

record gc_hooks =
  hk_at :: "(gc_point \<Rightarrow> store_change) option"
  hk_sabotage :: "sabotage option"
  hk_round :: "pack_id \<Rightarrow> store_change list"
  hk_batch :: "nat \<Rightarrow> store_change"

definition hooks_none :: gc_hooks where
  "hooks_none = \<lparr>hk_at = None, hk_sabotage = None, hk_round = (\<lambda>_. []), hk_batch = (\<lambda>_. id)\<rparr>"

record live_set =
  lv_pages :: "Snap_Types.page_hash set"
  lv_manifests :: "snapshot_ref set"

record sweep_report =
  sr_pages_reclaimed :: u64
  sr_bytes_reclaimed :: u64
  sr_packs_compacted :: u64
  sr_packs_deleted :: u64
  sr_manifests_deleted :: u64
  sr_missing_root_manifests :: u64

definition live_empty :: live_set where
  "live_empty = \<lparr>lv_pages = {}, lv_manifests = {}\<rparr>"

definition report_empty :: sweep_report where
  "report_empty = \<lparr>sr_pages_reclaimed = 0, sr_bytes_reclaimed = 0, sr_packs_compacted = 0,
     sr_packs_deleted = 0, sr_manifests_deleted = 0, sr_missing_root_manifests = 0\<rparr>"

record gc_cycle =
  cy_store :: snapshot_store
  cy_live :: live_set
  cy_report :: sweep_report

type_synonym 'a gc_op = "(gc_cycle, snap_error, 'a) op"

definition fire :: "gc_hooks \<Rightarrow> gc_point \<Rightarrow> gc_cycle \<Rightarrow> gc_cycle" where
  "fire hooks p cy = (case hk_at hooks of Some cb \<Rightarrow> cy\<lparr>cy_store := cb p (cy_store cy)\<rparr> | None \<Rightarrow> cy)"

definition is_sabotage :: "gc_hooks \<Rightarrow> sabotage \<Rightarrow> bool" where
  "is_sabotage hooks s \<longleftrightarrow> hk_sabotage hooks = Some s"

section \<open>Marking\<close>

text \<open>A manifest and its pages become live.\<close>

definition mark_manifest :: "snapshot_ref \<Rightarrow> manifest \<Rightarrow> gc_cycle \<Rightarrow> gc_cycle" where
  "mark_manifest r m cy = cy\<lparr>cy_live := (cy_live cy)
     \<lparr>lv_manifests := insert r (lv_manifests (cy_live cy)),
      lv_pages := lv_pages (cy_live cy) \<union> page_hash ` set (m_entries m)\<rparr>\<rparr>"

text \<open>One root: the walk to the full ancestor or to a manifest walked before.  The first argument is
  how many manifests may still be visited; a manifest that is missing is skipped only at the root.\<close>

fun mark_chain ::
  "nat \<Rightarrow> bool \<Rightarrow> (bytes \<Rightarrow> hash32) \<Rightarrow> (bytes \<Rightarrow> bytes option) \<Rightarrow> snapshot_ref \<Rightarrow> unit gc_op" where
  "mark_chain 0 at_root blake3 zstd cursor cy = (Err SnChainDepthExceeded, cy)"
| "mark_chain (Suc n) at_root blake3 zstd cursor cy =
     (if cursor \<in> lv_manifests (cy_live cy) then (Ok (), cy)
      else case read_manifest_bytes blake3 (cy_store cy) cursor of
        Err e \<Rightarrow>
          if e = SnNotFound \<and> at_root
          then (Ok (), cy\<lparr>cy_report := (cy_report cy)
                  \<lparr>sr_missing_root_manifests := sr_missing_root_manifests (cy_report cy) + 1\<rparr>\<rparr>)
          else (Err e, cy)
      | Panic \<Rightarrow> (Panic, cy)
      | Ok bs \<Rightarrow>
          (case decode blake3 zstd bs of
             Err e \<Rightarrow> (Err (SnManifest e), cy)
           | Panic \<Rightarrow> (Panic, cy)
           | Ok m \<Rightarrow>
               if m_delta m
               then (case m_parent m of
                       Some p \<Rightarrow> mark_chain n False blake3 zstd p (mark_manifest cursor m cy)
                     | None \<Rightarrow> (Panic, mark_manifest cursor m cy))
               else (Ok (), mark_manifest cursor m cy)))"

fun gc_mark ::
  "(bytes \<Rightarrow> hash32) \<Rightarrow> (bytes \<Rightarrow> bytes option) \<Rightarrow> snapshot_ref list \<Rightarrow> unit gc_op" where
  "gc_mark blake3 zstd [] cy = (Ok (), cy)"
| "gc_mark blake3 zstd (r # roots) cy =
     sbind (mark_chain MAX_CHAIN True blake3 zstd r) (\<lambda>_. gc_mark blake3 zstd roots) cy"

section \<open>Copying live records\<close>

text \<open>A page-store operation inside a cycle.\<close>

definition gc_pages :: "'a store_op \<Rightarrow> 'a gc_op" where
  "gc_pages f cy =
     (let (r, st) = on_pages f (cy_store cy) in (map_err SnPageStore r, cy\<lparr>cy_store := st\<rparr>))"

text \<open>The copy loop; the file of the new pack holds what its writer has flushed.\<close>

fun copy_loop ::
  "(bytes \<Rightarrow> hash32) \<Rightarrow> (Snap_Types.page_hash \<times> page_loc) list \<Rightarrow> gc_pack_writer \<Rightarrow> gc_pack_writer gc_op" where
  "copy_loop blake3 [] w cy = (Ok w, cy)"
| "copy_loop blake3 ((h, loc) # recs) w cy =
     sbind (gc_pages (read_record blake3 (loc_pack loc) (unat (loc_offset loc)) h)) (\<lambda>payload cy.
       if length payload \<noteq> PAGE_SIZE then (Err (SnMissingPage h), cy)
       else
         sbind (gc_pages (\<lambda>ps. case gc_append w h payload of
                   Ok (_, w) \<Rightarrow>
                     (Ok w, ps\<lparr>ps_files := AList.update (gw_pack_id w) (pw_file (gw_writer w)) (ps_files ps)\<rparr>)
                 | Err e \<Rightarrow> (Err e, ps)
                 | Panic \<Rightarrow> (Panic, ps)))
           (copy_loop blake3 recs) cy) cy"

definition gc_copy_records ::
  "(bytes \<Rightarrow> hash32) \<Rightarrow> (bytes \<Rightarrow> u32) \<Rightarrow> u64 \<Rightarrow> (Snap_Types.page_hash \<times> page_loc) list \<Rightarrow>
     (Snap_Types.page_hash \<times> page_loc) list gc_op" where
  "gc_copy_records blake3 crc32 now records =
     sbind (gc_pages (create_gc_pack now)) (\<lambda>w.
     sbind (copy_loop blake3 records w) (\<lambda>w.
     sbind (gc_pages (seal_and_publish blake3 crc32 w)) (\<lambda>(new_pack, offsets).
     sreturn (locs_of new_pack offsets))))"

section \<open>Sweeping packs\<close>

definition on_store :: "store_change \<Rightarrow> gc_cycle \<Rightarrow> gc_cycle" where
  "on_store f cy = cy\<lparr>cy_store := f (cy_store cy)\<rparr>"

definition on_page_state :: "(page_store \<Rightarrow> page_store) \<Rightarrow> gc_cycle \<Rightarrow> gc_cycle" where
  "on_page_state f = on_store (\<lambda>st. st\<lparr>ss_pages := f (ss_pages st)\<rparr>)"

definition count_report :: "(sweep_report \<Rightarrow> sweep_report) \<Rightarrow> gc_cycle \<Rightarrow> gc_cycle" where
  "count_report f cy = cy\<lparr>cy_report := f (cy_report cy)\<rparr>"

text \<open>The drain, unless the hooks skip it.\<close>

definition drain_stragglers :: "gc_hooks \<Rightarrow> gc_cycle \<Rightarrow> snapshot_ref list \<times> gc_cycle" where
  "drain_stragglers hooks cy =
     (if is_sabotage hooks SkipLateRootsDrain then ([], cy)
      else let (late, st) = drain_late_roots (cy_store cy) in (late, cy\<lparr>cy_store := st\<rparr>))"

text \<open>The index changes made at once under the gate: copied records are repointed, dead ones removed
  unless they have become live.\<close>

definition repoint_all :: "pack_id \<Rightarrow> (Snap_Types.page_hash \<times> page_loc) list \<Rightarrow> page_store \<Rightarrow> page_store" where
  "repoint_all p copied ps = fold (\<lambda>(h, new_loc) ps. fst (store_repoint h p new_loc ps)) copied ps"

definition remove_dead ::
  "pack_id \<Rightarrow> Snap_Types.page_hash set \<Rightarrow> (Snap_Types.page_hash \<times> page_loc) list \<Rightarrow> page_store \<Rightarrow> page_store" where
  "remove_dead p live_pages dead ps =
     fold (\<lambda>(h, _) ps. if h \<notin> live_pages then fst (store_remove h p ps) else ps) dead ps"

definition unlink_pack :: "pack_id \<Rightarrow> page_store \<Rightarrow> page_store" where
  "unlink_pack p ps = delete_pack p (invalidate_pack_handle p ps)"

definition finalize_index ::
  "gc_hooks \<Rightarrow> pack_id \<Rightarrow> (Snap_Types.page_hash \<times> page_loc) list \<Rightarrow> (Snap_Types.page_hash \<times> page_loc) list \<Rightarrow>
     gc_cycle \<Rightarrow> gc_cycle" where
  "finalize_index hooks p copied_all dead cy =
     (let cy = (if is_sabotage hooks UnlinkBeforeRepoint
                then fire hooks (AfterUnlink p) (on_page_state (unlink_pack p) cy) else cy);
          cy = on_page_state (repoint_all p copied_all) cy
      in if is_sabotage hooks SkipIndexRemoveOfDead then cy
         else on_page_state (remove_dead p (lv_pages (cy_live cy)) dead) cy)"

text \<open>Records that became live after the pack was partitioned and are not copied yet.\<close>

definition newly_live ::
  "live_set \<Rightarrow> (Snap_Types.page_hash \<times> page_loc) list \<Rightarrow> (Snap_Types.page_hash \<times> page_loc) list \<Rightarrow>
     (Snap_Types.page_hash \<times> page_loc) list" where
  "newly_live live dead copied_all =
     filter (\<lambda>(h, _). h \<in> lv_pages live \<and> h \<notin> fst ` set copied_all) dead"

text \<open>One round with stragglers: walk their closures, copy what they made live.\<close>

definition straggler_round ::
  "(bytes \<Rightarrow> hash32) \<Rightarrow> (bytes \<Rightarrow> bytes option) \<Rightarrow> (bytes \<Rightarrow> u32) \<Rightarrow> u64 \<Rightarrow> snapshot_ref list \<Rightarrow>
     (Snap_Types.page_hash \<times> page_loc) list \<Rightarrow> (Snap_Types.page_hash \<times> page_loc) list \<Rightarrow>
     (Snap_Types.page_hash \<times> page_loc) list gc_op" where
  "straggler_round blake3 zstd crc32 now stragglers copied_all dead =
     sbind (gc_mark blake3 zstd stragglers) (\<lambda>_ cy.
       let fresh = newly_live (cy_live cy) dead copied_all
       in if fresh \<noteq> []
          then sbind (gc_copy_records blake3 crc32 now fresh) (\<lambda>locs. sreturn (copied_all @ locs)) cy
          else (Ok copied_all, cy))"

text \<open>The straggler loop: the gate is free after each round with stragglers, and whoever runs then is
  the next element of the list.  Once the list is used up nobody registers any more, and the loop
  ends with the next drain.\<close>

fun straggler_loop ::
  "(bytes \<Rightarrow> hash32) \<Rightarrow> (bytes \<Rightarrow> bytes option) \<Rightarrow> (bytes \<Rightarrow> u32) \<Rightarrow> u64 \<Rightarrow> gc_hooks \<Rightarrow> store_change list \<Rightarrow> pack_id \<Rightarrow>
     (Snap_Types.page_hash \<times> page_loc) list \<Rightarrow> (Snap_Types.page_hash \<times> page_loc) list \<Rightarrow> unit gc_op" where
  "straggler_loop blake3 zstd crc32 now hooks (f # fs) p copied_all dead cy =
     (let (stragglers, cy) = drain_stragglers hooks cy
      in if stragglers = [] then (Ok (), finalize_index hooks p copied_all dead cy)
         else sbind (straggler_round blake3 zstd crc32 now stragglers copied_all dead) (\<lambda>copied_all cy.
           straggler_loop blake3 zstd crc32 now hooks fs p copied_all dead (on_store f cy)) cy)"
| "straggler_loop blake3 zstd crc32 now hooks [] p copied_all dead cy =
     (let (stragglers, cy) = drain_stragglers hooks cy
      in if stragglers = [] then (Ok (), finalize_index hooks p copied_all dead cy)
         else sbind (straggler_round blake3 zstd crc32 now stragglers copied_all dead) (\<lambda>copied_all cy.
           (Ok (), finalize_index hooks p copied_all dead cy)) cy)"

definition finalize_and_unlink ::
  "(bytes \<Rightarrow> hash32) \<Rightarrow> (bytes \<Rightarrow> bytes option) \<Rightarrow> (bytes \<Rightarrow> u32) \<Rightarrow> u64 \<Rightarrow> gc_hooks \<Rightarrow> pack_id \<Rightarrow>
     (Snap_Types.page_hash \<times> page_loc) list \<Rightarrow> (Snap_Types.page_hash \<times> page_loc) list \<Rightarrow> unit gc_op" where
  "finalize_and_unlink blake3 zstd crc32 now hooks p copied dead cy =
     sbind (straggler_loop blake3 zstd crc32 now hooks (hk_round hooks p) p copied dead) (\<lambda>_ cy.
       let cy = fire hooks (AfterRepoint p) cy
       in (Ok (),
           if is_sabotage hooks UnlinkBeforeRepoint then cy
           else fire hooks (AfterUnlink p) (on_page_state (unlink_pack p) cy)))
       (fire hooks (BeforeFinalize p) cy)"

text \<open>The share of live records; an empty pack has none.\<close>

definition liveness :: "nat \<Rightarrow> nat \<Rightarrow> rat" where
  "liveness live_records total_records =
     (if total_records = 0 then 0 else of_nat live_records / of_nat total_records)"

definition report_swept :: "nat \<Rightarrow> nat \<Rightarrow> nat \<Rightarrow> sweep_report \<Rightarrow> sweep_report" where
  "report_swept total_records copied dead rp =
     rp\<lparr>sr_packs_compacted := sr_packs_compacted rp + (if copied = 0 then 0 else 1),
        sr_packs_deleted := sr_packs_deleted rp + 1,
        sr_pages_reclaimed := sr_pages_reclaimed rp + (of_nat dead +
          saturating_sub (of_nat total_records) (of_nat copied + of_nat dead)),
        sr_bytes_reclaimed := sr_bytes_reclaimed rp +
          saturating_sub (of_nat total_records) (of_nat copied) * RECORD_BYTES\<rparr>"

definition gc_sweep_one_pack ::
  "(bytes \<Rightarrow> hash32) \<Rightarrow> (bytes \<Rightarrow> bytes option) \<Rightarrow> (bytes \<Rightarrow> u32) \<Rightarrow> u64 \<Rightarrow> gc_hooks \<Rightarrow> rat \<Rightarrow> pack_id \<Rightarrow> unit gc_op" where
  "gc_sweep_one_pack blake3 zstd crc32 now hooks compact_threshold p cy =
     (let index_entries = pack_entries (ss_pages (cy_store cy)) p in
      sbind (slift (map_err SnPageStore (scan_pack (ss_pages (cy_store cy)) p))) (\<lambda>records cy.
        if records = [] \<and> index_entries = []
        then sbind (finalize_and_unlink blake3 zstd crc32 now hooks p [] []) (\<lambda>_ cy.
               (Ok (), count_report (\<lambda>rp. rp\<lparr>sr_packs_deleted := sr_packs_deleted rp + 1\<rparr>) cy)) cy
        else
          let (live_recs, dead_recs) = partition (\<lambda>(h, _). h \<in> lv_pages (cy_live cy)) index_entries
          in if liveness (length live_recs) (length records) \<ge> compact_threshold then (Ok (), cy)
             else
               sbind (if live_recs \<noteq> [] then gc_copy_records blake3 crc32 now live_recs else sreturn []) (\<lambda>copied cy.
               sbind (finalize_and_unlink blake3 zstd crc32 now hooks p copied dead_recs) (\<lambda>_ cy.
                 (Ok (), count_report (report_swept (length records) (length copied) (length dead_recs)) cy))
                 (fire hooks (AfterCopy p) cy)) cy) cy)"

fun sweep_pack_list ::
  "(bytes \<Rightarrow> hash32) \<Rightarrow> (bytes \<Rightarrow> bytes option) \<Rightarrow> (bytes \<Rightarrow> u32) \<Rightarrow> u64 \<Rightarrow> gc_hooks \<Rightarrow> rat \<Rightarrow> pack_id list \<Rightarrow>
     unit gc_op" where
  "sweep_pack_list blake3 zstd crc32 now hooks compact_threshold [] cy = (Ok (), cy)"
| "sweep_pack_list blake3 zstd crc32 now hooks compact_threshold (p # ps) cy =
     sbind (gc_sweep_one_pack blake3 zstd crc32 now hooks compact_threshold p)
       (\<lambda>_. sweep_pack_list blake3 zstd crc32 now hooks compact_threshold ps) (fire hooks (BeforePackSweep p) cy)"

definition gc_sweep_packs ::
  "(bytes \<Rightarrow> hash32) \<Rightarrow> (bytes \<Rightarrow> bytes option) \<Rightarrow> (bytes \<Rightarrow> u32) \<Rightarrow> u64 \<Rightarrow> gc_hooks \<Rightarrow> rat \<Rightarrow> pack_id \<Rightarrow> unit gc_op" where
  "gc_sweep_packs blake3 zstd crc32 now hooks compact_threshold fence_pack cy =
     sweep_pack_list blake3 zstd crc32 now hooks compact_threshold
       (filter (\<lambda>p. p < fence_pack) (sealed_pack_ids (ss_pages (cy_store cy)))) cy"

section \<open>Sweeping manifests\<close>

definition BATCH :: nat where
  "BATCH = 256"

text \<open>One batch, under the gate: manifests that became live are kept.\<close>

definition delete_batch :: "snapshot_ref list \<Rightarrow> gc_cycle \<Rightarrow> gc_cycle" where
  "delete_batch batch cy =
     fold (\<lambda>r cy. if r \<in> lv_manifests (cy_live cy) then cy
            else let (deleted, st) = delete_manifest r (cy_store cy);
                     cy = cy\<lparr>cy_store := st\<rparr>
                 in if deleted then count_report (\<lambda>rp. rp\<lparr>sr_manifests_deleted := sr_manifests_deleted rp + 1\<rparr>) cy
                    else cy) batch cy"

function sweep_batches ::
  "(bytes \<Rightarrow> hash32) \<Rightarrow> (bytes \<Rightarrow> bytes option) \<Rightarrow> gc_hooks \<Rightarrow> snapshot_ref list \<Rightarrow> unit gc_op" where
  "sweep_batches blake3 zstd hooks candidates cy =
     (if candidates = [] then (Ok (), cy)
      else
        let (stragglers, cy) = drain_stragglers hooks cy
        in case (if stragglers \<noteq> [] then gc_mark blake3 zstd stragglers cy else (Ok (), cy)) of
             (Err e, cy) \<Rightarrow> (Err e, cy)
           | (Panic, cy) \<Rightarrow> (Panic, cy)
           | (Ok _, cy) \<Rightarrow>
               let kept = (if stragglers \<noteq> []
                           then filter (\<lambda>r. r \<notin> lv_manifests (cy_live cy)) candidates else candidates);
                   cy = delete_batch (take BATCH kept) cy
               in sweep_batches blake3 zstd hooks (drop BATCH kept)
                    (on_store (hk_batch hooks (length candidates)) cy))"
  by pat_completeness auto
termination
  by (relation "measure (\<lambda>(_, _, _, candidates, _). length candidates)")
    (auto simp: BATCH_def intro: le_less_trans[OF diff_le_mono[OF length_filter_le]])

declare sweep_batches.simps [simp del]

definition gc_sweep_manifests ::
  "(bytes \<Rightarrow> hash32) \<Rightarrow> (bytes \<Rightarrow> bytes option) \<Rightarrow> gc_hooks \<Rightarrow> unit gc_op" where
  "gc_sweep_manifests blake3 zstd hooks cy =
     (let cy = fire hooks BeforeManifestSweep cy;
          candidates = filter (\<lambda>r. r \<notin> lv_manifests (cy_live cy)) (list_manifest_refs (cy_store cy))
      in sweep_batches blake3 zstd hooks candidates cy)"

end
