(* ===== verification/Gc_Copy.thy ===== *)
theory Gc_Copy
  imports Gc_Engine
begin

text \<open>
  The copy of live records into a new pack (\<open>gc_copy_records\<close>): the new pack is sealed and holds
  every record under its hash, the index and the other packs are untouched, and the store stays in
  order also when the copy stops because the pack is full.
\<close>

section \<open>A pack beside the others\<close>

abbreviation with_pack :: "page_store \<Rightarrow> (pack_id \<times> bytes) list \<Rightarrow> bytes lru \<Rightarrow> page_store" where
  "with_pack ps fs k \<equiv> ps\<lparr>ps_files := fs, ps_cache := k, ps_next_pack_id := next_id (ps_next_pack_id ps)\<rparr>"

abbreviation ids_left :: "nat \<Rightarrow> page_store \<Rightarrow> bool" where
  "ids_left n ps \<equiv> unat (pack_num (ps_next_pack_id ps)) + n < 2 ^ 32"

lemma fresh_id:
  assumes "store_inv blake3 ps"
  shows "map_of (ps_files ps) (ps_next_pack_id ps) = None" "ps_next_pack_id ps \<noteq> ps_pack_id ps"
  using assms by (auto simp: store_inv_def files_ok_def map_of_eq_None_iff)

lemma with_pack_grows:
  assumes inv: "store_inv blake3 ps" and ids: "ids_left 1 ps"
    and fs: "map_of fs = (map_of (ps_files ps))(ps_next_pack_id ps \<mapsto> c)"
  shows "grows ps (with_pack ps fs k)"
  using fresh_id[OF inv] next_id_greater[of "ps_next_pack_id ps"] ids
  by (auto simp: grows_def logical_file_def fs map_le_def)

lemma with_pack_inv:
  assumes inv: "store_inv blake3 ps" and ids: "ids_left 1 ps" and dist: "distinct (map fst fs)"
    and fs: "map_of fs = (map_of (ps_files ps))(ps_next_pack_id ps \<mapsto> c)" and magic: "magic_ok c"
    and k: "cache_ok (ps\<lparr>ps_cache := k\<rparr>)"
  shows "store_inv blake3 (with_pack ps fs k)"
proof -
  let ?id = "ps_next_pack_id ps" and ?ps = "with_pack ps fs k"
  note fresh = fresh_id[OF inv]
  have keys: "fst ` set fs = insert ?id (fst ` set (ps_files ps))"
    using fs by (simp add: dom_map_of_conv_image_fst[symmetric])
  have gt: "?id < next_id ?id"
    using next_id_greater ids by simp
  have old: "files_ok ps"
    using inv by (simp add: store_inv_def)
  have "magic_ok d" if "(p, d) \<in> set fs" for p d
  proof -
    have "map_of fs p = Some d"
      using that dist by simp
    then show ?thesis
      using old magic by (auto simp: fs files_ok_def split: if_splits dest: map_of_SomeD)
  qed
  moreover have "p < next_id ?id" if "p \<in> insert (ps_pack_id ps) (fst ` set fs)" for p
    using that old gt less_trans unfolding keys files_ok_def by blast
  ultimately have "files_ok ?ps"
    using old dist fresh(2) unfolding files_ok_def by (auto simp: keys)
  moreover have "cache_ok ?ps"
    using k fresh(1) unfolding cache_ok_def by (simp add: fs) (metis option.distinct(1))
  moreover have "page_at blake3 ?ps h loc" if "page_at blake3 ps h loc" for h loc
    using grows_page_at[OF with_pack_grows[OF inv ids fs] that] .
  moreover have "active_ok blake3 ?ps"
    using inv by (simp add: store_inv_def active_ok_def)
  ultimately show ?thesis
    using inv by (simp add: store_inv_def)
qed

section \<open>The copy loop\<close>

text \<open>The state in the middle of the loop: \<open>recs\<close> have been appended.\<close>

definition copy_log ::
  "(bytes \<Rightarrow> hash32) \<Rightarrow> page_store \<Rightarrow> gc_pack_writer \<Rightarrow> (Snap_Types.page_hash \<times> bytes) list \<Rightarrow> bool" where
  "copy_log blake3 ps0 w recs \<longleftrightarrow>
     (\<exists>hdr. pack_log (gw_writer w) hdr (raw_recs recs)) \<and> list_all (page_ok blake3) recs \<and>
     gw_pack_id w = ps_next_pack_id ps0 \<and> pw_max_bytes (gw_writer w) = ps_max_pack_bytes ps0 \<and>
     gw_entries w = swapped (record_offsets PACK_HEADER_SIZE (raw_recs recs))"

definition copy_state :: "page_store \<Rightarrow> bytes \<Rightarrow> page_store \<Rightarrow> bool" where
  "copy_state ps0 c ps \<longleftrightarrow>
     (\<exists>fs k. ps = with_pack ps0 fs k \<and> distinct (map fst fs) \<and> cache_ok (ps0\<lparr>ps_cache := k\<rparr>) \<and>
        map_of fs = (map_of (ps_files ps0))(ps_next_pack_id ps0 \<mapsto> c))"

abbreviation copying ::
  "(bytes \<Rightarrow> hash32) \<Rightarrow> page_store \<Rightarrow> gc_pack_writer \<Rightarrow> (Snap_Types.page_hash \<times> bytes) list \<Rightarrow> page_store \<Rightarrow> bool" where
  "copying blake3 ps0 w recs ps \<equiv> copy_log blake3 ps0 w recs \<and> copy_state ps0 (pw_file (gw_writer w)) ps"

lemma copy_state_inv:
  assumes "copy_state ps0 c ps" "magic_ok c" "store_inv blake3 ps0" "ids_left 1 ps0"
  shows "store_inv blake3 ps" "grows ps0 ps" "ps_index ps = ps_index ps0" "ps_pack_id ps = ps_pack_id ps0"
    "ps_dirty ps = ps_dirty ps0" "ps_next_pack_id ps = next_id (ps_next_pack_id ps0)"
    "map_of (ps_files ps) (ps_next_pack_id ps0) = Some c"
proof -
  obtain fs k where fs: "ps = with_pack ps0 fs k" "distinct (map fst fs)" "cache_ok (ps0\<lparr>ps_cache := k\<rparr>)"
    "map_of fs = (map_of (ps_files ps0))(ps_next_pack_id ps0 \<mapsto> c)"
    using assms(1) by (auto simp: copy_state_def)
  show "store_inv blake3 ps" "grows ps0 ps" "ps_index ps = ps_index ps0" "ps_pack_id ps = ps_pack_id ps0"
    "ps_dirty ps = ps_dirty ps0" "ps_next_pack_id ps = next_id (ps_next_pack_id ps0)"
    "map_of (ps_files ps) (ps_next_pack_id ps0) = Some c"
    using with_pack_inv[OF assms(3,4) fs(2,4) assms(2) fs(3)] with_pack_grows[OF assms(3,4) fs(4)] fs(4)
    by (simp_all add: fs(1))
qed

lemma copy_state_update:
  assumes "copy_state ps0 c ps"
  shows "copy_state ps0 d (ps\<lparr>ps_files := AList.update (ps_next_pack_id ps0) d (ps_files ps)\<rparr>)"
proof -
  obtain fs k where fs: "ps = with_pack ps0 fs k" "distinct (map fst fs)" "cache_ok (ps0\<lparr>ps_cache := k\<rparr>)"
    "map_of fs = (map_of (ps_files ps0))(ps_next_pack_id ps0 \<mapsto> c)"
    using assms(1) by (auto simp: copy_state_def)
  then show ?thesis
    unfolding copy_state_def
    by (intro exI[of _ "AList.update (ps_next_pack_id ps0) d fs"] exI[of _ k])
      (simp add: distinct_update update_conv')
qed

lemma loc_at_loc: "loc_at (loc_pack loc) (unat (loc_offset loc)) = loc"
  by (simp add: loc_at_def)

lemma get_or_open_cong: "f p = g p \<Longrightarrow> get_or_open f m p = get_or_open g m p"
  unfolding get_or_open_def by (erule ssubst) (rule refl)

text \<open>Reading a record of an old pack only changes the cache.\<close>

lemma copying_read:
  assumes c: "copying blake3 ps0 w recs ps" and inv: "store_inv blake3 ps0"
    and loc: "index_get (ps_index ps0) h = Some loc" "loc_pack loc \<noteq> ps_pack_id ps0"
  shows "\<exists>ps'. read_record blake3 (loc_pack loc) (unat (loc_offset loc)) h ps =
      (Ok (the (stored_page blake3 ps0 h)), ps') \<and> copying blake3 ps0 w recs ps' \<and>
      page_ok blake3 (h, the (stored_page blake3 ps0 h))"
proof -
  obtain fs k where fs: "ps = with_pack ps0 fs k" "distinct (map fst fs)" "cache_ok (ps0\<lparr>ps_cache := k\<rparr>)"
    "map_of fs = (map_of (ps_files ps0))(ps_next_pack_id ps0 \<mapsto> pw_file (gw_writer w))"
    using c by (auto simp: copy_state_def)
  have "page_at blake3 ps0 h loc"
    using inv loc(1) by (simp add: store_inv_def)
  then obtain f pg where f: "map_of (ps_files ps0) (loc_pack loc) = Some f"
    and pg: "page_in blake3 f (unat (loc_offset loc)) h pg"
    using loc(2) by (auto simp: page_at_def logical_file_def)
  have st: "stored_page blake3 ps0 h = Some pg"
    using loc f pg by (simp add: stored_page_def page_of_def lk_loc_def logical_file_def page_in_def)
  let ?op = "\<lambda>p. open_sealed_fast (file_at (ps0\<lparr>ps_cache := k\<rparr>) p) p"
  define k' where "k' = snd (get_or_open ?op k (loc_pack loc))"
  have "files_ok (ps0\<lparr>ps_cache := k\<rparr>)" "map_of (ps_files (ps0\<lparr>ps_cache := k\<rparr>)) (loc_pack loc) = Some f"
    using inv f by (simp_all add: store_inv_def)
  from get_or_open_file[OF fs(3) this]
  have g: "get_or_open ?op k (loc_pack loc) = (Ok f, k')" "cache_ok (ps0\<lparr>ps_cache := k'\<rparr>)"
    by (simp_all add: k'_def prod_eq_iff)
  have "loc_pack loc \<noteq> ps_next_pack_id ps0"
    using f fresh_id(1)[OF inv] by auto
  then have "file_at ps (loc_pack loc) = file_at (ps0\<lparr>ps_cache := k\<rparr>) (loc_pack loc)"
    by (simp add: file_at_def fs(1,4))
  then have "get_or_open (\<lambda>p. open_sealed_fast (file_at ps p) p) (ps_cache ps) (loc_pack loc) = (Ok f, k')"
    using g(1) get_or_open_cong[of "\<lambda>p. open_sealed_fast (file_at ps p) p" "loc_pack loc" ?op k] by (simp add: fs(1))
  then have "read_record blake3 (loc_pack loc) (unat (loc_offset loc)) h ps = (Ok pg, ps\<lparr>ps_cache := k'\<rparr>)"
    using pg by (simp add: read_record_def loc_at_loc read_from_cached_handle_def page_in_def)
  moreover have "copy_state ps0 (pw_file (gw_writer w)) (ps\<lparr>ps_cache := k'\<rparr>)"
    unfolding copy_state_def using g(2) fs by (intro exI[of _ fs] exI[of _ k']) simp
  ultimately show ?thesis
    using c st page_in_hash[OF pg] by (simp add: page_ok_def)
qed

text \<open>Appending a page, if it fits.\<close>

definition fits_pack :: "page_store \<Rightarrow> nat \<Rightarrow> bool" where
  "fits_pack ps n \<longleftrightarrow> PACK_HEADER_SIZE + n * (RECORD_HEADER_SIZE + PAGE_SIZE) \<le> ps_max_pack_bytes ps"

lemma copying_append:
  assumes c: "copying blake3 ps0 w recs ps" and pg: "page_ok blake3 (h, pg)"
  shows "if fits_pack ps0 (Suc (length recs))
    then \<exists>off w'. gc_append w h pg = Ok (off, w') \<and> copying blake3 ps0 w' (recs @ [(h, pg)])
      (ps\<lparr>ps_files := AList.update (gw_pack_id w') (pw_file (gw_writer w')) (ps_files ps)\<rparr>)
    else gc_append w h pg = Err (StPack PkFull)"
proof -
  obtain hdr where log: "pack_log (gw_writer w) hdr (raw_recs recs)" and ok: "list_all (page_ok blake3) recs"
    and w: "pw_max_bytes (gw_writer w) = ps_max_pack_bytes ps0" "gw_pack_id w = ps_next_pack_id ps0"
      "gw_entries w = swapped (record_offsets PACK_HEADER_SIZE (raw_recs recs))"
    using c by (auto simp: copy_log_def)
  have off: "pw_write_offset (gw_writer w) = PACK_HEADER_SIZE + length (enc_all (raw_recs recs))"
    using log by (simp add: pack_log_def)
  have room: "would_exceed_cap (gw_writer w) \<longleftrightarrow> \<not> fits_pack ps0 (Suc (length recs))"
    unfolding would_exceed_cap_def fits_pack_def w(1) off length_raw_recs_enc[OF ok]
    by (simp add: RECORD_HEADER_SIZE_def PAGE_SIZE_def) linarith
  have len: "length pg = PAGE_SIZE"
    using pg by (simp add: page_ok_def)
  show ?thesis
  proof (cases "fits_pack ps0 (Suc (length recs))")
    case True
    then obtain v where v: "append_record (gw_writer w) h pg = Ok (pw_write_offset (gw_writer w), v)"
      using append_record_Full(2)[OF log, of h pg] room by blast
    note a = append_record_Ok[OF log len v]
    let ?w = "w\<lparr>gw_writer := v, gw_entries := gw_entries w @ [(h, pw_write_offset (gw_writer w))]\<rparr>"
    have "pack_log v hdr (raw_recs (recs @ [(h, pg)]))" "list_all (page_ok blake3) (recs @ [(h, pg)])"
      using a(1) pg ok by simp_all
    then have "copy_log blake3 ps0 ?w (recs @ [(h, pg)])"
      unfolding copy_log_def using a(4) w off by (auto simp: record_offsets_append simp del: list_all_append)
    moreover have "copy_state ps0 (pw_file v) (ps\<lparr>ps_files := AList.update (gw_pack_id w) (pw_file v) (ps_files ps)\<rparr>)"
      using copy_state_update[OF conjunct2[OF c]] w(2) by simp
    ultimately show ?thesis
      using v True by (auto simp: gc_append_def)
  next
    case False
    then show ?thesis
      using room append_record_Full(1)[OF log, of h pg] by (simp add: gc_append_def)
  qed
qed

text \<open>A cycle whose page store is in the middle of a copy.\<close>

definition with_pages :: "gc_cycle \<Rightarrow> page_store \<Rightarrow> gc_cycle" where
  "with_pages cy ps = cy\<lparr>cy_store := (cy_store cy)\<lparr>ss_pages := ps\<rparr>\<rparr>"

lemma gc_pages_with:
  "gc_pages f (with_pages cy ps) = (map_err SnPageStore (fst (f ps)), with_pages cy (snd (f ps)))"
  by (simp add: gc_pages_def on_pages_def with_pages_def Let_def case_prod_beta)

lemma with_pages_same [simp]: "with_pages cy (ss_pages (cy_store cy)) = cy"
  by (simp add: with_pages_def)

abbreviation pages_of_recs ::
  "(bytes \<Rightarrow> hash32) \<Rightarrow> page_store \<Rightarrow> (Snap_Types.page_hash \<times> page_loc) list \<Rightarrow> (Snap_Types.page_hash \<times> bytes) list" where
  "pages_of_recs blake3 ps records \<equiv> map (\<lambda>(h, _). (h, the (stored_page blake3 ps h))) records"

lemma copy_loop_ok:
  assumes inv: "store_inv blake3 ps0" and c: "copying blake3 ps0 w recs ps"
    and records: "\<forall>(h, loc) \<in> set records. index_get (ps_index ps0) h = Some loc \<and> loc_pack loc \<noteq> ps_pack_id ps0"
  shows "if records = [] \<or> fits_pack ps0 (length recs + length records)
    then \<exists>w' ps'. copy_loop blake3 records w (with_pages cy ps) = (Ok w', with_pages cy ps') \<and>
      copying blake3 ps0 w' (recs @ pages_of_recs blake3 ps0 records) ps'
    else \<exists>w' recs' ps'. copy_loop blake3 records w (with_pages cy ps) =
        (Err (SnPageStore (StPack PkFull)), with_pages cy ps') \<and> copying blake3 ps0 w' recs' ps'"
  using c records
proof (induction records arbitrary: w recs ps)
  case (Cons r records)
  obtain h loc where r: "r = (h, loc)" by (cases r)
  let ?pg = "the (stored_page blake3 ps0 h)"
  have loc: "index_get (ps_index ps0) h = Some loc" "loc_pack loc \<noteq> ps_pack_id ps0"
    using Cons.prems(2) by (simp_all add: r)
  obtain ps1 where rd: "read_record blake3 (loc_pack loc) (unat (loc_offset loc)) h ps = (Ok ?pg, ps1)"
    and c1: "copying blake3 ps0 w recs ps1" and pg: "page_ok blake3 (h, ?pg)"
    using copying_read[OF Cons.prems(1) inv loc] by blast
  have len: "length ?pg = PAGE_SIZE"
    using pg by (simp add: page_ok_def)
  note app = copying_append[OF c1 pg]
  have mono: "fits_pack ps0 n \<Longrightarrow> m \<le> n \<Longrightarrow> fits_pack ps0 m" for m n
    unfolding fits_pack_def using mult_le_mono1[of m n "RECORD_HEADER_SIZE + PAGE_SIZE"] by linarith
  show ?case
  proof (cases "fits_pack ps0 (Suc (length recs))")
    case False
    then have "copy_loop blake3 (r # records) w (with_pages cy ps) = (Err (SnPageStore (StPack PkFull)), with_pages cy ps1)"
      using app rd len by (simp add: r sbind_def gc_pages_with)
    moreover have "\<not> fits_pack ps0 (length recs + length (r # records))"
      using False mono by fastforce
    ultimately show ?thesis
      using c1 by auto
  next
    case True
    then obtain off w' where a: "gc_append w h ?pg = Ok (off, w')"
      "copying blake3 ps0 w' (recs @ [(h, ?pg)])
        (ps1\<lparr>ps_files := AList.update (gw_pack_id w') (pw_file (gw_writer w')) (ps_files ps1)\<rparr>)"
      using app by auto
    let ?ps2 = "ps1\<lparr>ps_files := AList.update (gw_pack_id w') (pw_file (gw_writer w')) (ps_files ps1)\<rparr>"
    have run: "copy_loop blake3 (r # records) w (with_pages cy ps) = copy_loop blake3 records w' (with_pages cy ?ps2)"
      using rd len a(1) by (simp add: r sbind_def gc_pages_with)
    have eq: "(recs @ [(h, ?pg)]) @ pages_of_recs blake3 ps0 records = recs @ pages_of_recs blake3 ps0 (r # records)"
      by (simp add: r)
    have "(r # records = [] \<or> fits_pack ps0 (length recs + length (r # records))) \<longleftrightarrow>
        records = [] \<or> fits_pack ps0 (length (recs @ [(h, ?pg)]) + length records)"
      using True by auto
    then show ?thesis
      using Cons.IH[OF a(2)] Cons.prems(2) unfolding run eq by simp
  qed
qed auto

section \<open>Creating and publishing the pack\<close>

lemma create_gc_pack_ok:
  assumes inv: "store_inv blake3 ps"
  shows "\<exists>w ps'. create_gc_pack now ps = (Ok w, ps') \<and> copying blake3 ps w [] ps'"
proof -
  note fresh = fresh_id[OF inv]
  obtain v where v: "create_with_max_bytes None (ps_next_pack_id ps) now (ps_max_pack_bytes ps) = Ok v"
    by (simp add: create_with_max_bytes_def)
  let ?w = "\<lparr>gw_writer = v, gw_pack_id = ps_next_pack_id ps, gw_entries = []\<rparr>"
  let ?fs = "AList.update (ps_next_pack_id ps) (pw_file v) (ps_files ps)"
  have run: "create_gc_pack now ps = (Ok ?w, with_pack ps ?fs (ps_cache ps))"
    using v fresh by (simp add: create_gc_pack_def Let_def file_at_def)
  have "copy_log blake3 ps ?w []"
    using create_pack_log[OF v] by (auto simp: copy_log_def)
  moreover have "copy_state ps (pw_file v) (with_pack ps ?fs (ps_cache ps))"
    unfolding copy_state_def using inv
    by (intro exI[of _ ?fs] exI[of _ "ps_cache ps"])
      (simp add: store_inv_def files_ok_def distinct_update update_conv')
  ultimately show ?thesis
    using run by auto
qed

lemma publish_ok:
  assumes c: "copying blake3 ps0 w recs ps"
  shows "\<exists>f ps' sc. seal_and_publish blake3 crc32 w ps =
      (Ok (ps_next_pack_id ps0, swapped (record_offsets PACK_HEADER_SIZE (raw_recs recs))), ps'\<lparr>ps_sidecars := sc\<rparr>) \<and>
    copy_state ps0 f ps' \<and> sealed_image blake3 f recs"
proof -
  obtain hdr where log: "pack_log (gw_writer w) hdr (raw_recs recs)"
    and w: "gw_pack_id w = ps_next_pack_id ps0" "gw_entries w = swapped (record_offsets PACK_HEADER_SIZE (raw_recs recs))"
    using c by (auto simp: copy_log_def)
  obtain v where v: "seal blake3 (gw_writer w) = Ok ([hdr @ enc_all (raw_recs recs), pw_file v], v)"
    "seal_no_sync blake3 (gw_writer w) = Ok v"
    using seal_log[OF log] by blast
  have "pw_file v = hdr @ enc_all (raw_recs recs) @ pack_footer (length (raw_recs recs)) (blake3 (enc_all (raw_recs recs)))"
    using seal_no_sync_log[OF log, of blake3] v(2) by auto
  then have "sealed_image blake3 (pw_file v) recs"
    using log unfolding sealed_image_def pack_log_def by (metis length_map)
  then show ?thesis
    using v(1) copy_state_update[OF conjunct2[OF c], of "pw_file v"] w
    by (auto simp: seal_and_publish_def intro!: exI[of _ "pw_file v"])
qed

lemma sidecars_irrelevant [simp]:
  "store_inv blake3 (ps\<lparr>ps_sidecars := sc\<rparr>) = store_inv blake3 ps"
  "grows ps0 (ps\<lparr>ps_sidecars := sc\<rparr>) = grows ps0 ps"
  by (simp_all add: store_inv_def active_ok_def files_ok_def cache_ok_def grows_def page_at_def logical_file_def)

text \<open>A page can be read at a location of a pack that is no longer written.\<close>

definition copied_at :: "(bytes \<Rightarrow> hash32) \<Rightarrow> page_store \<Rightarrow> Snap_Types.page_hash \<Rightarrow> page_loc \<Rightarrow> bytes \<Rightarrow> bool" where
  "copied_at blake3 ps h loc pg \<longleftrightarrow>
     (\<exists>c. map_of (ps_files ps) (loc_pack loc) = Some c \<and> page_in blake3 c (unat (loc_offset loc)) h pg)"

text \<open>What a copy changes.\<close>

definition copy_step :: "(bytes \<Rightarrow> hash32) \<Rightarrow> page_store \<Rightarrow> page_store \<Rightarrow> bool" where
  "copy_step blake3 ps ps' \<longleftrightarrow>
     store_inv blake3 ps' \<and> grows ps ps' \<and> ps_index ps' = ps_index ps \<and> ps_pack_id ps' = ps_pack_id ps \<and>
     ps_dirty ps' = ps_dirty ps \<and> ps_next_pack_id ps' = next_id (ps_next_pack_id ps)"

lemma copy_state_step:
  assumes "copy_state ps c ps'" "magic_ok c" "store_inv blake3 ps" "ids_left 1 ps"
  shows "copy_step blake3 ps (ps'\<lparr>ps_sidecars := sc\<rparr>)" "copy_step blake3 ps ps'"
  using copy_state_inv[OF assms] by (simp_all add: copy_step_def)

lemma fits_pack_small:
  assumes "fits_pack ps n" "ps_max_pack_bytes ps < 2 ^ 44"
  shows "n < 2 ^ 32"
  using assms by (simp add: fits_pack_def pack_consts PAGE_SIZE_def)

lemma rec_locs_hashes: "map fst (rec_locs p recs) = map fst recs"
proof -
  have "map snd (record_offsets off (raw_recs recs)) = map fst recs" for off
    by (induction recs arbitrary: off) (auto simp: case_prod_beta)
  then show ?thesis
    by (simp add: rec_locs_def locs_of_def comp_def case_prod_beta)
qed

lemma gc_copy_records_ok:
  fixes cy :: gc_cycle
  defines "ps \<equiv> ss_pages (cy_store cy)"
  assumes inv: "store_inv blake3 ps" and ids: "ids_left 1 ps" and cap: "ps_max_pack_bytes ps < 2 ^ 44"
    and ne: "records \<noteq> []"
    and records: "\<forall>(h, loc) \<in> set records. index_get (ps_index ps) h = Some loc \<and> loc_pack loc \<noteq> ps_pack_id ps"
  shows "\<exists>res ps'. gc_copy_records blake3 crc32 now records cy = (res, with_pages cy ps') \<and> copy_step blake3 ps ps' \<and>
    (if fits_pack ps (length records)
     then \<exists>locs. res = Ok locs \<and> map fst locs = map fst records \<and>
       (\<forall>(h, loc) \<in> set locs. loc_pack loc = ps_next_pack_id ps \<and>
          copied_at blake3 ps' h loc (the (stored_page blake3 ps h)))
     else res = Err (SnPageStore (StPack PkFull)))"
proof -
  obtain w0 ps0 where w0: "create_gc_pack now ps = (Ok w0, ps0)" "copying blake3 ps w0 [] ps0"
    using create_gc_pack_ok[OF inv] by blast
  have create: "gc_pages (create_gc_pack now) cy = (Ok w0, with_pages cy ps0)"
    using gc_pages_with[of "create_gc_pack now" cy ps] w0(1) by (simp add: ps_def)
  note loop = copy_loop_ok[OF inv w0(2) records, of cy]
  let ?recs = "pages_of_recs blake3 ps records"
  show ?thesis
  proof (cases "fits_pack ps (length records)")
    case False
    then obtain w1 recs1 ps1 where run: "copy_loop blake3 records w0 (with_pages cy ps0) =
        (Err (SnPageStore (StPack PkFull)), with_pages cy ps1)" and c: "copying blake3 ps w1 recs1 ps1"
      using loop ne by auto
    have "magic_ok (pw_file (gw_writer w1))"
      using c pack_log_magic by (auto simp: copy_log_def)
    then show ?thesis
      using run False create copy_state_step(2)[OF conjunct2[OF c] _ inv ids]
      by (simp add: gc_copy_records_def sbind_def) blast
  next
    case True
    then obtain w1 ps1 where run: "copy_loop blake3 records w0 (with_pages cy ps0) = (Ok w1, with_pages cy ps1)"
      and c: "copying blake3 ps w1 ?recs ps1"
      using loop by auto
    obtain f ps2 sc where pub: "seal_and_publish blake3 crc32 w1 ps1 =
        (Ok (ps_next_pack_id ps, swapped (record_offsets PACK_HEADER_SIZE (raw_recs ?recs))), ps2\<lparr>ps_sidecars := sc\<rparr>)"
      and f: "copy_state ps f ps2" "sealed_image blake3 f ?recs"
      using publish_ok[OF c] by blast
    have pok: "pages_ok blake3 ?recs"
      using c fits_pack_small[OF True cap] by (simp add: pages_ok_def copy_log_def)
    have hold: "holds_pages f ?recs"
      using image_holds(1)[OF f(2)] .
    let ?locs = "rec_locs (ps_next_pack_id ps) ?recs" and ?ps = "ps2\<lparr>ps_sidecars := sc\<rparr>"
    have st: "copy_step blake3 ps ?ps"
      by (rule copy_state_step(1)[OF f(1) holds_pages_magic[OF hold] inv ids])
    have on_disk: "map_of (ps_files ?ps) (ps_next_pack_id ps) = Some f"
      using copy_state_inv(7)[OF f(1) holds_pages_magic[OF hold] inv ids] by simp
    have "loc_pack loc = ps_next_pack_id ps \<and> copied_at blake3 ?ps h loc (the (stored_page blake3 ps h))"
      if "(h, loc) \<in> set ?locs" for h loc
      using rec_locs_page[OF that hold pok] on_disk by (auto simp: copied_at_def)
    moreover have "map fst ?locs = map fst records"
      by (simp only: rec_locs_hashes) (simp add: comp_def case_prod_beta)
    moreover have "gc_copy_records blake3 crc32 now records cy = (Ok ?locs, with_pages cy ?ps)"
      using create run pub
      by (simp add: gc_copy_records_def sbind_def gc_pages_with sreturn_def rec_locs_def del: map_map)
    ultimately show ?thesis
      using st True by (intro exI[of _ "Ok ?locs"] exI[of _ ?ps]) auto
  qed
qed

end
