(* ===== verification/Gc_Steps.thy ===== *)
theory Gc_Steps
  imports Gc_Copy
begin

text \<open>
  The critical sections of the collector one by one: marking keeps the live set closed under
  parents and pages, the index changes of a finalize move and remove exactly what they should,
  and unlinking a pack nobody refers to changes nothing a reader sees.
\<close>

section \<open>Marking\<close>

text \<open>Every live manifest is stored, its pages are live, and so is its parent, up to the references
  in \<open>todo\<close>.\<close>

definition live_closed ::
  "(bytes \<Rightarrow> hash32) \<Rightarrow> (bytes \<Rightarrow> bytes option) \<Rightarrow> snapshot_store \<Rightarrow> live_set \<Rightarrow> snapshot_ref set \<Rightarrow> bool" where
  "live_closed blake3 zstd st live todo \<longleftrightarrow>
     (\<forall>r \<in> lv_manifests live. \<exists>m. read_manifest blake3 zstd st r = Ok m \<and>
        page_hash ` set (m_entries m) \<subseteq> lv_pages live \<and>
        (m_delta m \<longrightarrow> (\<exists>p. m_parent m = Some p \<and> p \<in> lv_manifests live \<union> todo)))"

definition live_le :: "live_set \<Rightarrow> live_set \<Rightarrow> bool" where
  "live_le a b \<longleftrightarrow> lv_manifests a \<subseteq> lv_manifests b \<and> lv_pages a \<subseteq> lv_pages b"

lemma live_le_refl [simp]: "live_le a a"
  by (simp add: live_le_def)

lemma live_le_trans: "live_le a b \<Longrightarrow> live_le b c \<Longrightarrow> live_le a c"
  by (auto simp: live_le_def)

lemma live_closed_empty [simp]: "live_closed blake3 zstd st live_empty todo"
  by (simp add: live_closed_def live_empty_def)

lemma live_closed_mono:
  assumes "\<And>r m. r \<in> lv_manifests live \<Longrightarrow> read_manifest blake3 zstd st r = Ok m \<Longrightarrow> read_manifest blake3 zstd st' r = Ok m"
    "live_closed blake3 zstd st live todo"
  shows "live_closed blake3 zstd st' live todo"
  unfolding live_closed_def
proof
  fix r assume r: "r \<in> lv_manifests live"
  then obtain m where m: "read_manifest blake3 zstd st r = Ok m" "page_hash ` set (m_entries m) \<subseteq> lv_pages live"
    "m_delta m \<longrightarrow> (\<exists>p. m_parent m = Some p \<and> p \<in> lv_manifests live \<union> todo)"
    using assms(2) unfolding live_closed_def by blast
  then show "\<exists>m. read_manifest blake3 zstd st' r = Ok m \<and> page_hash ` set (m_entries m) \<subseteq> lv_pages live \<and>
      (m_delta m \<longrightarrow> (\<exists>p. m_parent m = Some p \<and> p \<in> lv_manifests live \<union> todo))"
    using assms(1)[OF r m(1)] by auto
qed

lemma mark_manifest_frame [simp]:
  "cy_store (mark_manifest r m cy) = cy_store cy" "live_le (cy_live cy) (cy_live (mark_manifest r m cy))"
  "r \<in> lv_manifests (cy_live (mark_manifest r m cy))"
  by (auto simp: mark_manifest_def live_le_def)

text \<open>The walk itself, and that it touches the store at no outcome.\<close>

lemma mark_chain_frame:
  "cy_store (snd (mark_chain n b blake3 zstd r cy)) = cy_store cy \<and>
   live_le (cy_live cy) (cy_live (snd (mark_chain n b blake3 zstd r cy)))"
proof (induction n arbitrary: b r cy)
  case (Suc n)
  show ?case
  proof (cases "r \<in> lv_manifests (cy_live cy)")
    case False
    have "cy_store (snd (mark_chain n False blake3 zstd p (mark_manifest r m cy))) = cy_store cy \<and>
        live_le (cy_live cy) (cy_live (snd (mark_chain n False blake3 zstd p (mark_manifest r m cy))))" for p m
      using Suc.IH[of False p "mark_manifest r m cy"]
        live_le_trans[of "cy_live cy" "cy_live (mark_manifest r m cy)"] by simp
    then show ?thesis
      using False by (simp split: outcome.split option.split)
  qed simp
qed simp

lemma gc_mark_frame:
  "cy_store (snd (gc_mark blake3 zstd roots cy)) = cy_store cy \<and>
   live_le (cy_live cy) (cy_live (snd (gc_mark blake3 zstd roots cy)))"
proof (induction roots arbitrary: cy)
  case (Cons r roots)
  show ?case
    using mark_chain_frame[of MAX_CHAIN True blake3 zstd r cy] Cons.IH[of "snd (mark_chain MAX_CHAIN True blake3 zstd r cy)"]
    by (cases "mark_chain MAX_CHAIN True blake3 zstd r cy")
      (auto simp: sbind_def split: outcome.split intro: live_le_trans)
qed simp

lemma mark_chain_closed:
  assumes "mark_chain n b blake3 zstd r cy = (Ok (), cy')"
    "live_closed blake3 zstd (cy_store cy) (cy_live cy) (if b then {} else {r})"
  shows "live_closed blake3 zstd (cy_store cy) (cy_live cy') {} \<and>
    (r \<in> lv_manifests (cy_live cy') \<or> b \<and> \<not> has_manifest (cy_store cy) r)"
  using assms
proof (induction n arbitrary: b r cy)
  case (Suc n)
  show ?case
  proof (cases "r \<in> lv_manifests (cy_live cy)")
    case True
    then have "live_closed blake3 zstd (cy_store cy) (cy_live cy) {}"
      using Suc.prems(2) by (auto simp: live_closed_def split: if_splits)
    then show ?thesis
      using Suc.prems(1) True by simp
  next
    case new: False
    show ?thesis
    proof (cases "read_manifest_bytes blake3 (cy_store cy) r")
      case (Ok bs)
      then obtain m where dec: "decode blake3 zstd bs = Ok m"
        using Suc.prems(1) new by (auto split: outcome.splits)
      then have rd: "read_manifest blake3 zstd (cy_store cy) r = Ok m"
        using Ok by (simp add: read_manifest_def)
      let ?cy = "mark_manifest r m cy"
      have closed: "live_closed blake3 zstd (cy_store cy) (cy_live ?cy) (if m_delta m then {the (m_parent m)} else {})"
        if "m_delta m \<Longrightarrow> m_parent m \<noteq> None"
        using Suc.prems(2) rd that by (fastforce simp: live_closed_def mark_manifest_def split: if_splits)
      show ?thesis
      proof (cases "m_delta m")
        case True
        then obtain p where p: "m_parent m = Some p" "mark_chain n False blake3 zstd p ?cy = (Ok (), cy')"
          using Suc.prems(1) new Ok dec by (auto split: option.splits)
        have "live_closed blake3 zstd (cy_store cy) (cy_live cy') {}"
          using Suc.IH[OF p(2)] closed p(1) True by simp
        moreover have "r \<in> lv_manifests (cy_live cy')"
          using mark_chain_frame[of n False blake3 zstd p ?cy] mark_manifest_frame(3)[of r m cy] p(2)
          by (auto simp: live_le_def simp del: mark_manifest_frame)
        ultimately show ?thesis by simp
      next
        case False
        then show ?thesis
          using Suc.prems(1) new Ok dec closed by auto
      qed
    next
      case (Err e)
      then have "e = SnNotFound" "b" "cy_live cy' = cy_live cy"
        using Suc.prems(1) new by (auto split: if_splits)
      then show ?thesis
        using Suc.prems(2) Err
        by (auto simp: has_manifest_def read_manifest_bytes_def split: option.splits if_splits)
    next
      case Panic
      then show ?thesis
        using Suc.prems(1) new by simp
    qed
  qed
qed simp

lemma gc_mark_closed:
  assumes "gc_mark blake3 zstd roots cy = (Ok (), cy')" "live_closed blake3 zstd (cy_store cy) (cy_live cy) {}"
  shows "live_closed blake3 zstd (cy_store cy) (cy_live cy') {} \<and>
    (\<forall>r \<in> set roots. has_manifest (cy_store cy) r \<longrightarrow> r \<in> lv_manifests (cy_live cy'))"
  using assms
proof (induction roots arbitrary: cy)
  case (Cons r roots)
  obtain cy1 where cy1: "mark_chain MAX_CHAIN True blake3 zstd r cy = (Ok (), cy1)"
    "gc_mark blake3 zstd roots cy1 = (Ok (), cy')"
    using Cons.prems(1) by (auto simp: sbind_eq_Ok)
  note c1 = mark_chain_closed[OF cy1(1)]
  have st: "cy_store cy1 = cy_store cy"
    using mark_chain_frame[of MAX_CHAIN True blake3 zstd r cy] cy1(1) by simp
  have "live_le (cy_live cy1) (cy_live cy')"
    using gc_mark_frame[of blake3 zstd roots cy1] cy1(2) by simp
  then show ?case
    using Cons.IH[OF cy1(2)] c1 Cons.prems(2) st by (auto simp: live_le_def)
qed simp

section \<open>Finalizing the index\<close>

text \<open>Where an entry of the index is after the finalize of pack \<open>p\<close>.\<close>

definition repointed :: "pack_id \<Rightarrow> (Snap_Types.page_hash \<times> page_loc) list \<Rightarrow> Snap_Types.page_hash \<Rightarrow> page_loc \<Rightarrow> page_loc" where
  "repointed p copied h k =
     (if loc_pack k = p then (case map_of copied h of Some l \<Rightarrow> l | None \<Rightarrow> k) else k)"

lemma repoint_all_index:
  assumes "index_inv (ps_index ps)" "\<forall>(h, l) \<in> set copied. loc_pack l \<noteq> p"
  shows "\<exists>ix. repoint_all p copied ps = ps\<lparr>ps_index := ix\<rparr> \<and> index_inv ix \<and>
    index_get ix = (\<lambda>h. map_option (repointed p copied h) (index_get (ps_index ps) h))"
  using assms
proof (induction copied arbitrary: ps)
  case Nil
  then show ?case
    by (intro exI[of _ "ps_index ps"]) (simp add: repoint_all_def repointed_def fun_eq_iff option.map_ident_strong)
next
  case (Cons e copied)
  obtain h l where e: "e = (h, l)" by (cases e)
  let ?ix = "fst (repoint_if_in_pack (ps_index ps) h p l)"
  let ?ps = "ps\<lparr>ps_index := ?ix\<rparr>"
  have inv: "index_inv (ps_index ps)" and l: "loc_pack l \<noteq> p"
    using Cons.prems by (simp_all add: e)
  have first: "repoint_all p (e # copied) ps = repoint_all p copied ?ps"
    by (simp add: repoint_all_def e store_repoint_def case_prod_beta Let_def)
  obtain ix where ix: "repoint_all p copied ?ps = ?ps\<lparr>ps_index := ix\<rparr>" "index_inv ix"
    "index_get ix = (\<lambda>h. map_option (repointed p copied h) (index_get ?ix h))"
    using Cons.IH[of ?ps] Cons.prems(2) sharded.inv_repoint[OF inv] by auto
  have "index_get ix = (\<lambda>h. map_option (repointed p (e # copied) h) (index_get (ps_index ps) h))"
  proof
    fix g
    show "index_get ix g = map_option (repointed p (e # copied) g) (index_get (ps_index ps) g)"
      unfolding ix(3) sharded.lookup_repoint[OF inv]
      by (cases "index_get (ps_index ps) g"; cases "index_get (ps_index ps) h"; cases "g = h")
        (use l in \<open>auto simp: repointed_def e\<close>)
  qed
  then show ?case
    using ix(1,2) first by auto
qed

lemma remove_dead_index:
  assumes "index_inv (ps_index ps)"
  shows "\<exists>ix. remove_dead p live dead ps = ps\<lparr>ps_index := ix\<rparr> \<and> index_inv ix \<and>
    (\<forall>h. index_get ix h = (case index_get (ps_index ps) h of
       Some k \<Rightarrow> if loc_pack k = p \<and> h \<in> fst ` set dead \<and> h \<notin> live then None else Some k | None \<Rightarrow> None))"
  using assms
proof (induction dead arbitrary: ps)
  case Nil
  then show ?case
    by (intro exI[of _ "ps_index ps"]) (simp add: remove_dead_def split: option.split)
next
  case (Cons e dead)
  obtain h l where e: "e = (h, l)" by (cases e)
  let ?ix = "if h \<notin> live then fst (remove_if_in_pack (ps_index ps) h p) else ps_index ps"
  let ?ps = "ps\<lparr>ps_index := ?ix\<rparr>"
  have inv: "index_inv ?ix"
    using Cons.prems sharded.inv_remove by simp
  have first: "remove_dead p live (e # dead) ps = remove_dead p live dead ?ps"
    by (simp add: remove_dead_def e store_remove_def case_prod_beta Let_def)
  obtain ix where ix: "remove_dead p live dead ?ps = ?ps\<lparr>ps_index := ix\<rparr>" "index_inv ix"
    "\<forall>h. index_get ix h = (case index_get ?ix h of
       Some k \<Rightarrow> if loc_pack k = p \<and> h \<in> fst ` set dead \<and> h \<notin> live then None else Some k | None \<Rightarrow> None)"
    using Cons.IH[of ?ps] inv by auto
  have get: "index_get ?ix g = (case index_get (ps_index ps) g of
      Some k \<Rightarrow> if loc_pack k = p \<and> g = h \<and> h \<notin> live then None else Some k | None \<Rightarrow> None)" for g
    using Cons.prems by (auto simp: sharded.lookup_remove split: option.split)
  have "\<forall>g. index_get ix g = (case index_get (ps_index ps) g of
      Some k \<Rightarrow> if loc_pack k = p \<and> g \<in> fst ` set (e # dead) \<and> g \<notin> live then None else Some k | None \<Rightarrow> None)"
    unfolding ix(3)[rule_format] get by (auto simp: e split: option.split)
  then show ?case
    using ix(1,2) first by auto
qed

text \<open>Reading the page of an index entry.\<close>

lemma stored_page_at:
  assumes "index_get (ps_index ps) h = Some loc" "logical_file ps (loc_pack loc) = Some c"
    "page_in blake3 c (unat (loc_offset loc)) h pg"
  shows "stored_page blake3 ps h = Some pg"
  using assms by (simp add: stored_page_def page_of_def lk_loc_def page_in_def)

lemma copied_at_logical:
  assumes "store_inv blake3 ps" "copied_at blake3 ps h loc pg"
  shows "\<exists>c. logical_file ps (loc_pack loc) = Some c \<and> page_in blake3 c (unat (loc_offset loc)) h pg"
proof -
  have "map_of (ps_files ps) (ps_pack_id ps) = None"
    using assms(1) by (simp add: store_inv_def files_ok_def map_of_eq_None_iff)
  then show ?thesis
    using assms(2) unfolding copied_at_def logical_file_def by auto
qed

definition finalized ::
  "pack_id \<Rightarrow> (Snap_Types.page_hash \<times> page_loc) list \<Rightarrow> Snap_Types.page_hash set \<Rightarrow>
     (Snap_Types.page_hash \<times> page_loc) list \<Rightarrow> page_store \<Rightarrow> page_store" where
  "finalized p copied live dead ps = remove_dead p live dead (repoint_all p copied ps)"

lemma finalized_ok:
  assumes inv: "store_inv blake3 ps"
    and copied: "\<forall>(h, l) \<in> set copied. loc_pack l \<noteq> p \<and> copied_at blake3 ps h l (the (stored_page blake3 ps h))"
    and cover: "\<forall>h k. index_get (ps_index ps) h = Some k \<and> loc_pack k = p \<longrightarrow>
      h \<in> fst ` set copied \<or> h \<in> fst ` set dead \<and> h \<notin> live"
  shows "\<exists>ix. finalized p copied live dead ps = ps\<lparr>ps_index := ix\<rparr> \<and> store_inv blake3 (ps\<lparr>ps_index := ix\<rparr>) \<and>
    (\<forall>h loc. index_get ix h = Some loc \<longrightarrow> loc_pack loc \<noteq> p) \<and>
    (\<forall>h. stored_page blake3 (ps\<lparr>ps_index := ix\<rparr>) h =
       (if (\<exists>k. index_get (ps_index ps) h = Some k \<and> loc_pack k = p) \<and> h \<notin> fst ` set copied then None
        else stored_page blake3 ps h))"
proof -
  have ix0: "index_inv (ps_index ps)"
    using inv by (simp add: store_inv_def)
  have new: "\<forall>(h, l) \<in> set copied. loc_pack l \<noteq> p"
    using copied by auto
  obtain ix1 where ix1: "repoint_all p copied ps = ps\<lparr>ps_index := ix1\<rparr>" "index_inv ix1"
    "index_get ix1 = (\<lambda>h. map_option (repointed p copied h) (index_get (ps_index ps) h))"
    using repoint_all_index[OF ix0 new] by blast
  obtain ix where ix: "finalized p copied live dead ps = ps\<lparr>ps_index := ix\<rparr>" "index_inv ix"
    and get1: "\<forall>h. index_get ix h = (case index_get ix1 h of
       Some k \<Rightarrow> if loc_pack k = p \<and> h \<in> fst ` set dead \<and> h \<notin> live then None else Some k | None \<Rightarrow> None)"
    using remove_dead_index[of "ps\<lparr>ps_index := ix1\<rparr>" p live dead] ix1(1,2) by (auto simp: finalized_def)
  have get: "index_get ix h = (case index_get (ps_index ps) h of None \<Rightarrow> None
      | Some k \<Rightarrow> if loc_pack k = p then map_of copied h else Some k)" for h
  proof (cases "index_get (ps_index ps) h")
    case (Some k)
    show ?thesis
    proof (cases "map_of copied h")
      case None
      then have "h \<notin> fst ` set copied"
        by (simp add: map_of_eq_None_iff)
      then have "loc_pack k = p \<Longrightarrow> h \<in> fst ` set dead \<and> h \<notin> live"
        using Some cover by blast
      then show ?thesis
        using Some None get1[rule_format, of h] by (simp add: ix1(3) repointed_def)
    next
      case l: (Some l)
      then show ?thesis
        using Some new get1[rule_format, of h] by (auto simp: ix1(3) repointed_def dest: map_of_SomeD)
    qed
  qed (simp add: get1 ix1(3))
  let ?ps = "ps\<lparr>ps_index := ix\<rparr>"
  have lf: "logical_file ?ps = logical_file ps"
    by (simp add: logical_file_def fun_eq_iff)
  have at: "\<exists>c pg. logical_file ps (loc_pack l) = Some c \<and> page_in blake3 c (unat (loc_offset l)) h pg \<and>
      stored_page blake3 ps h = Some pg \<and> loc_pack l \<noteq> p" if "index_get ix h = Some l" for h l
  proof (cases "\<exists>k. index_get (ps_index ps) h = Some k \<and> loc_pack k = p")
    case True
    then have "(h, l) \<in> set copied" "index_get (ps_index ps) h \<noteq> None"
      using that get[of h] by (auto dest: map_of_SomeD)
    then show ?thesis
      using copied copied_at_logical[OF inv] by (fastforce simp: stored_page_def)
  next
    case False
    then have old: "index_get (ps_index ps) h = Some l" "loc_pack l \<noteq> p"
      using that get[of h] by (auto split: option.splits)
    then have "page_at blake3 ps h l"
      using inv by (simp add: store_inv_def)
    then show ?thesis
      using old stored_page_at[OF old(1)] unfolding page_at_def by blast
  qed
  have "page_at blake3 ?ps h l" if "index_get ix h = Some l" for h l
    using at[OF that] unfolding page_at_def lf by blast
  then have "store_inv blake3 ?ps"
    using inv ix(2) by (simp add: store_inv_def active_ok_def files_ok_def cache_ok_def)
  moreover have "stored_page blake3 ?ps h =
      (if (\<exists>k. index_get (ps_index ps) h = Some k \<and> loc_pack k = p) \<and> h \<notin> fst ` set copied then None
       else stored_page blake3 ps h)" for h
  proof (cases "index_get ix h")
    case None
    then show ?thesis
      using get[of h] by (auto simp: stored_page_def map_of_eq_None_iff split: option.splits if_splits)
  next
    case (Some l)
    have "(\<exists>k. index_get (ps_index ps) h = Some k \<and> loc_pack k = p) \<longrightarrow> h \<in> fst ` set copied"
      using Some get[of h] by (auto dest!: map_of_SomeD intro: rev_image_eqI)
    then show ?thesis
      using at[OF Some] stored_page_at[of ?ps h l] Some by (auto simp: lf)
  qed
  ultimately show ?thesis
    using ix(1) at by (intro exI[of _ ix]) auto
qed

section \<open>Unlinking a pack\<close>

lemma unlink_pack_fields:
  "ps_index (unlink_pack p ps) = ps_index ps" "ps_pack_id (unlink_pack p ps) = ps_pack_id ps"
  "ps_writer (unlink_pack p ps) = ps_writer ps" "ps_next_pack_id (unlink_pack p ps) = ps_next_pack_id ps"
  "ps_max_pack_bytes (unlink_pack p ps) = ps_max_pack_bytes ps"
  "map_of (ps_files (unlink_pack p ps)) = (map_of (ps_files ps))(p := None)"
  by (simp_all add: unlink_pack_def delete_pack_def invalidate_pack_handle_def delete_conv')

lemma unlink_pack_ok:
  assumes inv: "store_inv blake3 ps" and act: "p \<noteq> ps_pack_id ps"
    and unused: "\<forall>h loc. index_get (ps_index ps) h = Some loc \<longrightarrow> loc_pack loc \<noteq> p"
  shows "store_inv blake3 (unlink_pack p ps)" "stored_page blake3 (unlink_pack p ps) = stored_page blake3 ps"
    "dirty_ok ps \<Longrightarrow> dirty_ok (unlink_pack p ps)"
proof -
  let ?ps = "unlink_pack p ps"
  note fields = unlink_pack_fields[of p ps]
  have lf: "logical_file ?ps q = (if q = p then None else logical_file ps q)" for q
    using act by (simp add: logical_file_def fields)
  have set1: "set (ps_files ?ps) = {e \<in> set (ps_files ps). fst e \<noteq> p}"
    by (auto simp: unlink_pack_def delete_pack_def invalidate_pack_handle_def AList.delete_eq)
  have "files_ok ?ps"
    using inv unfolding store_inv_def files_ok_def fields set1
    by (auto simp: unlink_pack_def delete_pack_def invalidate_pack_handle_def distinct_delete)
  moreover have "cache_ok ?ps"
    using inv unfolding store_inv_def cache_ok_def fields
    by (auto simp: unlink_pack_def delete_pack_def invalidate_pack_handle_def cache_invalidate_def lru_remove_def delete_conv'
        split: if_splits)
  moreover have "active_ok blake3 ?ps"
    using inv by (simp add: store_inv_def active_ok_def fields)
  moreover have "page_at blake3 ?ps h loc" if "index_get (ps_index ps) h = Some loc" for h loc
    using that inv unused unfolding store_inv_def page_at_def lf by auto
  ultimately show "store_inv blake3 ?ps"
    using inv by (simp add: store_inv_def fields)
  have "page_of blake3 ?ps (0, h, loc) = page_of blake3 ps (0, h, loc)" if "index_get (ps_index ps) h = Some loc" for h loc
    using unused that by (simp add: page_of_def lf lk_loc_def)
  then show "stored_page blake3 ?ps = stored_page blake3 ps"
    by (auto simp: stored_page_def fields fun_eq_iff split: option.split intro: option.map_cong0 option.map_cong)
  show "dirty_ok ps \<Longrightarrow> dirty_ok ?ps"
    unfolding dirty_ok_iff set1 fields
    by (auto simp: unlink_pack_def delete_pack_def invalidate_pack_handle_def AList.delete_eq)
qed

section \<open>Deleting manifests\<close>

lemma delete_manifest_fields:
  "map_of (ss_manifests (snd (delete_manifest r st))) = (map_of (ss_manifests st))(r := None)"
  "ss_pages (snd (delete_manifest r st)) = ss_pages st" "ss_epoch (snd (delete_manifest r st)) = ss_epoch st"
  "ss_gc (snd (delete_manifest r st)) = ss_gc st"
  "distinct (map fst (ss_manifests st)) \<Longrightarrow> distinct (map fst (ss_manifests (snd (delete_manifest r st))))"
  by (auto simp: delete_manifest_def Let_def delete_conv' distinct_delete fun_upd_idem split: option.split)

lemma delete_manifest_read:
  "q \<noteq> r \<Longrightarrow> read_manifest blake3 zstd (snd (delete_manifest r st)) q = read_manifest blake3 zstd st q"
  by (simp add: read_manifest_def read_manifest_bytes_def delete_manifest_fields)

end
