(* ===== verification/Gc_Safety.thy ===== *)
theory Gc_Safety
  imports Gc_Steps
begin

text \<open>
  The collector against everything that can run beside it.  A client step is any operation of the
  store's interface; a collector step is one of its critical sections.  In every interleaving a
  snapshot that was acknowledged while the epoch was open, or was a root at its start, keeps its
  chain and the bytes of its pages.
\<close>

section \<open>Clients\<close>

inductive client_step ::
  "(bytes \<Rightarrow> hash32) \<Rightarrow> (bytes \<Rightarrow> bytes option) \<Rightarrow> (bytes \<Rightarrow> u32) \<Rightarrow> snapshot_store \<Rightarrow> snapshot_ref set \<Rightarrow>
     snapshot_store \<Rightarrow> bool"
  for blake3 zstd crc32 where
  ingest_step: "client_step blake3 zstd crc32 st {} (st\<lparr>ss_pages := ps\<rparr>)"
    if "room_for (length pages) (ss_pages st)" "\<forall>p \<in> set pages. length p = PAGE_SIZE"
      "\<forall>es. mset (order es) = mset es" "ingest blake3 crc32 order now pages (ss_pages st) = (Ok outs, ps)"
| read_step: "client_step blake3 zstd crc32 st {} (st\<lparr>ss_pages := ps\<rparr>)"
    if "get_batch blake3 hashes (ss_pages st) = (res, ps)"
| put_step: "client_step blake3 zstd crc32 st {r} st'"
    if "put_snapshot blake3 zstd container st = (Ok r, st')"
| put_refused: "client_step blake3 zstd crc32 st {} st'"
    if "put_snapshot blake3 zstd container st = (Err e, st')"
| register_step: "client_step blake3 zstd crc32 st {r} st'"
    if "register_live_ref blake3 zstd r st = (Ok (), st')"
| register_refused: "client_step blake3 zstd crc32 st {} st'"
    if "register_live_ref blake3 zstd r st = (Err e, st')"
| resolve_step: "client_step blake3 zstd crc32 st {} st'"
    if "resolve_pages blake3 zstd r baseline hashes_only st = (res, st')"

text \<open>What a client never does: lose a manifest or a page, write to a pack that is not active, or
  take back a late root.\<close>

definition client_ok :: "(bytes \<Rightarrow> hash32) \<Rightarrow> snapshot_store \<Rightarrow> snapshot_store \<Rightarrow> bool" where
  "client_ok blake3 st st' \<longleftrightarrow>
     base_inv blake3 st' \<and> map_of (ss_manifests st) \<subseteq>\<^sub>m map_of (ss_manifests st') \<and>
     grows (ss_pages st) (ss_pages st') \<and>
     (\<exists>late. ss_epoch st' = map_option (\<lambda>l. l @ late) (ss_epoch st))"

lemma client_ok_refl [simp]: "base_inv blake3 st \<Longrightarrow> client_ok blake3 st st"
  by (simp add: client_ok_def option.map_ident exI[of _ "[]"])

lemma client_ok_trans:
  assumes "client_ok blake3 a b" "client_ok blake3 b c"
  shows "client_ok blake3 a c"
proof -
  obtain l1 l2 where "ss_epoch b = map_option (\<lambda>l. l @ l1) (ss_epoch a)" "ss_epoch c = map_option (\<lambda>l. l @ l2) (ss_epoch b)"
    using assms by (auto simp: client_ok_def)
  then have "ss_epoch c = map_option (\<lambda>l. l @ (l1 @ l2)) (ss_epoch a)"
    by (cases "ss_epoch a") auto
  then show ?thesis
    using assms grows_trans map_le_trans unfolding client_ok_def by blast
qed

lemma same_store_grows: "same_store ps ps' \<Longrightarrow> grows ps ps'"
  by (auto simp: same_store_def grows_def)

lemma same_store_dirty_ok: "same_store ps ps' \<Longrightarrow> dirty_ok ps \<Longrightarrow> dirty_ok ps'"
  by (simp add: same_store_def dirty_ok_iff)

lemma register_client:
  assumes inv: "base_inv blake3 st" and reg: "register_live_ref blake3 zstd r st = (res, st')"
  shows "client_ok blake3 st st'" "ss_epoch st \<noteq> None \<Longrightarrow> res = Ok () \<Longrightarrow>
    validate_closure blake3 zstd st' r = Ok () \<and> r \<in> set (the (ss_epoch st'))"
proof -
  have st': "st' = registered r st"
    using register_live_ref_state[of blake3 zstd r st] reg by simp
  show "client_ok blake3 st st'"
    using inv unfolding st' client_ok_def registered_def
    by (auto simp: base_inv_def barrier_inv_def intro: exI[of _ "[r]"])
  show "validate_closure blake3 zstd st' r = Ok () \<and> r \<in> set (the (ss_epoch st'))"
    if "ss_epoch st \<noteq> None" "res = Ok ()"
    using reg that by (auto simp: register_live_ref_def Let_def)
qed

lemma put_client:
  assumes inv: "base_inv blake3 st" and put: "put_snapshot blake3 zstd container st = (res, st')"
  shows "client_ok blake3 st st'" "ss_epoch st \<noteq> None \<Longrightarrow> res = Ok r \<Longrightarrow>
    validate_closure blake3 zstd st' r = Ok () \<and> r \<in> set (the (ss_epoch st'))"
proof -
  have "client_ok blake3 st st' \<and> (ss_epoch st \<noteq> None \<longrightarrow> res = Ok r \<longrightarrow>
    validate_closure blake3 zstd st' r = Ok () \<and> r \<in> set (the (ss_epoch st')))"
  proof (cases "put_checks blake3 zstd st container")
    case (Ok m)
    let ?r = "snapshot_ref_of blake3 container"
    obtain ps where ps: "put_snapshot blake3 zstd container st = register_put blake3 zstd ?r (committed blake3 container m ps st)"
      "store_inv blake3 ps" "dirty_ok ps" "grows (ss_pages st) ps" "ps_index ps = ps_index (ss_pages st)"
      using put_snapshot_run[OF inv Ok] by blast
    let ?X = "committed blake3 container m ps st"
    obtain reg where reg: "register_live_ref blake3 zstd ?r ?X = (reg, st')"
      and res: "res = Ok r \<Longrightarrow> reg = Ok () \<and> r = ?r"
      using put by (auto simp: ps(1) register_put_def Let_def obind_eq_Ok split: prod.splits)
    have X: "base_inv blake3 ?X"
      by (rule committed_base_inv[OF inv ps(2,3)])
    have "client_ok blake3 st ?X"
      using X ps(4) committed_extends[OF ps(5)]
      by (auto simp: client_ok_def extends_def committed_def Let_def option.map_ident intro: exI[of _ "[]"])
    moreover have "ss_epoch ?X = ss_epoch st"
      by (simp add: committed_def Let_def)
    ultimately show ?thesis
      using register_client[OF X reg] res client_ok_trans by metis
  next
    case (Err e)
    then show ?thesis
      using put inv by (auto simp: put_snapshot_fails)
  next
    case Panic
    then have "put_snapshot blake3 zstd container st = (Panic, st)"
      by (simp add: put_snapshot_def put_checks_def)
    then show ?thesis
      using put inv by auto
  qed
  then show "client_ok blake3 st st'" "ss_epoch st \<noteq> None \<Longrightarrow> res = Ok r \<Longrightarrow>
    validate_closure blake3 zstd st' r = Ok () \<and> r \<in> set (the (ss_epoch st'))"
    by blast+
qed

lemma client_step_ok:
  assumes inv: "base_inv blake3 st" and step: "client_step blake3 zstd crc32 st acked st'"
  shows "client_ok blake3 st st' \<and> (ss_epoch st \<noteq> None \<longrightarrow>
    (\<forall>r \<in> acked. validate_closure blake3 zstd st' r = Ok () \<and> r \<in> set (the (ss_epoch st'))))"
  using step
proof cases
  case (ingest_step pages order now outs ps)
  have parts: "store_inv blake3 (ss_pages st)" "dirty_ok (ss_pages st)"
    using inv by (simp_all add: base_inv_def)
  have "store_inv blake3 ps" "grows (ss_pages st) ps"
    using ingest_ok[OF parts(1) ingest_step(3,4), of order crc32 now] ingest_step(5,6) by auto
  moreover have "dirty_ok ps"
    using ingest_dirty_ok[OF parts(2), of blake3 crc32 order now pages] ingest_step(6) by simp
  ultimately show ?thesis
    using inv ingest_step(1,2) by (auto simp: client_ok_def base_inv_def barrier_inv_def option.map_ident intro: exI[of _ "[]"])
next
  case (read_step hashes res ps)
  have parts: "store_inv blake3 (ss_pages st)" "dirty_ok (ss_pages st)"
    using inv by (simp_all add: base_inv_def)
  have "store_inv blake3 ps" "same_store (ss_pages st) ps"
    using get_batch_ok[OF parts(1), of hashes] read_step(3) by auto
  then show ?thesis
    using inv read_step(1,2) same_store_grows same_store_dirty_ok parts(2)
    by (auto simp: client_ok_def base_inv_def barrier_inv_def option.map_ident intro: exI[of _ "[]"])
next
  case (put_step r container)
  then show ?thesis
    using put_client[OF inv put_step(2)] by simp
next
  case (put_refused container e)
  then show ?thesis
    using put_client(1)[OF inv put_refused(2)] by simp
next
  case (register_step r)
  then show ?thesis
    using register_client[OF inv register_step(2)] by simp
next
  case (register_refused r e)
  then show ?thesis
    using register_client(1)[OF inv register_refused(2)] by simp
next
  case (resolve_step r baseline hashes_only res)
  then have "ss_manifests st' = ss_manifests st" "ss_pages st' = ss_pages st" "ss_epoch st' = ss_epoch st" "ss_gc st' = ss_gc st"
    by (auto simp: resolve_pages_def flatten_chain_def sbind_def sreturn_def Let_def
        split: option.splits outcome.splits prod.splits if_splits)
  then show ?thesis
    using inv resolve_step(1) by (auto simp: client_ok_def base_inv_def barrier_inv_def option.map_ident intro: exI[of _ "[]"])
qed

section \<open>The collector and its clients\<close>

text \<open>The store, the live set, the late roots that have been drained and not yet marked, and the
  references acknowledged since the epoch began.\<close>

record gc_world =
  wd_store :: snapshot_store
  wd_live :: live_set
  wd_pending :: "snapshot_ref list"
  wd_acked :: "snapshot_ref set"

text \<open>Nothing registered is unmarked.\<close>

definition quiescent :: "gc_world \<Rightarrow> bool" where
  "quiescent w \<longleftrightarrow> ss_epoch (wd_store w) = Some [] \<and> wd_pending w = []"

abbreviation set_pages :: "page_store \<Rightarrow> snapshot_store \<Rightarrow> snapshot_store" where
  "set_pages ps st \<equiv> st\<lparr>ss_pages := ps\<rparr>"

inductive gc_step ::
  "(bytes \<Rightarrow> hash32) \<Rightarrow> (bytes \<Rightarrow> bytes option) \<Rightarrow> (bytes \<Rightarrow> u32) \<Rightarrow> gc_world \<Rightarrow> gc_world \<Rightarrow> bool"
  for blake3 zstd crc32 where
  client: "gc_step blake3 zstd crc32 w (w\<lparr>wd_store := st', wd_acked := wd_acked w \<union> acked\<rparr>)"
    if "client_step blake3 zstd crc32 (wd_store w) acked st'"
| drain: "gc_step blake3 zstd crc32 w (w\<lparr>wd_store := st', wd_pending := wd_pending w @ late\<rparr>)"
    if "drain_late_roots (wd_store w) = (late, st')"
| mark: "gc_step blake3 zstd crc32 w (w\<lparr>wd_live := cy_live cy', wd_pending := []\<rparr>)"
    if "gc_mark blake3 zstd (wd_pending w) \<lparr>cy_store = wd_store w, cy_live = wd_live w, cy_report = rp\<rparr> = (Ok (), cy')"
| copy: "gc_step blake3 zstd crc32 w (w\<lparr>wd_store := cy_store cy'\<rparr>)"
    if "records \<noteq> []" "ids_left 1 (ss_pages (wd_store w))" "ps_max_pack_bytes (ss_pages (wd_store w)) < 2 ^ 44"
      "\<forall>(h, loc) \<in> set records. index_get (ps_index (ss_pages (wd_store w))) h = Some loc \<and>
         loc_pack loc \<noteq> ps_pack_id (ss_pages (wd_store w))"
      "gc_copy_records blake3 crc32 now records \<lparr>cy_store = wd_store w, cy_live = wd_live w, cy_report = rp\<rparr> = (res, cy')"
| finalize: "gc_step blake3 zstd crc32 w (w\<lparr>wd_store := set_pages (finalized p copied (lv_pages (wd_live w)) dead ps) (wd_store w)\<rparr>)"
    if "quiescent w" "ps = ss_pages (wd_store w)"
      "\<forall>(h, l) \<in> set copied. loc_pack l \<noteq> p \<and> copied_at blake3 ps h l (the (stored_page blake3 ps h))"
      "\<forall>h k. index_get (ps_index ps) h = Some k \<and> loc_pack k = p \<longrightarrow>
         h \<in> fst ` set copied \<or> h \<in> fst ` set dead \<and> h \<notin> lv_pages (wd_live w)"
| unlink: "gc_step blake3 zstd crc32 w (w\<lparr>wd_store := set_pages (unlink_pack p ps) (wd_store w)\<rparr>)"
    if "ps = ss_pages (wd_store w)" "p \<noteq> ps_pack_id ps"
      "\<forall>h loc. index_get (ps_index ps) h = Some loc \<longrightarrow> loc_pack loc \<noteq> p"
| sweep: "gc_step blake3 zstd crc32 w (w\<lparr>wd_store := snd (delete_manifest r (wd_store w))\<rparr>)"
    if "quiescent w" "r \<notin> lv_manifests (wd_live w)"

definition world_inv :: "(bytes \<Rightarrow> hash32) \<Rightarrow> (bytes \<Rightarrow> bytes option) \<Rightarrow> gc_world \<Rightarrow> bool" where
  "world_inv blake3 zstd w \<longleftrightarrow>
     base_inv blake3 (wd_store w) \<and> ss_epoch (wd_store w) \<noteq> None \<and>
     live_closed blake3 zstd (wd_store w) (wd_live w) {} \<and>
     (\<forall>r \<in> wd_acked w. validate_closure blake3 zstd (wd_store w) r = Ok () \<and>
        r \<in> lv_manifests (wd_live w) \<union> set (wd_pending w) \<union> set (the (ss_epoch (wd_store w))))"

section \<open>What a step keeps\<close>

text \<open>The chain of a snapshot and the bytes of all its pages are the same in both states.\<close>

definition kept ::
  "(bytes \<Rightarrow> hash32) \<Rightarrow> (bytes \<Rightarrow> bytes option) \<Rightarrow> snapshot_store \<Rightarrow> snapshot_store \<Rightarrow> snapshot_ref \<Rightarrow> bool" where
  "kept blake3 zstd st st' r \<longleftrightarrow>
     (\<exists>chain. read_chain MAX_CHAIN blake3 zstd st r = Ok chain \<and> read_chain MAX_CHAIN blake3 zstd st' r = Ok chain \<and>
        (\<forall>(c, m) \<in> set chain. \<forall>e \<in> set (m_entries m). \<exists>pg.
           stored_page blake3 (ss_pages st) (page_hash e) = Some pg \<and>
           stored_page blake3 (ss_pages st') (page_hash e) = Some pg))"

lemma stored_page_None: "stored_page blake3 ps h = None \<longleftrightarrow> h \<notin> dom (index_get (ps_index ps))"
  by (auto simp: stored_page_def)

lemma kept_valid:
  assumes "kept blake3 zstd st st' r"
  shows "validate_closure blake3 zstd st' r = Ok ()"
proof -
  obtain chain where chain: "read_chain MAX_CHAIN blake3 zstd st' r = Ok chain"
    "\<forall>(c, m) \<in> set chain. \<forall>e \<in> set (m_entries m). stored_page blake3 (ss_pages st') (page_hash e) \<noteq> None"
    using assms unfolding kept_def by fastforce
  then show ?thesis
    unfolding validate_closure_def validate_chain_iff stored_page_None by blast
qed

lemma kept_trans:
  assumes "kept blake3 zstd a b r" "kept blake3 zstd b c r"
  shows "kept blake3 zstd a c r"
proof -
  obtain ch where ch: "read_chain MAX_CHAIN blake3 zstd a r = Ok ch" "read_chain MAX_CHAIN blake3 zstd b r = Ok ch"
    "\<forall>(c, m) \<in> set ch. \<forall>e \<in> set (m_entries m). \<exists>pg. stored_page blake3 (ss_pages a) (page_hash e) = Some pg \<and>
       stored_page blake3 (ss_pages b) (page_hash e) = Some pg"
    using assms(1) by (auto simp: kept_def)
  have d: "read_chain MAX_CHAIN blake3 zstd c r = Ok ch"
    "\<forall>(x, m) \<in> set ch. \<forall>e \<in> set (m_entries m). \<exists>pg. stored_page blake3 (ss_pages b) (page_hash e) = Some pg \<and>
       stored_page blake3 (ss_pages c) (page_hash e) = Some pg"
    using assms(2) ch(2) by (auto simp: kept_def)
  show ?thesis
    unfolding kept_def
  proof (intro exI[of _ ch] conjI ch(1) d(1) ballI, clarify)
    fix x m e assume "(x, m) \<in> set ch" "e \<in> set (m_entries m)"
    then show "\<exists>pg. stored_page blake3 (ss_pages a) (page_hash e) = Some pg \<and> stored_page blake3 (ss_pages c) (page_hash e) = Some pg"
      using ch(3) d(2) by fastforce
  qed
qed

text \<open>The state may change in any way that keeps the manifests and pages of the chain.\<close>

lemma keptI:
  assumes valid: "validate_closure blake3 zstd st r = Ok ()"
    and chain: "\<And>ch. read_chain MAX_CHAIN blake3 zstd st r = Ok ch \<Longrightarrow> read_chain MAX_CHAIN blake3 zstd st' r = Ok ch"
    and pages: "\<And>ch c m e pg. read_chain MAX_CHAIN blake3 zstd st r = Ok ch \<Longrightarrow> (c, m) \<in> set ch \<Longrightarrow> e \<in> set (m_entries m) \<Longrightarrow>
      stored_page blake3 (ss_pages st) (page_hash e) = Some pg \<Longrightarrow> stored_page blake3 (ss_pages st') (page_hash e) = Some pg"
  shows "kept blake3 zstd st st' r"
proof -
  obtain ch where ch: "read_chain MAX_CHAIN blake3 zstd st r = Ok ch"
    "\<forall>(c, m) \<in> set ch. \<forall>e \<in> set (m_entries m). stored_page blake3 (ss_pages st) (page_hash e) \<noteq> None"
    using valid unfolding validate_closure_def validate_chain_iff by (fastforce simp: stored_page_def)
  show ?thesis
    unfolding kept_def
  proof (intro exI[of _ ch] conjI ch(1) chain[OF ch(1)] ballI, clarify)
    fix c m e assume e: "(c, m) \<in> set ch" "e \<in> set (m_entries m)"
    then obtain pg where "stored_page blake3 (ss_pages st) (page_hash e) = Some pg"
      using ch(2) by fastforce
    then show "\<exists>pg. stored_page blake3 (ss_pages st) (page_hash e) = Some pg \<and> stored_page blake3 (ss_pages st') (page_hash e) = Some pg"
      using pages[OF ch(1) e] by blast
  qed
qed

lemma kept_grow:
  assumes "validate_closure blake3 zstd st r = Ok ()" "map_of (ss_manifests st) \<subseteq>\<^sub>m map_of (ss_manifests st')"
    "\<And>h pg. stored_page blake3 (ss_pages st) h = Some pg \<Longrightarrow> stored_page blake3 (ss_pages st') h = Some pg"
  shows "kept blake3 zstd st st' r"
proof (rule keptI[OF assms(1)])
  have "h \<in> dom (index_get (ps_index (ss_pages st')))" if "h \<in> dom (index_get (ps_index (ss_pages st)))" for h
    using that assms(3)[of h] stored_page_None[of blake3 "ss_pages st" h] stored_page_None[of blake3 "ss_pages st'" h] by force
  then have "extends st st'"
    using assms(2) by (auto simp: extends_def)
  then show "read_chain MAX_CHAIN blake3 zstd st r = Ok ch \<Longrightarrow> read_chain MAX_CHAIN blake3 zstd st' r = Ok ch" for ch
    using extends_chain by blast
qed (rule assms(3))

text \<open>A live snapshot's chain and pages are live.\<close>

lemma live_chain:
  assumes "live_closed blake3 zstd st live {}" "r \<in> lv_manifests live" "read_chain n blake3 zstd st r = Ok ch" "(c, m) \<in> set ch"
  shows "c \<in> lv_manifests live \<and> page_hash ` set (m_entries m) \<subseteq> lv_pages live"
  using assms(2-)
proof (induction n arbitrary: r ch)
  case (Suc n)
  obtain m' where m': "read_manifest blake3 zstd st r = Ok m'" "page_hash ` set (m_entries m') \<subseteq> lv_pages live"
    "m_delta m' \<longrightarrow> (\<exists>p. m_parent m' = Some p \<and> p \<in> lv_manifests live)"
    using assms(1) Suc.prems(1) unfolding live_closed_def by auto
  show ?case
  proof (cases "m_delta m'")
    case True
    then obtain p ch' where p: "m_parent m' = Some p" "p \<in> lv_manifests live" "read_chain n blake3 zstd st p = Ok ch'"
      "ch = (r, m') # ch'"
      using Suc.prems(2) m' by (auto simp: obind_eq_Ok)
    then show ?thesis
      using Suc.IH[OF p(2,3)] Suc.prems(1,3) m'(2) by auto
  next
    case False
    then show ?thesis
      using Suc.prems m' by auto
  qed
qed simp

lemma live_read_chain:
  assumes closed: "live_closed blake3 zstd st live {}" and r: "r \<in> lv_manifests live"
    and same: "\<And>q. q \<in> lv_manifests live \<Longrightarrow> read_manifest blake3 zstd st' q = read_manifest blake3 zstd st q"
  shows "read_chain n blake3 zstd st' r = read_chain n blake3 zstd st r"
  using r
proof (induction n arbitrary: r)
  case (Suc n)
  obtain m where m: "read_manifest blake3 zstd st r = Ok m" "m_delta m \<longrightarrow> (\<exists>p. m_parent m = Some p \<and> p \<in> lv_manifests live)"
    using closed Suc.prems unfolding live_closed_def by auto
  then show ?case
    using Suc.IH same[OF Suc.prems] by auto
qed simp

section \<open>Every step keeps what was acknowledged\<close>

lemma acked_live:
  assumes "world_inv blake3 zstd w" "quiescent w" "r \<in> wd_acked w"
  shows "r \<in> lv_manifests (wd_live w)" "validate_closure blake3 zstd (wd_store w) r = Ok ()"
  using assms by (auto simp: world_inv_def quiescent_def)

text \<open>Steps that keep the manifests, the pages and the late roots.\<close>

lemma mono_step:
  assumes inv: "world_inv blake3 zstd w" and base: "base_inv blake3 st'"
    and ms: "map_of (ss_manifests (wd_store w)) \<subseteq>\<^sub>m map_of (ss_manifests st')"
    and pages: "\<And>h pg. stored_page blake3 (ss_pages (wd_store w)) h = Some pg \<Longrightarrow> stored_page blake3 (ss_pages st') h = Some pg"
    and ep: "ss_epoch st' \<noteq> None" "set (the (ss_epoch (wd_store w))) \<subseteq> set pending \<union> set (the (ss_epoch st'))"
      "set (wd_pending w) \<subseteq> set pending"
    and new: "\<And>r. r \<in> acked \<Longrightarrow> validate_closure blake3 zstd st' r = Ok () \<and> r \<in> set (the (ss_epoch st'))"
  shows "world_inv blake3 zstd (w\<lparr>wd_store := st', wd_pending := pending, wd_acked := wd_acked w \<union> acked\<rparr>) \<and>
    (\<forall>r \<in> wd_acked w. kept blake3 zstd (wd_store w) st' r)"
proof -
  have kept: "kept blake3 zstd (wd_store w) st' r" if "r \<in> wd_acked w" for r
    by (rule kept_grow[OF _ ms pages]) (use inv that in \<open>auto simp: world_inv_def\<close>)
  have "read_manifest blake3 zstd st' q = Ok m" if "read_manifest blake3 zstd (wd_store w) q = Ok m" for q m
  proof -
    have "extends (wd_store w) (st'\<lparr>ss_pages := ss_pages (wd_store w)\<rparr>)"
      using ms by (simp add: extends_def)
    from extends_read[OF this that] show ?thesis
      using read_manifest_cong[of "st'\<lparr>ss_pages := ss_pages (wd_store w)\<rparr>" st' blake3 zstd] by simp
  qed
  then have "live_closed blake3 zstd st' (wd_live w) {}"
    using inv live_closed_mono[of "wd_live w" blake3 zstd "wd_store w" st'] by (auto simp: world_inv_def)
  moreover have "validate_closure blake3 zstd st' r = Ok () \<and>
      r \<in> lv_manifests (wd_live w) \<union> set pending \<union> set (the (ss_epoch st'))" if "r \<in> wd_acked w \<union> acked" for r
    using that new[of r] kept_valid[OF kept, of r] inv ep(2,3) by (auto simp: world_inv_def)
  ultimately show ?thesis
    using kept base ep(1) by (simp add: world_inv_def)
qed

lemma world_same [simp]:
  "w\<lparr>wd_store := st, wd_pending := wd_pending w, wd_acked := acked\<rparr> = w\<lparr>wd_store := st, wd_acked := acked\<rparr>"
  "w\<lparr>wd_store := st, wd_pending := pd, wd_acked := wd_acked w\<rparr> = w\<lparr>wd_store := st, wd_pending := pd\<rparr>"
  "w\<lparr>wd_store := st, wd_acked := wd_acked w\<rparr> = w\<lparr>wd_store := st\<rparr>"
  by (cases w; simp)+

text \<open>Steps on the pages alone.\<close>

lemma pages_step:
  assumes inv: "world_inv blake3 zstd w" and ps: "store_inv blake3 ps" "dirty_ok ps"
    and pages: "\<And>h pg. stored_page blake3 (ss_pages (wd_store w)) h = Some pg \<Longrightarrow> stored_page blake3 ps h = Some pg"
  shows "world_inv blake3 zstd (w\<lparr>wd_store := set_pages ps (wd_store w)\<rparr>) \<and>
    (\<forall>r \<in> wd_acked w. kept blake3 zstd (wd_store w) (set_pages ps (wd_store w)) r)"
proof -
  have "base_inv blake3 (set_pages ps (wd_store w))"
    using inv ps by (simp add: world_inv_def base_inv_def barrier_inv_def)
  then show ?thesis
    using mono_step[OF inv, of "set_pages ps (wd_store w)" "wd_pending w" "{}"] pages inv
    by (simp add: world_inv_def)
qed

lemma finalize_step:
  assumes inv: "world_inv blake3 zstd w" and q: "quiescent w" and ps: "ps = ss_pages (wd_store w)"
    and copied: "\<forall>(h, l) \<in> set copied. loc_pack l \<noteq> p \<and> copied_at blake3 ps h l (the (stored_page blake3 ps h))"
    and cover: "\<forall>h k. index_get (ps_index ps) h = Some k \<and> loc_pack k = p \<longrightarrow>
      h \<in> fst ` set copied \<or> h \<in> fst ` set dead \<and> h \<notin> lv_pages (wd_live w)"
  defines "st' \<equiv> set_pages (finalized p copied (lv_pages (wd_live w)) dead ps) (wd_store w)"
  shows "world_inv blake3 zstd (w\<lparr>wd_store := st'\<rparr>) \<and> (\<forall>r \<in> wd_acked w. kept blake3 zstd (wd_store w) st' r)"
proof -
  have base: "base_inv blake3 (wd_store w)" and closed: "live_closed blake3 zstd (wd_store w) (wd_live w) {}"
    using inv by (simp_all add: world_inv_def)
  then have "store_inv blake3 ps"
    by (simp add: base_inv_def ps)
  from finalized_ok[OF this copied cover] obtain ix where
    ix: "finalized p copied (lv_pages (wd_live w)) dead ps = ps\<lparr>ps_index := ix\<rparr>" "store_inv blake3 (ps\<lparr>ps_index := ix\<rparr>)"
    and st: "\<forall>h. stored_page blake3 (ps\<lparr>ps_index := ix\<rparr>) h =
       (if (\<exists>k. index_get (ps_index ps) h = Some k \<and> loc_pack k = p) \<and> h \<notin> fst ` set copied then None
        else stored_page blake3 ps h)"
    by blast
  have ms: "ss_manifests st' = ss_manifests (wd_store w)"
    by (simp add: st'_def)
  have live: "stored_page blake3 (ss_pages st') h = stored_page blake3 ps h" if "h \<in> lv_pages (wd_live w)" for h
    using that cover st by (auto simp: st'_def ix(1))
  have kept: "kept blake3 zstd (wd_store w) st' r" if r: "r \<in> wd_acked w" for r
  proof (rule keptI[OF acked_live(2)[OF inv q r]])
    show "read_chain MAX_CHAIN blake3 zstd (wd_store w) r = Ok ch \<Longrightarrow> read_chain MAX_CHAIN blake3 zstd st' r = Ok ch" for ch
      using read_chain_cong[OF ms] by simp
    fix ch c m e pg
    assume "read_chain MAX_CHAIN blake3 zstd (wd_store w) r = Ok ch" "(c, m) \<in> set ch" "e \<in> set (m_entries m)"
      "stored_page blake3 (ss_pages (wd_store w)) (page_hash e) = Some pg"
    then show "stored_page blake3 (ss_pages st') (page_hash e) = Some pg"
      using live_chain[OF closed acked_live(1)[OF inv q r], of MAX_CHAIN ch c m] live[of "page_hash e"] by (auto simp: ps)
  qed
  have "live_closed blake3 zstd st' (wd_live w) {}"
    using closed read_manifest_cong[OF ms, of blake3 zstd] by (simp add: live_closed_def)
  moreover have "base_inv blake3 st'"
    using base ix(2) by (simp add: base_inv_def st'_def ix(1) barrier_inv_def dirty_ok_iff flip: ps)
  ultimately show ?thesis
    using inv kept kept_valid[OF kept] by (simp add: world_inv_def) (simp add: st'_def)
qed

lemma sweep_step:
  assumes inv: "world_inv blake3 zstd w" and q: "quiescent w" and dead: "d \<notin> lv_manifests (wd_live w)"
  defines "st' \<equiv> snd (delete_manifest d (wd_store w))"
  shows "world_inv blake3 zstd (w\<lparr>wd_store := st'\<rparr>) \<and> (\<forall>r \<in> wd_acked w. kept blake3 zstd (wd_store w) st' r)"
proof -
  have base: "base_inv blake3 (wd_store w)" and closed: "live_closed blake3 zstd (wd_store w) (wd_live w) {}"
    using inv by (simp_all add: world_inv_def)
  have same: "read_manifest blake3 zstd st' q = read_manifest blake3 zstd (wd_store w) q" if "q \<in> lv_manifests (wd_live w)" for q
    using that dead delete_manifest_read[of q d] by (auto simp: st'_def)
  have pages: "ss_pages st' = ss_pages (wd_store w)"
    by (simp add: st'_def delete_manifest_fields)
  have kept: "kept blake3 zstd (wd_store w) st' r" if r: "r \<in> wd_acked w" for r
    by (rule keptI[OF acked_live(2)[OF inv q r]])
      (use live_read_chain[OF closed acked_live(1)[OF inv q r] same] pages in simp_all)
  have "live_closed blake3 zstd st' (wd_live w) {}"
    using live_closed_mono[OF _ closed] same by simp
  moreover have "base_inv blake3 st'"
    using base by (simp add: base_inv_def st'_def delete_manifest_fields barrier_inv_def)
  ultimately show ?thesis
    using inv kept kept_valid[OF kept] by (simp add: world_inv_def) (simp add: st'_def delete_manifest_fields)
qed

lemma valid_has_manifest:
  assumes "validate_closure blake3 zstd st r = Ok ()"
  shows "has_manifest st r"
proof -
  have "\<exists>m. read_manifest blake3 zstd st r = Ok m" if "read_chain n blake3 zstd st r = Ok ch" for n ch
    using that by (cases n) (auto simp: obind_eq_Ok)
  then obtain m where "read_manifest blake3 zstd st r = Ok m"
    using assms unfolding validate_closure_def validate_chain_iff by blast
  then show ?thesis
    using read_manifest_stored by (fastforce simp: has_manifest_def)
qed

lemma mark_step:
  assumes inv: "world_inv blake3 zstd w"
    and run: "gc_mark blake3 zstd (wd_pending w) \<lparr>cy_store = wd_store w, cy_live = wd_live w, cy_report = rp\<rparr> = (Ok (), cy')"
  shows "world_inv blake3 zstd (w\<lparr>wd_live := cy_live cy', wd_pending := []\<rparr>) \<and>
    (\<forall>r \<in> wd_acked w. kept blake3 zstd (wd_store w) (wd_store w) r)"
proof -
  have "live_closed blake3 zstd (wd_store w) (cy_live cy') {}" "\<forall>r \<in> set (wd_pending w). has_manifest (wd_store w) r \<longrightarrow> r \<in> lv_manifests (cy_live cy')"
    using gc_mark_closed[OF run] inv by (simp_all add: world_inv_def)
  moreover have "live_le (wd_live w) (cy_live cy')"
    using gc_mark_frame[of blake3 zstd "wd_pending w"] run by (metis gc_cycle.select_convs(2) snd_conv)
  moreover have "has_manifest (wd_store w) r" if "r \<in> wd_acked w" for r
    by (rule valid_has_manifest[of blake3 zstd]) (use inv that in \<open>simp add: world_inv_def\<close>)
  moreover have "kept blake3 zstd (wd_store w) (wd_store w) r" if "r \<in> wd_acked w" for r
    by (rule kept_grow) (use inv that in \<open>simp_all add: world_inv_def\<close>)
  ultimately show ?thesis
    using inv by (simp add: world_inv_def live_le_def) blast
qed

lemma gc_copy_records_step:
  fixes cy :: gc_cycle
  assumes "store_inv blake3 (ss_pages (cy_store cy))" "ids_left 1 (ss_pages (cy_store cy))"
    "ps_max_pack_bytes (ss_pages (cy_store cy)) < 2 ^ 44" "records \<noteq> []"
    "\<forall>(h, loc) \<in> set records. index_get (ps_index (ss_pages (cy_store cy))) h = Some loc \<and>
       loc_pack loc \<noteq> ps_pack_id (ss_pages (cy_store cy))"
    "gc_copy_records blake3 crc32 now records cy = (res, cy')"
  shows "\<exists>ps'. cy' = with_pages cy ps' \<and> copy_step blake3 (ss_pages (cy_store cy)) ps'"
  using gc_copy_records_ok[OF assms(1-5), of crc32 now] assms(6) by auto

lemma gc_step_inv:
  assumes inv: "world_inv blake3 zstd w" and step: "gc_step blake3 zstd crc32 w w'"
  shows "world_inv blake3 zstd w' \<and> wd_acked w \<subseteq> wd_acked w' \<and>
    (\<forall>r \<in> wd_acked w. kept blake3 zstd (wd_store w) (wd_store w') r)"
proof -
  have base: "base_inv blake3 (wd_store w)" and pinv: "store_inv blake3 (ss_pages (wd_store w))" "dirty_ok (ss_pages (wd_store w))"
    and ep: "ss_epoch (wd_store w) \<noteq> None" and closed: "live_closed blake3 zstd (wd_store w) (wd_live w) {}"
    using inv by (simp_all add: world_inv_def base_inv_def)
  show ?thesis
    using step
  proof cases
    case (client acked st')
    from client_step_ok[OF base client(2)] ep
    have ok: "client_ok blake3 (wd_store w) st'"
      and new: "\<And>r. r \<in> acked \<Longrightarrow> validate_closure blake3 zstd st' r = Ok () \<and> r \<in> set (the (ss_epoch st'))"
      by simp_all
    have parts: "base_inv blake3 st'" "map_of (ss_manifests (wd_store w)) \<subseteq>\<^sub>m map_of (ss_manifests st')"
      "grows (ss_pages (wd_store w)) (ss_pages st')" "ss_epoch st' \<noteq> None"
      "set (the (ss_epoch (wd_store w))) \<subseteq> set (wd_pending w) \<union> set (the (ss_epoch st'))"
      using ok ep by (auto simp: client_ok_def)
    show ?thesis
      using mono_step[OF inv parts(1,2) grows_stored_page[OF parts(3) pinv(1)] parts(4,5) subset_refl new] client(1) by simp
  next
    case (drain late st')
    then have "st' = (wd_store w)\<lparr>ss_epoch := Some []\<rparr>" "late = the (ss_epoch (wd_store w))"
      using ep by (auto simp: drain_late_roots_def)
    then show ?thesis
      using mono_step[OF inv, of st' "wd_pending w @ late" "{}"] base drain(1)
      by (auto simp: base_inv_def barrier_inv_def)
  next
    case (mark rp cy')
    then show ?thesis
      using mark_step[OF inv mark(2)] by simp
  next
    case (copy records now rp res cy')
    obtain ps' where ps': "cy_store cy' = set_pages ps' (wd_store w)" "copy_step blake3 (ss_pages (wd_store w)) ps'"
      using gc_copy_records_step[OF _ _ _ copy(2) _ copy(6)] pinv(1) copy(3-5) by (auto simp: with_pages_def)
    have "fst ` set (ps_files (ss_pages (wd_store w))) \<subseteq> fst ` set (ps_files ps')"
      using ps'(2) map_le_implies_dom_le[of "map_of (ps_files (ss_pages (wd_store w)))" "map_of (ps_files ps')"]
      by (simp add: copy_step_def grows_def dom_map_of_conv_image_fst)
    then have "dirty_ok ps'"
      using pinv(2) ps'(2) by (simp add: copy_step_def dirty_ok_iff) blast
    moreover have "stored_page blake3 ps' h = Some pg" if "stored_page blake3 (ss_pages (wd_store w)) h = Some pg" for h pg
      using grows_stored_page[OF _ pinv(1) that] ps'(2) by (auto simp: copy_step_def)
    ultimately show ?thesis
      using pages_step[OF inv, of ps'] ps' copy(1) by (simp add: copy_step_def)
  next
    case (finalize ps copied p dead)
    then show ?thesis
      using finalize_step[OF inv finalize(2,3,4,5)] by simp
  next
    case (unlink ps p)
    then show ?thesis
      using pages_step[OF inv, of "unlink_pack p ps"] unlink_pack_ok[OF _ unlink(3,4)] pinv by simp
  next
    case (sweep r)
    then show ?thesis
      using sweep_step[OF inv sweep(2,3)] by simp
  qed
qed

text \<open>The world when the epoch has begun and the roots have been read: the roots whose closure is
  complete count as acknowledged.\<close>

definition gc_start ::
  "(bytes \<Rightarrow> hash32) \<Rightarrow> (bytes \<Rightarrow> bytes option) \<Rightarrow> snapshot_ref list \<Rightarrow> snapshot_store \<Rightarrow> gc_world" where
  "gc_start blake3 zstd roots st =
     \<lparr>wd_store = st\<lparr>ss_epoch := Some []\<rparr>, wd_live = live_empty, wd_pending = roots,
      wd_acked = {r \<in> set roots. validate_closure blake3 zstd st r = Ok ()}\<rparr>"

lemma gc_start_inv:
  assumes "base_inv blake3 st"
  shows "world_inv blake3 zstd (gc_start blake3 zstd roots st)"
  using assms validate_chain_cong[of "st\<lparr>ss_epoch := Some []\<rparr>" st MAX_CHAIN blake3 zstd]
  by (simp add: world_inv_def gc_start_def base_inv_def barrier_inv_def validate_closure_def)

lemma gc_steps_inv:
  assumes "(gc_step blake3 zstd crc32)\<^sup>*\<^sup>* w w'" "world_inv blake3 zstd w"
  shows "world_inv blake3 zstd w' \<and> wd_acked w \<subseteq> wd_acked w' \<and>
    (\<forall>r \<in> wd_acked w. kept blake3 zstd (wd_store w) (wd_store w') r)"
  using assms
proof (induction rule: rtranclp_induct)
  case base
  then show ?case
    using kept_grow[of blake3 zstd "wd_store w" _ "wd_store w"] by (simp add: world_inv_def)
next
  case (step v w')
  then have v: "world_inv blake3 zstd v" "wd_acked w \<subseteq> wd_acked v" "\<forall>r \<in> wd_acked w. kept blake3 zstd (wd_store w) (wd_store v) r"
    by simp_all
  from gc_step_inv[OF v(1) step.hyps(2)] have
    "world_inv blake3 zstd w'" "wd_acked v \<subseteq> wd_acked w'" "\<forall>r \<in> wd_acked v. kept blake3 zstd (wd_store v) (wd_store w') r"
    by simp_all
  then show ?case
    using v(2,3) kept_trans by blast
qed

text \<open>C26: The collector is safe in every interleaving: whatever clients do between its critical
  sections, and wherever it stops, a snapshot that was a complete root when the epoch began, or was
  acknowledged to a client since, can still be walked with the same chain and every page of it
  still has the same bytes.\<close>

theorem gc_interleavings_keep_acknowledged:
  assumes "base_inv blake3 st" "(gc_step blake3 zstd crc32)\<^sup>*\<^sup>* (gc_start blake3 zstd roots st) w"
    "(gc_step blake3 zstd crc32)\<^sup>*\<^sup>* w w'" "r \<in> wd_acked w"
  shows "kept blake3 zstd (wd_store w) (wd_store w') r"
  using gc_steps_inv[OF assms(3)] gc_steps_inv[OF assms(2) gc_start_inv[OF assms(1)]] assms(4) by blast

text \<open>A store with a complete snapshot and a file that is no manifest.\<close>

definition demo_trash :: "(snapshot_ref \<times> bytes) list" where
  "demo_trash = [(SnapshotRef 136, demo_container), (SnapshotRef 5, [])]"

lemma demo_mark:
  "gc_mark len_hash zstd [SnapshotRef 136] \<lparr>cy_store = (snap_with ps demo_trash)\<lparr>ss_epoch := Some []\<rparr>, cy_live = live_empty, cy_report = rp\<rparr> =
     (Ok (), \<lparr>cy_store = (snap_with ps demo_trash)\<lparr>ss_epoch := Some []\<rparr>,
        cy_live = \<lparr>lv_pages = {PageHash 4096}, lv_manifests = {SnapshotRef 136}\<rparr>, cy_report = rp\<rparr>)"
proof -
  have "read_manifest_bytes len_hash ((snap_with ps demo_trash)\<lparr>ss_epoch := Some []\<rparr>) (SnapshotRef 136) = Ok demo_container"
    using demo_container_facts by (simp add: read_manifest_bytes_def snap_with_def demo_trash_def)
  then show ?thesis
    using demo_container_facts(1)
    by (simp add: MAX_CHAIN_def numeral_eq_Suc sbind_def live_empty_def) (simp add: demo_one_def mark_manifest_def)
qed

theorem gc_interleavings_keep_acknowledged_witness:
  "\<exists>ps w. (gc_step len_hash Some (\<lambda>_. 7))\<^sup>*\<^sup>* (gc_start len_hash Some [SnapshotRef 136] (snap_with ps demo_trash)) w \<and>
     map fst (ss_manifests (wd_store w)) = [SnapshotRef 136] \<and>
     kept len_hash Some (wd_store (gc_start len_hash Some [SnapshotRef 136] (snap_with ps demo_trash))) (wd_store w) (SnapshotRef 136)"
proof -
  obtain ps where ps: "store_inv len_hash ps" "dirty_ok ps" "dom (index_get (ps_index ps)) = {PageHash 4096}"
    using demo_synced_pages by blast
  let ?st = "snap_with ps demo_trash" and ?step = "gc_step len_hash Some (\<lambda>_. 7)"
  let ?w = "gc_start len_hash Some [SnapshotRef 136] ?st"
  let ?v = "?w\<lparr>wd_live := \<lparr>lv_pages = {PageHash 4096}, lv_manifests = {SnapshotRef 136}\<rparr>, wd_pending := []\<rparr>"
  have inv: "base_inv len_hash ?st"
    using ps(1,2) by (simp add: base_inv_def demo_trash_def)
  have "validate_closure len_hash Some ?st (SnapshotRef 136) = Ok ()"
    by (rule demo_closed) (use ps(3) in \<open>simp_all add: demo_trash_def\<close>)
  then have acked: "SnapshotRef 136 \<in> wd_acked ?w"
    by (simp add: gc_start_def)
  have "gc_mark len_hash Some (wd_pending ?w) \<lparr>cy_store = wd_store ?w, cy_live = wd_live ?w, cy_report = report_empty\<rparr> =
      (Ok (), \<lparr>cy_store = wd_store ?w, cy_live = wd_live ?v, cy_report = report_empty\<rparr>)"
    using demo_mark[of Some ps report_empty] by (simp add: gc_start_def)
  from gc_step.mark[OF this, of "\<lambda>_. 7"] have "?step ?w ?v"
    by simp
  let ?u = "?v\<lparr>wd_store := snd (delete_manifest (SnapshotRef 5) (wd_store ?v))\<rparr>"
  have "?step ?v ?u"
    by (rule gc_step.sweep) (simp_all add: quiescent_def gc_start_def)
  with \<open>?step ?w ?v\<close> have steps: "?step\<^sup>*\<^sup>* ?w ?u"
    by (meson converse_rtranclp_into_rtranclp rtranclp.rtrancl_refl)
  have "map fst (ss_manifests (wd_store ?u)) = [SnapshotRef 136]"
    by (simp add: gc_start_def delete_manifest_def demo_trash_def)
  then show ?thesis
    using steps gc_interleavings_keep_acknowledged[OF inv rtranclp.rtrancl_refl steps acked]
    by (intro exI[of _ ps] exI[of _ ?u] conjI)
qed

end
