(* ===== verification/Gc_Refine.thy ===== *)
theory Gc_Refine
  imports Gc_Safety
begin

text \<open>
  The functions of the collector, run with any hooks that behave like clients, are sequences of the
  steps of \<^verbatim>\<open>Gc_Safety\<close>.  A triple says of an operation of a cycle: started in a world that the
  invariant holds of, it makes steps to a world with its final store, uses at most so many pack ids,
  and when it returns normally its postcondition holds and nothing is left unmarked.
\<close>

section \<open>Environments\<close>

text \<open>Any number of client operations, one after the other.\<close>

inductive clients ::
  "(bytes \<Rightarrow> hash32) \<Rightarrow> (bytes \<Rightarrow> bytes option) \<Rightarrow> (bytes \<Rightarrow> u32) \<Rightarrow> snapshot_store \<Rightarrow> snapshot_store \<Rightarrow> bool"
  for blake3 zstd crc32 where
  clients_none: "clients blake3 zstd crc32 st st"
| clients_one: "clients blake3 zstd crc32 st st''"
    if "clients blake3 zstd crc32 st st'" "client_step blake3 zstd crc32 st' acked st''"

abbreviation ids_of :: "snapshot_store \<Rightarrow> nat" where
  "ids_of st \<equiv> unat (pack_num (ps_next_pack_id (ss_pages st)))"

text \<open>A change of the store that is made of client operations and uses at most \<open>c\<close> pack ids.\<close>

definition env_ok ::
  "(bytes \<Rightarrow> hash32) \<Rightarrow> (bytes \<Rightarrow> bytes option) \<Rightarrow> (bytes \<Rightarrow> u32) \<Rightarrow> nat \<Rightarrow> store_change \<Rightarrow> bool" where
  "env_ok blake3 zstd crc32 c f \<longleftrightarrow>
     (\<forall>st. base_inv blake3 st \<and> ids_left c (ss_pages st) \<longrightarrow>
        clients blake3 zstd crc32 st (f st) \<and> ids_of (f st) \<le> ids_of st + c)"

definition hooks_ok ::
  "(bytes \<Rightarrow> hash32) \<Rightarrow> (bytes \<Rightarrow> bytes option) \<Rightarrow> (bytes \<Rightarrow> u32) \<Rightarrow> nat \<Rightarrow> gc_hooks \<Rightarrow> bool" where
  "hooks_ok blake3 zstd crc32 c hooks \<longleftrightarrow>
     hk_sabotage hooks = None \<and>
     (\<forall>cb p. hk_at hooks = Some cb \<longrightarrow> env_ok blake3 zstd crc32 c (cb p)) \<and>
     (\<forall>p. \<forall>f \<in> set (hk_round hooks p). env_ok blake3 zstd crc32 c f) \<and>
     (\<forall>n. env_ok blake3 zstd crc32 c (hk_batch hooks n))"

lemma clients_ok:
  assumes "clients blake3 zstd crc32 st st'" "base_inv blake3 st"
  shows "client_ok blake3 st st'"
  using assms
proof induction
  case (clients_one st st' acked st'')
  then have "client_ok blake3 st st'"
    by simp
  moreover from this have "client_ok blake3 st' st''"
    using client_step_ok[of blake3 st'] clients_one.hyps(2) by (auto simp: client_ok_def)
  ultimately show ?case
    using client_ok_trans by blast
qed simp

lemma clients_steps:
  assumes "clients blake3 zstd crc32 (wd_store w) st'"
  shows "\<exists>acked. (gc_step blake3 zstd crc32)\<^sup>*\<^sup>* w (w\<lparr>wd_store := st', wd_acked := acked\<rparr>)"
  using assms
proof (induction "wd_store w" st')
  case clients_none
  then show ?case
    by (metis gc_world.surjective gc_world.update_convs(1,4) old.unit.exhaust rtranclp.rtrancl_refl)
next
  case (clients_one st' acked st'')
  then obtain a where "(gc_step blake3 zstd crc32)\<^sup>*\<^sup>* w (w\<lparr>wd_store := st', wd_acked := a\<rparr>)"
    by blast
  moreover have "gc_step blake3 zstd crc32 (w\<lparr>wd_store := st', wd_acked := a\<rparr>)
      (w\<lparr>wd_store := st', wd_acked := a\<rparr>\<lparr>wd_store := st'', wd_acked := a \<union> acked\<rparr>)"
    using gc_step.client[of blake3 zstd crc32 "w\<lparr>wd_store := st', wd_acked := a\<rparr>" acked st''] clients_one.hyps by simp
  ultimately show ?case
    by (auto dest: rtranclp.rtrancl_into_rtrancl)
qed

lemma gc_steps_cap:
  assumes "(gc_step blake3 zstd crc32)\<^sup>*\<^sup>* w w'" "world_inv blake3 zstd w"
  shows "ps_max_pack_bytes (ss_pages (wd_store w')) = ps_max_pack_bytes (ss_pages (wd_store w))"
  using assms
proof (induction rule: rtranclp_induct)
  case (step v w')
  have v: "base_inv blake3 (wd_store v)"
    using gc_steps_inv[OF step.hyps(1) step.prems] by (simp add: world_inv_def)
  have "ps_max_pack_bytes (ss_pages (wd_store w')) = ps_max_pack_bytes (ss_pages (wd_store v))"
    using step.hyps(2)
  proof cases
    case (client acked st')
    then show ?thesis
      using client_step_ok[OF v] by (fastforce simp: client_ok_def grows_def)
  next
    case (copy records now rp res cy')
    then show ?thesis
      using gc_copy_records_step[OF _ _ _ copy(2) _ copy(6)] v
      by (auto simp: with_pages_def copy_step_def grows_def base_inv_def)
  next
    case (finalize ps copied p dead)
    have "store_inv blake3 ps"
      using v finalize(3) by (simp add: base_inv_def)
    from finalized_ok[OF this finalize(4,5)] show ?thesis
      using finalize(1,3) by auto
  qed (auto simp: drain_late_roots_def unlink_pack_fields delete_manifest_fields split: option.splits)
  then show ?case
    using step by simp
qed simp

section \<open>Triples\<close>

definition synced :: "snapshot_ref list \<Rightarrow> gc_world \<Rightarrow> gc_cycle \<Rightarrow> bool" where
  "synced pending w cy \<longleftrightarrow> wd_store w = cy_store cy \<and> wd_live w = cy_live cy \<and> wd_pending w = pending"

definition triple ::
  "(bytes \<Rightarrow> hash32) \<Rightarrow> (bytes \<Rightarrow> bytes option) \<Rightarrow> (bytes \<Rightarrow> u32) \<Rightarrow> nat \<Rightarrow> snapshot_ref list \<Rightarrow>
     (gc_cycle \<Rightarrow> bool) \<Rightarrow> 'a gc_op \<Rightarrow> ('a \<Rightarrow> gc_cycle \<Rightarrow> bool) \<Rightarrow> bool" where
  "triple blake3 zstd crc32 n pending P f Q \<longleftrightarrow>
     (\<forall>w cy. world_inv blake3 zstd w \<and> synced pending w cy \<and> ids_of (cy_store cy) + n < 2 ^ 32 \<and>
        ps_max_pack_bytes (ss_pages (cy_store cy)) < 2 ^ 44 \<and> P cy \<longrightarrow>
        (\<exists>w'. (gc_step blake3 zstd crc32)\<^sup>*\<^sup>* w w' \<and> wd_store w' = cy_store (snd (f cy)) \<and>
           ids_of (cy_store (snd (f cy))) \<le> ids_of (cy_store cy) + n \<and>
           (\<forall>v. fst (f cy) = Ok v \<longrightarrow> synced [] w' (snd (f cy)) \<and> Q v (snd (f cy)))))"

lemma tripleI:
  assumes "\<And>w cy. world_inv blake3 zstd w \<Longrightarrow> synced pending w cy \<Longrightarrow> base_inv blake3 (cy_store cy) \<Longrightarrow>
      ids_of (cy_store cy) + n < 2 ^ 32 \<Longrightarrow> ps_max_pack_bytes (ss_pages (cy_store cy)) < 2 ^ 44 \<Longrightarrow> P cy \<Longrightarrow>
      \<exists>w'. (gc_step blake3 zstd crc32)\<^sup>*\<^sup>* w w' \<and> wd_store w' = cy_store (snd (f cy)) \<and>
        ids_of (cy_store (snd (f cy))) \<le> ids_of (cy_store cy) + n \<and>
        (\<forall>v. fst (f cy) = Ok v \<longrightarrow> synced [] w' (snd (f cy)) \<and> Q v (snd (f cy)))"
  shows "triple blake3 zstd crc32 n pending P f Q"
proof -
  have "base_inv blake3 (cy_store cy)" if "world_inv blake3 zstd w" "synced pending w cy" for w cy
    using that by (simp add: world_inv_def synced_def)
  then show ?thesis
    unfolding triple_def using assms by blast
qed

lemma tripleD:
  assumes "triple blake3 zstd crc32 n pending P f Q" "world_inv blake3 zstd w" "synced pending w cy"
    "ids_of (cy_store cy) + n < 2 ^ 32" "ps_max_pack_bytes (ss_pages (cy_store cy)) < 2 ^ 44" "P cy"
  shows "\<exists>w'. (gc_step blake3 zstd crc32)\<^sup>*\<^sup>* w w' \<and> wd_store w' = cy_store (snd (f cy)) \<and>
    ids_of (cy_store (snd (f cy))) \<le> ids_of (cy_store cy) + n \<and>
    (\<forall>v. fst (f cy) = Ok v \<longrightarrow> synced [] w' (snd (f cy)) \<and> Q v (snd (f cy)))"
  using assms unfolding triple_def by blast

lemma triple_seq:
  assumes f: "triple blake3 zstd crc32 n pending P f Q" and g: "\<And>v. triple blake3 zstd crc32 m [] (Q v) (g v) R"
  shows "triple blake3 zstd crc32 (n + m) pending P (sbind f g) R"
proof (rule tripleI)
  fix w cy
  assume pre: "world_inv blake3 zstd w" "synced pending w cy" "ids_of (cy_store cy) + (n + m) < 2 ^ 32"
    "ps_max_pack_bytes (ss_pages (cy_store cy)) < 2 ^ 44" "P cy"
  have "ids_of (cy_store cy) + n < 2 ^ 32"
    using pre(3) by simp
  from tripleD[OF f pre(1,2) this pre(4,5)] obtain w' where
    w': "(gc_step blake3 zstd crc32)\<^sup>*\<^sup>* w w'" "wd_store w' = cy_store (snd (f cy))"
    "ids_of (cy_store (snd (f cy))) \<le> ids_of (cy_store cy) + n"
    "\<forall>v. fst (f cy) = Ok v \<longrightarrow> synced [] w' (snd (f cy)) \<and> Q v (snd (f cy))"
    by blast
  have cap: "ps_max_pack_bytes (ss_pages (cy_store (snd (f cy)))) < 2 ^ 44"
    using gc_steps_cap[OF w'(1) pre(1)] pre(2,4) w'(2) by (simp add: synced_def)
  show "\<exists>w'. (gc_step blake3 zstd crc32)\<^sup>*\<^sup>* w w' \<and> wd_store w' = cy_store (snd (sbind f g cy)) \<and>
      ids_of (cy_store (snd (sbind f g cy))) \<le> ids_of (cy_store cy) + (n + m) \<and>
      (\<forall>v. fst (sbind f g cy) = Ok v \<longrightarrow> synced [] w' (snd (sbind f g cy)) \<and> R v (snd (sbind f g cy)))"
  proof (cases "f cy")
    case (Pair res cy')
    show ?thesis
    proof (cases res)
      case (Ok v)
      have inv: "world_inv blake3 zstd w'"
        using gc_steps_inv[OF w'(1) pre(1)] by simp
      have mid: "synced [] w' cy'" "Q v cy'" "ids_of (cy_store cy') + m < 2 ^ 32" "ps_max_pack_bytes (ss_pages (cy_store cy')) < 2 ^ 44"
        using w'(3,4) pre(3) cap Pair Ok by auto
      from tripleD[OF g inv mid(1,3,4,2)] obtain w'' where
        w'': "(gc_step blake3 zstd crc32)\<^sup>*\<^sup>* w' w''" "wd_store w'' = cy_store (snd (g v cy'))"
        "ids_of (cy_store (snd (g v cy'))) \<le> ids_of (cy_store cy') + m"
        "\<forall>u. fst (g v cy') = Ok u \<longrightarrow> synced [] w'' (snd (g v cy')) \<and> R u (snd (g v cy'))"
        by blast
      have "sbind f g cy = g v cy'" "ids_of (cy_store cy') \<le> ids_of (cy_store cy) + n"
        using w'(3) Pair Ok by (simp_all add: sbind_def)
      then show ?thesis
        using rtranclp_trans[OF w'(1) w''(1)] w''(2-4) by (intro exI[of _ w'']) simp
    qed (use w' Pair in \<open>auto simp: sbind_def\<close>)
  qed
qed

lemma triple_post:
  assumes "triple blake3 zstd crc32 n pending P f Q" "\<And>cy. base_inv blake3 (cy_store cy) \<Longrightarrow> P' cy \<Longrightarrow> P cy"
    "\<And>v cy. Q v cy \<Longrightarrow> Q' v cy" "n \<le> n'"
  shows "triple blake3 zstd crc32 n' pending P' f Q'"
proof (rule tripleI)
  fix w cy
  assume base: "base_inv blake3 (cy_store cy)"
    and pre: "world_inv blake3 zstd w" "synced pending w cy" "ids_of (cy_store cy) + n' < 2 ^ 32"
    "ps_max_pack_bytes (ss_pages (cy_store cy)) < 2 ^ 44" "P' cy"
  have "ids_of (cy_store cy) + n < 2 ^ 32"
    using pre(3) assms(4) by linarith
  from tripleD[OF assms(1) pre(1,2) this pre(4) assms(2)[OF base pre(5)]] obtain w' where
    "(gc_step blake3 zstd crc32)\<^sup>*\<^sup>* w w'" "wd_store w' = cy_store (snd (f cy))"
    "ids_of (cy_store (snd (f cy))) \<le> ids_of (cy_store cy) + n"
    "\<forall>v. fst (f cy) = Ok v \<longrightarrow> synced [] w' (snd (f cy)) \<and> Q v (snd (f cy))"
    by blast
  then show "\<exists>w'. (gc_step blake3 zstd crc32)\<^sup>*\<^sup>* w w' \<and> wd_store w' = cy_store (snd (f cy)) \<and>
      ids_of (cy_store (snd (f cy))) \<le> ids_of (cy_store cy) + n' \<and>
      (\<forall>v. fst (f cy) = Ok v \<longrightarrow> synced [] w' (snd (f cy)) \<and> Q' v (snd (f cy)))"
    using assms(3,4) by (intro exI[of _ w']) auto
qed

section \<open>Environment steps\<close>

definition upd :: "(gc_cycle \<Rightarrow> gc_cycle) \<Rightarrow> unit gc_op" where
  "upd g cy = (Ok (), g cy)"

text \<open>What clients cannot invalidate.\<close>

definition stable :: "(bytes \<Rightarrow> hash32) \<Rightarrow> (gc_cycle \<Rightarrow> bool) \<Rightarrow> bool" where
  "stable blake3 P \<longleftrightarrow>
     (\<forall>cy st'. base_inv blake3 (cy_store cy) \<and> client_ok blake3 (cy_store cy) st' \<and> P cy \<longrightarrow> P (cy\<lparr>cy_store := st'\<rparr>))"

lemma triple_upd:
  assumes "\<And>cy. cy_store (g cy) = cy_store cy" "\<And>cy. cy_live (g cy) = cy_live cy" "\<And>cy. P cy \<Longrightarrow> Q () (g cy)"
  shows "triple blake3 zstd crc32 0 [] P (upd g) Q"
  using assms by (intro tripleI) (auto simp: upd_def synced_def)

lemma triple_on_store:
  assumes "env_ok blake3 zstd crc32 c f" "stable blake3 P"
  shows "triple blake3 zstd crc32 c [] P (upd (on_store f)) (\<lambda>_. P)"
proof (rule tripleI)
  fix w cy
  assume pre: "world_inv blake3 zstd w" "synced [] w cy" "base_inv blake3 (cy_store cy)" "ids_of (cy_store cy) + c < 2 ^ 32" "P cy"
  have run: "clients blake3 zstd crc32 (cy_store cy) (f (cy_store cy))" "ids_of (f (cy_store cy)) \<le> ids_of (cy_store cy) + c"
    using assms(1) pre(3,4) by (simp_all add: env_ok_def)
  obtain acked where "(gc_step blake3 zstd crc32)\<^sup>*\<^sup>* w (w\<lparr>wd_store := f (cy_store cy), wd_acked := acked\<rparr>)"
    using clients_steps[of blake3 zstd crc32 w] run(1) pre(2) by (auto simp: synced_def)
  moreover have "P (on_store f cy)"
    using assms(2) pre(3,5) clients_ok[OF run(1) pre(3)] by (simp add: stable_def on_store_def)
  ultimately show "\<exists>w'. (gc_step blake3 zstd crc32)\<^sup>*\<^sup>* w w' \<and> wd_store w' = cy_store (snd (upd (on_store f) cy)) \<and>
      ids_of (cy_store (snd (upd (on_store f) cy))) \<le> ids_of (cy_store cy) + c \<and>
      (\<forall>v. fst (upd (on_store f) cy) = Ok v \<longrightarrow> synced [] w' (snd (upd (on_store f) cy)) \<and> P (snd (upd (on_store f) cy)))"
    using run(2) pre(2)
    by (intro exI[of _ "w\<lparr>wd_store := f (cy_store cy), wd_acked := acked\<rparr>"]) (simp add: upd_def on_store_def synced_def)
qed

lemma triple_fire:
  assumes hooks: "hooks_ok blake3 zstd crc32 c hooks" and st: "stable blake3 P"
  shows "triple blake3 zstd crc32 c [] P (upd (fire hooks p)) (\<lambda>_. P)"
proof (cases "hk_at hooks")
  case None
  then have "triple blake3 zstd crc32 0 [] P (upd (fire hooks p)) (\<lambda>_. P)"
    by (intro triple_upd) (simp_all add: fire_def)
  then show ?thesis
    by (rule triple_post) simp_all
next
  case (Some cb)
  then have "fire hooks p = on_store (cb p)"
    by (simp add: fire_def on_store_def fun_eq_iff)
  then show ?thesis
    using triple_on_store[OF _ st, of zstd crc32 c "cb p"] hooks Some by (simp add: hooks_ok_def)
qed

section \<open>What a sweep relies on\<close>

abbreviation pages_of :: "gc_cycle \<Rightarrow> page_store" where
  "pages_of cy \<equiv> ss_pages (cy_store cy)"

text \<open>Packs whose files are there.\<close>

definition packs_in :: "pack_id set \<Rightarrow> gc_cycle \<Rightarrow> bool" where
  "packs_in S cy \<longleftrightarrow> S \<subseteq> dom (map_of (ps_files (pages_of cy)))"

text \<open>Between the partition of a pack and its finalization: copied records are on disk, every entry of
  the pack is copied or listed as dead.\<close>

definition sweeping ::
  "(bytes \<Rightarrow> hash32) \<Rightarrow> pack_id \<Rightarrow> pack_id set \<Rightarrow> (Snap_Types.page_hash \<times> page_loc) list \<Rightarrow>
     (Snap_Types.page_hash \<times> page_loc) list \<Rightarrow> gc_cycle \<Rightarrow> bool" where
  "sweeping blake3 p S copied dead cy \<longleftrightarrow>
     packs_in (insert p S) cy \<and>
     (\<forall>(h, l) \<in> set copied. loc_pack l \<noteq> p \<and>
        (\<exists>pg. stored_page blake3 (pages_of cy) h = Some pg \<and> copied_at blake3 (pages_of cy) h l pg)) \<and>
     (\<forall>h k. index_get (ps_index (pages_of cy)) h = Some k \<and> loc_pack k = p \<longrightarrow>
        h \<in> fst ` set copied \<union> fst ` set dead) \<and>
     (\<forall>(h, l) \<in> set dead. index_get (ps_index (pages_of cy)) h = Some l \<and> loc_pack l = p)"

text \<open>Dead records that are live have been copied.\<close>

definition settled ::
  "(Snap_Types.page_hash \<times> page_loc) list \<Rightarrow> (Snap_Types.page_hash \<times> page_loc) list \<Rightarrow> gc_cycle \<Rightarrow> bool" where
  "settled copied dead cy \<longleftrightarrow> fst ` set dead \<inter> lv_pages (cy_live cy) \<subseteq> fst ` set copied"

text \<open>Nothing points into the pack any more.\<close>

definition cleared :: "pack_id \<Rightarrow> pack_id set \<Rightarrow> gc_cycle \<Rightarrow> bool" where
  "cleared p S cy \<longleftrightarrow>
     packs_in (insert p S) cy \<and> (\<forall>h l. index_get (ps_index (pages_of cy)) h = Some l \<longrightarrow> loc_pack l \<noteq> p)"

lemma grows_packs_in:
  assumes "grows (pages_of cy) (pages_of cy')" "packs_in S cy"
  shows "packs_in S cy'"
  using assms map_le_implies_dom_le unfolding grows_def packs_in_def by blast

lemma grows_copied_at:
  assumes "grows ps ps'" "copied_at blake3 ps h l pg"
  shows "copied_at blake3 ps' h l pg"
proof -
  obtain c where c: "map_of (ps_files ps) (loc_pack l) = Some c" "page_in blake3 c (unat (loc_offset l)) h pg"
    using assms(2) by (auto simp: copied_at_def)
  moreover have "map_of (ps_files ps') (loc_pack l) = Some c"
    using assms(1) c(1) by (auto simp: grows_def map_le_def dom_def)
  ultimately show ?thesis
    by (auto simp: copied_at_def)
qed

lemma grows_entry:
  assumes "grows ps ps'" "index_get (ps_index ps') h = Some k" "loc_pack k \<in> dom (map_of (ps_files ps))"
  shows "index_get (ps_index ps) h = Some k"
  using assms unfolding grows_def by blast

lemma grows_sweeping:
  assumes g: "grows (pages_of cy) (pages_of cy')" and inv: "store_inv blake3 (pages_of cy)"
    and s: "sweeping blake3 p S copied dead cy"
  shows "sweeping blake3 p S copied dead cy'"
proof -
  have p: "p \<in> dom (map_of (ps_files (pages_of cy)))"
    using s by (simp add: sweeping_def packs_in_def)
  have "index_get (ps_index (pages_of cy)) h = Some k"
    if "index_get (ps_index (pages_of cy')) h = Some k" "loc_pack k = p" for h k
    using grows_entry[OF g that(1)] p that(2) by simp
  moreover have "index_get (ps_index (pages_of cy')) h = Some k" if "index_get (ps_index (pages_of cy)) h = Some k" for h k
    using g that by (simp add: grows_def)
  ultimately show ?thesis
    using s grows_packs_in[OF g] grows_copied_at[OF g] grows_stored_page[OF g inv]
    unfolding sweeping_def by fast
qed

lemma stable_packs_in [simp]: "stable blake3 (packs_in S)"
  using grows_packs_in[where S = S] by (fastforce simp: stable_def client_ok_def)

lemma stable_sweeping [simp]: "stable blake3 (sweeping blake3 p S copied dead)"
proof -
  have "sweeping blake3 p S copied dead (cy\<lparr>cy_store := st'\<rparr>)"
    if "base_inv blake3 (cy_store cy)" "client_ok blake3 (cy_store cy) st'" "sweeping blake3 p S copied dead cy" for cy :: gc_cycle and st'
    by (rule grows_sweeping[OF _ _ that(3)]) (use that in \<open>simp_all add: client_ok_def base_inv_def\<close>)
  then show ?thesis
    unfolding stable_def by blast
qed

lemma stable_settled [simp]: "stable blake3 (settled copied dead)"
  by (simp add: stable_def settled_def)

lemma stable_cleared [simp]: "stable blake3 (cleared p S)"
proof -
  have "cleared p S (cy\<lparr>cy_store := st'\<rparr>)" if "client_ok blake3 (cy_store cy) st'" "cleared p S cy" for cy :: gc_cycle and st'
  proof -
    have g: "grows (pages_of cy) (pages_of (cy\<lparr>cy_store := st'\<rparr>))" and p: "p \<in> dom (map_of (ps_files (pages_of cy)))"
      using that by (simp_all add: client_ok_def cleared_def packs_in_def)
    have "packs_in (insert p S) (cy\<lparr>cy_store := st'\<rparr>)"
      by (rule grows_packs_in[OF g]) (use that(2) in \<open>simp add: cleared_def\<close>)
    moreover have "loc_pack l \<noteq> p" if "index_get (ps_index (pages_of (cy\<lparr>cy_store := st'\<rparr>))) h = Some l" for h l
      using grows_entry[OF g that] p \<open>cleared p S cy\<close> by (auto simp: cleared_def)
    ultimately show ?thesis
      by (simp add: cleared_def)
  qed
  then show ?thesis
    unfolding stable_def by blast
qed

lemma stable_conj [simp]: "stable blake3 P \<Longrightarrow> stable blake3 Q \<Longrightarrow> stable blake3 (\<lambda>cy. P cy \<and> Q cy)"
  by (simp add: stable_def)

section \<open>Triples of the collector's critical sections\<close>

lemma triple_mark:
  assumes "\<And>cy cy'. P cy \<Longrightarrow> cy_store cy' = cy_store cy \<Longrightarrow> P cy'"
  shows "triple blake3 zstd crc32 0 roots P (gc_mark blake3 zstd roots) (\<lambda>_. P)"
proof (rule tripleI)
  fix w cy
  assume pre: "world_inv blake3 zstd w" "synced roots w cy" "P cy"
  obtain res cy' where run: "gc_mark blake3 zstd roots cy = (res, cy')"
    by force
  have st: "cy_store cy' = cy_store cy"
    using gc_mark_frame[of blake3 zstd roots cy] run by simp
  have "cy = \<lparr>cy_store = wd_store w, cy_live = wd_live w, cy_report = cy_report cy\<rparr>" "roots = wd_pending w"
    using pre(2) by (cases cy; simp add: synced_def)+
  then have "gc_step blake3 zstd crc32 w (w\<lparr>wd_live := cy_live cy', wd_pending := []\<rparr>)" if "res = Ok ()"
    using gc_step.mark[of blake3 zstd w "cy_report cy" cy' crc32] run that by simp
  moreover have "wd_store w = cy_store cy"
    using pre(2) by (simp add: synced_def)
  ultimately show "\<exists>w'. (gc_step blake3 zstd crc32)\<^sup>*\<^sup>* w w' \<and> wd_store w' = cy_store (snd (gc_mark blake3 zstd roots cy)) \<and>
      ids_of (cy_store (snd (gc_mark blake3 zstd roots cy))) \<le> ids_of (cy_store cy) + 0 \<and>
      (\<forall>v. fst (gc_mark blake3 zstd roots cy) = Ok v \<longrightarrow>
         synced [] w' (snd (gc_mark blake3 zstd roots cy)) \<and> P (snd (gc_mark blake3 zstd roots cy)))"
    using run st assms[OF pre(3) st]
    by (cases "res = Ok ()") (auto simp: synced_def intro!: exI[of _ "if res = Ok () then w\<lparr>wd_live := cy_live cy', wd_pending := []\<rparr> else w"])
qed

lemma triple_drain:
  assumes sab: "hk_sabotage hooks = None"
    and epoch: "\<And>cy. P cy \<Longrightarrow> Q (cy\<lparr>cy_store := (cy_store cy)\<lparr>ss_epoch := Some []\<rparr>\<rparr>)"
    and rest: "\<And>late. triple blake3 zstd crc32 n late (\<lambda>cy. Q cy \<and> ss_epoch (cy_store cy) = Some []) (g late) R"
  shows "triple blake3 zstd crc32 n [] P (\<lambda>cy. case drain_stragglers hooks cy of (late, cy) \<Rightarrow> g late cy) R"
proof (rule tripleI)
  fix w cy
  assume pre: "world_inv blake3 zstd w" "synced [] w cy" "ids_of (cy_store cy) + n < 2 ^ 32"
    "ps_max_pack_bytes (ss_pages (cy_store cy)) < 2 ^ 44" "P cy"
  obtain late where ep: "ss_epoch (cy_store cy) = Some late"
    using pre(1,2) by (auto simp: world_inv_def synced_def)
  let ?st = "(cy_store cy)\<lparr>ss_epoch := Some []\<rparr>"
  let ?cy = "cy\<lparr>cy_store := ?st\<rparr>" and ?w = "w\<lparr>wd_store := ?st, wd_pending := wd_pending w @ late\<rparr>"
  have d: "drain_stragglers hooks cy = (late, ?cy)"
    using ep sab by (simp add: drain_stragglers_def is_sabotage_def drain_late_roots_def)
  have step: "gc_step blake3 zstd crc32 w ?w"
    by (rule gc_step.drain) (use pre(2) ep in \<open>simp add: synced_def drain_late_roots_def\<close>)
  have inv: "world_inv blake3 zstd ?w"
    using gc_step_inv[OF pre(1) step] by simp
  have sync: "synced late ?w ?cy"
    using pre(2) by (simp add: synced_def)
  have "ids_of (cy_store ?cy) + n < 2 ^ 32" "ps_max_pack_bytes (ss_pages (cy_store ?cy)) < 2 ^ 44"
    "Q ?cy \<and> ss_epoch (cy_store ?cy) = Some []"
    using pre(3,4) epoch[OF pre(5)] by simp_all
  from tripleD[OF rest inv sync this] obtain w' where
    w': "(gc_step blake3 zstd crc32)\<^sup>*\<^sup>* ?w w'" "wd_store w' = cy_store (snd (g late ?cy))"
    "ids_of (cy_store (snd (g late ?cy))) \<le> ids_of (cy_store cy) + n"
    "\<forall>v. fst (g late ?cy) = Ok v \<longrightarrow> synced [] w' (snd (g late ?cy)) \<and> R v (snd (g late ?cy))"
    by auto
  then show "\<exists>w'. (gc_step blake3 zstd crc32)\<^sup>*\<^sup>* w w' \<and>
      wd_store w' = cy_store (snd (case drain_stragglers hooks cy of (late, cy) \<Rightarrow> g late cy)) \<and>
      ids_of (cy_store (snd (case drain_stragglers hooks cy of (late, cy) \<Rightarrow> g late cy))) \<le> ids_of (cy_store cy) + n \<and>
      (\<forall>v. fst (case drain_stragglers hooks cy of (late, cy) \<Rightarrow> g late cy) = Ok v \<longrightarrow>
         synced [] w' (snd (case drain_stragglers hooks cy of (late, cy) \<Rightarrow> g late cy)) \<and>
         R v (snd (case drain_stragglers hooks cy of (late, cy) \<Rightarrow> g late cy)))"
    using converse_rtranclp_into_rtranclp[OF step w'(1)] unfolding d by (intro exI[of _ w']) simp
qed

lemma sweeping_active:
  assumes "sweeping blake3 p S copied dead cy" "base_inv blake3 (cy_store cy)"
  shows "p \<noteq> ps_pack_id (pages_of cy)" "p < ps_next_pack_id (pages_of cy)"
proof -
  have "p \<in> fst ` set (ps_files (pages_of cy))" "files_ok (pages_of cy)"
    using assms by (auto simp: sweeping_def packs_in_def base_inv_def store_inv_def dom_map_of_conv_image_fst)
  then show "p \<noteq> ps_pack_id (pages_of cy)" "p < ps_next_pack_id (pages_of cy)"
    unfolding files_ok_def by blast+
qed

lemma triple_copy:
  assumes ne: "records \<noteq> []" and sub: "set records \<subseteq> set dead"
    and keep: "\<And>cy ps. K cy \<Longrightarrow> K (with_pages cy ps)"
  shows "triple blake3 zstd crc32 1 [] (\<lambda>cy. sweeping blake3 p S copied dead cy \<and> K cy)
    (gc_copy_records blake3 crc32 now records)
    (\<lambda>locs cy. sweeping blake3 p S (copied @ locs) dead cy \<and> K cy \<and> map fst locs = map fst records)"
proof (rule tripleI)
  fix w cy
  assume pre: "world_inv blake3 zstd w" "synced [] w cy" "base_inv blake3 (cy_store cy)" "ids_of (cy_store cy) + 1 < 2 ^ 32"
    "ps_max_pack_bytes (ss_pages (cy_store cy)) < 2 ^ 44" "sweeping blake3 p S copied dead cy \<and> K cy"
  let ?ps = "pages_of cy"
  have sw: "sweeping blake3 p S copied dead cy" and inv: "store_inv blake3 ?ps"
    using pre(3,6) by (simp_all add: base_inv_def)
  have recs: "\<forall>(h, loc) \<in> set records. index_get (ps_index ?ps) h = Some loc \<and> loc_pack loc \<noteq> ps_pack_id ?ps"
    using sw sub sweeping_active(1)[OF sw pre(3)] unfolding sweeping_def by fast
  from gc_copy_records_ok[OF inv pre(4,5) ne recs, of crc32 now] obtain res ps' where
    run: "gc_copy_records blake3 crc32 now records cy = (res, with_pages cy ps')" and step: "copy_step blake3 ?ps ps'"
    and ok: "\<And>locs. res = Ok locs \<Longrightarrow> map fst locs = map fst records \<and> (\<forall>(h, loc) \<in> set locs. loc_pack loc = ps_next_pack_id ?ps \<and>
       copied_at blake3 ps' h loc (the (stored_page blake3 ?ps h)))"
    by (auto split: if_splits)
  have g: "grows ?ps ps'" and "ids_of (cy_store (with_pages cy ps')) \<le> ids_of (cy_store cy) + 1"
    using step unat_pack_next[OF pre(4)] by (simp_all add: copy_step_def with_pages_def)
  moreover have "gc_step blake3 zstd crc32 w (w\<lparr>wd_store := cy_store (with_pages cy ps')\<rparr>)"
  proof -
    have "cy = \<lparr>cy_store = wd_store w, cy_live = wd_live w, cy_report = cy_report cy\<rparr>"
      using pre(2) by (cases cy) (simp add: synced_def)
    then show ?thesis
      using gc_step.copy[of records w blake3 crc32 now "cy_report cy" res "with_pages cy ps'" zstd] ne pre(2,4,5) recs run
      by (simp add: synced_def)
  qed
  moreover have "sweeping blake3 p S (copied @ locs) dead (with_pages cy ps') \<and> map fst locs = map fst records" if "res = Ok locs" for locs
  proof -
    have sw': "sweeping blake3 p S copied dead (with_pages cy ps')"
      by (rule grows_sweeping[OF _ inv sw]) (simp add: g with_pages_def)
    have "loc_pack l \<noteq> p \<and> (\<exists>pg. stored_page blake3 ps' h = Some pg \<and> copied_at blake3 ps' h l pg)" if l: "(h, l) \<in> set locs" for h l
    proof -
      have "set (map fst locs) = set (map fst records)"
        using ok[OF \<open>res = Ok locs\<close>] by simp
      then have "h \<in> fst ` set records"
        using l by force
      then obtain pg where "stored_page blake3 ?ps h = Some pg"
        using recs stored_page_None[of blake3 ?ps h] by (cases "stored_page blake3 ?ps h") auto
      moreover have "loc_pack l = ps_next_pack_id ?ps" "copied_at blake3 ps' h l (the (stored_page blake3 ?ps h))"
        using ok[OF \<open>res = Ok locs\<close>] l by auto
      ultimately show ?thesis
        using grows_stored_page[OF g inv, of h pg] sweeping_active(2)[OF sw pre(3)] by simp
    qed
    then show ?thesis
      using sw' ok[OF that] unfolding sweeping_def by (auto simp: with_pages_def)
  qed
  ultimately show "\<exists>w'. (gc_step blake3 zstd crc32)\<^sup>*\<^sup>* w w' \<and> wd_store w' = cy_store (snd (gc_copy_records blake3 crc32 now records cy)) \<and>
      ids_of (cy_store (snd (gc_copy_records blake3 crc32 now records cy))) \<le> ids_of (cy_store cy) + 1 \<and>
      (\<forall>locs. fst (gc_copy_records blake3 crc32 now records cy) = Ok locs \<longrightarrow>
         synced [] w' (snd (gc_copy_records blake3 crc32 now records cy)) \<and>
         sweeping blake3 p S (copied @ locs) dead (snd (gc_copy_records blake3 crc32 now records cy)) \<and>
         K (snd (gc_copy_records blake3 crc32 now records cy)) \<and> map fst locs = map fst records)"
    unfolding run using pre(2,6) keep
    by (intro exI[of _ "w\<lparr>wd_store := cy_store (with_pages cy ps')\<rparr>"]) (auto simp: synced_def with_pages_def)
qed

lemma triple_finalize:
  assumes sab: "hk_sabotage hooks = None"
  shows "triple blake3 zstd crc32 0 []
    (\<lambda>cy. (sweeping blake3 p S copied dead cy \<and> settled copied dead cy) \<and> ss_epoch (cy_store cy) = Some [])
    (upd (finalize_index hooks p copied dead)) (\<lambda>_. cleared p S)"
proof (rule tripleI)
  fix w cy
  assume pre: "world_inv blake3 zstd w" "synced [] w cy" "base_inv blake3 (cy_store cy)"
    "(sweeping blake3 p S copied dead cy \<and> settled copied dead cy) \<and> ss_epoch (cy_store cy) = Some []"
  let ?ps = "pages_of cy" and ?live = "lv_pages (cy_live cy)"
  let ?fin = "finalized p copied ?live dead ?ps"
  have inv: "store_inv blake3 ?ps"
    using pre(3) by (simp add: base_inv_def)
  have copied: "\<forall>(h, l) \<in> set copied. loc_pack l \<noteq> p \<and> copied_at blake3 ?ps h l (the (stored_page blake3 ?ps h))"
    using pre(4) unfolding sweeping_def by fastforce
  have cover: "\<forall>h k. index_get (ps_index ?ps) h = Some k \<and> loc_pack k = p \<longrightarrow>
      h \<in> fst ` set copied \<or> h \<in> fst ` set dead \<and> h \<notin> ?live"
    using pre(4) unfolding sweeping_def settled_def by blast
  have run: "finalize_index hooks p copied dead cy = cy\<lparr>cy_store := set_pages ?fin (cy_store cy)\<rparr>"
    using sab by (simp add: finalize_index_def is_sabotage_def on_page_state_def on_store_def finalized_def)
  obtain ix where ix: "?fin = ?ps\<lparr>ps_index := ix\<rparr>" "\<forall>h loc. index_get ix h = Some loc \<longrightarrow> loc_pack loc \<noteq> p"
    using finalized_ok[OF inv copied cover] by blast
  have "gc_step blake3 zstd crc32 w (w\<lparr>wd_store := set_pages ?fin (wd_store w)\<rparr>)"
    using gc_step.finalize[of w ?ps copied p blake3 dead zstd crc32] copied cover pre(2,4) by (simp add: synced_def quiescent_def)
  moreover have "cleared p S (finalize_index hooks p copied dead cy)"
    using pre(4) ix by (simp add: run cleared_def packs_in_def sweeping_def)
  ultimately show "\<exists>w'. (gc_step blake3 zstd crc32)\<^sup>*\<^sup>* w w' \<and> wd_store w' = cy_store (snd (upd (finalize_index hooks p copied dead) cy)) \<and>
      ids_of (cy_store (snd (upd (finalize_index hooks p copied dead) cy))) \<le> ids_of (cy_store cy) + 0 \<and>
      (\<forall>v. fst (upd (finalize_index hooks p copied dead) cy) = Ok v \<longrightarrow>
         synced [] w' (snd (upd (finalize_index hooks p copied dead) cy)) \<and>
         cleared p S (snd (upd (finalize_index hooks p copied dead) cy)))"
    using pre(2) ix(1) by (intro exI[of _ "w\<lparr>wd_store := set_pages ?fin (wd_store w)\<rparr>"]) (auto simp: upd_def run synced_def)
qed

lemma triple_unlink:
  assumes "p \<notin> S"
  shows "triple blake3 zstd crc32 0 [] (cleared p S) (upd (on_page_state (unlink_pack p))) (\<lambda>_. packs_in S)"
proof (rule tripleI)
  fix w cy
  assume pre: "world_inv blake3 zstd w" "synced [] w cy" "base_inv blake3 (cy_store cy)" "cleared p S cy"
  have "p \<in> fst ` set (ps_files (pages_of cy))" "files_ok (pages_of cy)"
    using pre(3,4) by (auto simp: cleared_def packs_in_def base_inv_def store_inv_def dom_map_of_conv_image_fst)
  then have "p \<noteq> ps_pack_id (pages_of cy)"
    unfolding files_ok_def by blast
  then have "gc_step blake3 zstd crc32 w (w\<lparr>wd_store := set_pages (unlink_pack p (pages_of cy)) (wd_store w)\<rparr>)"
    using gc_step.unlink[of "pages_of cy" w p blake3 zstd crc32] pre(2,4) by (simp add: synced_def cleared_def)
  then show "\<exists>w'. (gc_step blake3 zstd crc32)\<^sup>*\<^sup>* w w' \<and> wd_store w' = cy_store (snd (upd (on_page_state (unlink_pack p)) cy)) \<and>
      ids_of (cy_store (snd (upd (on_page_state (unlink_pack p)) cy))) \<le> ids_of (cy_store cy) + 0 \<and>
      (\<forall>v. fst (upd (on_page_state (unlink_pack p)) cy) = Ok v \<longrightarrow>
         synced [] w' (snd (upd (on_page_state (unlink_pack p)) cy)) \<and> packs_in S (snd (upd (on_page_state (unlink_pack p)) cy)))"
    using pre(2,4) assms
    by (intro exI[of _ "w\<lparr>wd_store := set_pages (unlink_pack p (pages_of cy)) (wd_store w)\<rparr>"])
      (auto simp: upd_def on_page_state_def on_store_def synced_def unlink_pack_fields packs_in_def cleared_def)
qed

section \<open>Triples of the collector's functions\<close>

lemma triple_return:
  assumes "\<And>cy. P cy \<Longrightarrow> Q v cy"
  shows "triple blake3 zstd crc32 0 [] P (sreturn v) Q"
proof (rule tripleI)
  fix w cy assume "synced [] w cy" "P cy"
  then show "\<exists>w'. (gc_step blake3 zstd crc32)\<^sup>*\<^sup>* w w' \<and> wd_store w' = cy_store (snd (sreturn v cy)) \<and>
      ids_of (cy_store (snd (sreturn v cy))) \<le> ids_of (cy_store cy) + 0 \<and>
      (\<forall>u. fst (sreturn v cy) = Ok u \<longrightarrow> synced [] w' (snd (sreturn v cy)) \<and> Q u (snd (sreturn v cy)))"
    using assms by (intro exI[of _ w]) (auto simp: sreturn_def synced_def)
qed

lemma triple_get:
  assumes "\<And>x. triple blake3 zstd crc32 n pending (\<lambda>cy. P cy \<and> e cy = x) (f x) Q"
  shows "triple blake3 zstd crc32 n pending P (\<lambda>cy. f (e cy) cy) Q"
  using assms unfolding triple_def by blast

lemma triple_straggler_round:
  "triple blake3 zstd crc32 1 late
     (\<lambda>cy. sweeping blake3 p S copied dead cy \<and> ss_epoch (cy_store cy) = Some [])
     (straggler_round blake3 zstd crc32 now late copied dead)
     (\<lambda>copied cy. (sweeping blake3 p S copied dead cy \<and> settled copied dead cy) \<and> ss_epoch (cy_store cy) = Some [])"
    (is "triple blake3 zstd crc32 1 late ?P _ ?Q")
proof -
  define g where "g = (\<lambda>fresh. if fresh \<noteq> []
    then sbind (gc_copy_records blake3 crc32 now fresh) (\<lambda>locs. sreturn (copied @ locs)) else sreturn copied)"
  have "triple blake3 zstd crc32 1 [] (\<lambda>cy. ?P cy \<and> newly_live (cy_live cy) dead copied = fresh) (g fresh) ?Q" for fresh
  proof -
    let ?K = "\<lambda>cy. ss_epoch (cy_store cy) = Some [] \<and> newly_live (cy_live cy) dead copied = fresh"
    consider "fresh = []" | "fresh \<noteq> []" "set fresh \<subseteq> set dead" | "\<And>cy :: gc_cycle. newly_live (cy_live cy) dead copied \<noteq> fresh"
      unfolding newly_live_def by (metis filter_is_subset)
    then show ?thesis
    proof cases
      case 1
      have "triple blake3 zstd crc32 0 [] (\<lambda>cy. ?P cy \<and> newly_live (cy_live cy) dead copied = []) (sreturn copied) ?Q"
        by (rule triple_return) (auto simp: settled_def newly_live_def filter_empty_conv)
      then show ?thesis
        unfolding g_def 1 by simp (erule triple_post; simp)
    next
      case 2
      have "settled (copied @ locs) dead cy" if "?K cy" "map fst locs = map fst fresh" for cy :: gc_cycle and locs :: "(Snap_Types.page_hash \<times> page_loc) list"
      proof -
        have "fst ` set locs = fst ` set fresh"
          using that(2) by (metis list.set_map)
        moreover have "fst ` set dead \<inter> lv_pages (cy_live cy) \<subseteq> fst ` set copied \<union> fst ` set fresh"
          using that(1) by (force simp: newly_live_def)
        ultimately show ?thesis
          by (simp add: settled_def image_Un)
      qed
      then have "triple blake3 zstd crc32 (1 + 0) [] (\<lambda>cy. sweeping blake3 p S copied dead cy \<and> ?K cy)
          (sbind (gc_copy_records blake3 crc32 now fresh) (\<lambda>locs. sreturn (copied @ locs))) ?Q"
        by (intro triple_seq[OF triple_copy[OF 2, where K = ?K]] triple_return) (simp_all add: with_pages_def)
      then show ?thesis
        unfolding g_def if_P[OF 2(1)] by (rule triple_post) auto
    next
      case 3
      then show ?thesis
        by (simp add: triple_def)
    qed
  qed
  then have "triple blake3 zstd crc32 1 [] ?P (\<lambda>cy. g (newly_live (cy_live cy) dead copied) cy) ?Q"
    by (rule triple_get)
  then have "triple blake3 zstd crc32 (0 + 1) late ?P (sbind (gc_mark blake3 zstd late) (\<lambda>_ cy. g (newly_live (cy_live cy) dead copied) cy)) ?Q"
    by (intro triple_seq[OF triple_mark]) (auto simp: sweeping_def packs_in_def)
  moreover have "straggler_round blake3 zstd crc32 now late copied dead =
      sbind (gc_mark blake3 zstd late) (\<lambda>_ cy. g (newly_live (cy_live cy) dead copied) cy)"
    by (simp add: straggler_round_def g_def sreturn_def Let_def fun_eq_iff if_distribR cong: if_cong)
  ultimately show ?thesis
    by simp
qed

end
