(* ===== verification/Gc_Sweep.thy ===== *)
theory Gc_Sweep
  imports Gc_Refine
begin

text \<open>
  The sweeps as wholes: the straggler loop, the finalization of a pack, the sweep of all packs and of
  the manifests, each with any hooks that behave like clients, are sequences of the collector's
  steps; so no interference and no stop makes a sweep lose an acknowledged snapshot.
\<close>

section \<open>One pack\<close>

lemma sweeping_epoch [simp]:
  "sweeping blake3 p S copied dead (cy\<lparr>cy_store := (cy_store cy)\<lparr>ss_epoch := e\<rparr>\<rparr>) = sweeping blake3 p S copied dead cy"
  "settled copied dead (cy\<lparr>cy_store := (cy_store cy)\<lparr>ss_epoch := e\<rparr>\<rparr>) = settled copied dead cy"
  by (simp_all add: sweeping_def packs_in_def settled_def)

lemma straggler_loop_steps:
  assumes "hk_sabotage hooks = None" "\<forall>f \<in> set fs. env_ok blake3 zstd crc32 c f"
  shows "triple blake3 zstd crc32 (length fs * (1 + c) + 1) []
    (\<lambda>cy. sweeping blake3 p S copied dead cy \<and> settled copied dead cy)
    (straggler_loop blake3 zstd crc32 now hooks fs p copied dead) (\<lambda>_. cleared p S)"
  using assms(2)
proof (induction fs arbitrary: copied)
  case Nil
  let ?fin = "\<lambda>copied. upd (finalize_index hooks p copied dead)"
  let ?rest = "\<lambda>late. if late = [] then ?fin copied else sbind (straggler_round blake3 zstd crc32 now late copied dead) ?fin"
  let ?P = "\<lambda>cy. sweeping blake3 p S copied dead cy \<and> settled copied dead cy"
  have rest: "triple blake3 zstd crc32 1 late (\<lambda>cy. ?P cy \<and> ss_epoch (cy_store cy) = Some []) (?rest late) (\<lambda>_. cleared p S)" for late
  proof (cases "late = []")
    case True
    show ?thesis
      unfolding True if_P[OF refl] by (rule triple_post[OF triple_finalize[OF assms(1)]]) auto
  next
    case False
    have "triple blake3 zstd crc32 (1 + 0) late (\<lambda>cy. sweeping blake3 p S copied dead cy \<and> ss_epoch (cy_store cy) = Some [])
        (sbind (straggler_round blake3 zstd crc32 now late copied dead) ?fin) (\<lambda>_. cleared p S)"
      by (rule triple_seq[OF triple_straggler_round triple_finalize[OF assms(1)]])
    then show ?thesis
      unfolding if_not_P[OF False] by (rule triple_post) auto
  qed
  have "triple blake3 zstd crc32 1 [] ?P (\<lambda>cy. case drain_stragglers hooks cy of (late, cy) \<Rightarrow> ?rest late cy) (\<lambda>_. cleared p S)"
    by (rule triple_drain[OF assms(1) _ rest]) simp
  moreover have "straggler_loop blake3 zstd crc32 now hooks [] p copied dead =
      (\<lambda>cy. case drain_stragglers hooks cy of (late, cy) \<Rightarrow> ?rest late cy)"
    by (auto simp: fun_eq_iff upd_def sbind_def split: prod.split outcome.split)
  ultimately show ?case
    by simp
next
  case (Cons f fs)
  let ?n = "length fs * (1 + c) + 1"
  let ?rest = "\<lambda>late. if late = [] then upd (finalize_index hooks p copied dead)
    else sbind (straggler_round blake3 zstd crc32 now late copied dead) (\<lambda>copied. sbind (upd (on_store f))
      (\<lambda>_. straggler_loop blake3 zstd crc32 now hooks fs p copied dead))"
  let ?P = "\<lambda>copied cy. sweeping blake3 p S copied dead cy \<and> settled copied dead cy"
  have rest: "triple blake3 zstd crc32 (1 + (c + ?n)) late (\<lambda>cy. ?P copied cy \<and> ss_epoch (cy_store cy) = Some []) (?rest late) (\<lambda>_. cleared p S)" for late
  proof (cases "late = []")
    case True
    show ?thesis
      unfolding True if_P[OF refl] by (rule triple_post[OF triple_finalize[OF assms(1)]]) auto
  next
    case False
    have "triple blake3 zstd crc32 (c + ?n) [] (?P copied) (sbind (upd (on_store f))
        (\<lambda>_. straggler_loop blake3 zstd crc32 now hooks fs p copied dead)) (\<lambda>_. cleared p S)" for copied
      by (rule triple_seq[OF triple_on_store Cons.IH]) (use Cons.prems in simp_all)
    then have rest: "triple blake3 zstd crc32 (c + ?n) [] (\<lambda>cy. ?P copied cy \<and> ss_epoch (cy_store cy) = Some []) (sbind (upd (on_store f))
        (\<lambda>_. straggler_loop blake3 zstd crc32 now hooks fs p copied dead)) (\<lambda>_. cleared p S)" for copied
      by (rule triple_post) auto
    show ?thesis
      unfolding if_not_P[OF False] by (rule triple_post[OF triple_seq[OF triple_straggler_round rest]]) auto
  qed
  have "triple blake3 zstd crc32 (1 + (c + ?n)) [] (?P copied)
      (\<lambda>cy. case drain_stragglers hooks cy of (late, cy) \<Rightarrow> ?rest late cy) (\<lambda>_. cleared p S)"
    by (rule triple_drain[OF assms(1) _ rest]) simp
  moreover have "straggler_loop blake3 zstd crc32 now hooks (f # fs) p copied dead =
      (\<lambda>cy. case drain_stragglers hooks cy of (late, cy) \<Rightarrow> ?rest late cy)"
    by (auto simp: fun_eq_iff upd_def sbind_def split: prod.split outcome.split)
  ultimately show ?case
    by (simp add: algebra_simps)
qed

lemma finalize_and_unlink_steps:
  assumes hooks: "hooks_ok blake3 zstd crc32 c hooks" and p: "p \<notin> S"
  shows "triple blake3 zstd crc32 (c + (length (hk_round hooks p) * (1 + c) + 1 + (c + (0 + c)))) []
    (\<lambda>cy. sweeping blake3 p S copied dead cy \<and> settled copied dead cy)
    (finalize_and_unlink blake3 zstd crc32 now hooks p copied dead) (\<lambda>_. packs_in S)"
proof -
  have sab: "hk_sabotage hooks = None" "\<forall>f \<in> set (hk_round hooks p). env_ok blake3 zstd crc32 c f"
    using hooks by (simp_all add: hooks_ok_def)
  have "finalize_and_unlink blake3 zstd crc32 now hooks p copied dead =
      sbind (upd (fire hooks (BeforeFinalize p))) (\<lambda>_.
      sbind (straggler_loop blake3 zstd crc32 now hooks (hk_round hooks p) p copied dead) (\<lambda>_.
      sbind (upd (fire hooks (AfterRepoint p))) (\<lambda>_.
      sbind (upd (on_page_state (unlink_pack p))) (\<lambda>_. upd (fire hooks (AfterUnlink p))))))"
    using sab(1) by (auto simp: finalize_and_unlink_def fun_eq_iff sbind_def upd_def is_sabotage_def split: prod.split outcome.split)
  moreover have "triple blake3 zstd crc32 (c + (length (hk_round hooks p) * (1 + c) + 1 + (c + (0 + c)))) []
    (\<lambda>cy. sweeping blake3 p S copied dead cy \<and> settled copied dead cy)
      (sbind (upd (fire hooks (BeforeFinalize p))) (\<lambda>_.
      sbind (straggler_loop blake3 zstd crc32 now hooks (hk_round hooks p) p copied dead) (\<lambda>_.
      sbind (upd (fire hooks (AfterRepoint p))) (\<lambda>_.
      sbind (upd (on_page_state (unlink_pack p))) (\<lambda>_. upd (fire hooks (AfterUnlink p))))))) (\<lambda>_. packs_in S)"
    by (intro triple_seq[OF triple_fire[OF hooks]] triple_seq[OF straggler_loop_steps[OF sab]]
        triple_seq[OF triple_unlink[OF p]] triple_fire[OF hooks]) simp_all
  ultimately show ?thesis
    by simp
qed

lemma triple_slift: "triple blake3 zstd crc32 0 [] P (slift r) (\<lambda>_. P)"
proof (rule tripleI)
  fix w cy assume "synced [] w cy" "P cy"
  then show "\<exists>w'. (gc_step blake3 zstd crc32)\<^sup>*\<^sup>* w w' \<and> wd_store w' = cy_store (snd (slift r cy)) \<and>
      ids_of (cy_store (snd (slift r cy))) \<le> ids_of (cy_store cy) + 0 \<and>
      (\<forall>u. fst (slift r cy) = Ok u \<longrightarrow> synced [] w' (snd (slift r cy)) \<and> P (snd (slift r cy)))"
    by (intro exI[of _ w]) (auto simp: slift_def synced_def)
qed

lemma sweeping_start:
  assumes "base_inv blake3 (cy_store cy)" "packs_in (insert p S) cy" "pack_entries (pages_of cy) p = es"
  shows "sweeping blake3 p S [] es cy"
proof -
  have "(h, l) \<in> set es \<longleftrightarrow> index_get (ps_index (pages_of cy)) h = Some l \<and> loc_pack l = p" for h l
    using assms(1,3) entries_for_pack_iff by (auto simp: pack_entries_def base_inv_def store_inv_def)
  then show ?thesis
    using assms(2) unfolding sweeping_def by force
qed

lemma sweeping_done:
  assumes "sweeping blake3 p S copied es cy" "partition q es = (live, dead)" "fst ` set live \<subseteq> fst ` set copied"
  shows "sweeping blake3 p S copied dead cy"
proof -
  have "set es = set live \<union> set dead"
    using assms(2) by auto
  then show ?thesis
    using assms(1,3) unfolding sweeping_def by (auto 0 4)
qed

text \<open>The sweep of one pack after its scan, in the form the triples use.\<close>

definition compact_pack ::
  "(bytes \<Rightarrow> hash32) \<Rightarrow> (bytes \<Rightarrow> bytes option) \<Rightarrow> (bytes \<Rightarrow> u32) \<Rightarrow> u64 \<Rightarrow> gc_hooks \<Rightarrow> pack_id \<Rightarrow> nat \<Rightarrow>
     (Snap_Types.page_hash \<times> page_loc) list \<Rightarrow> (Snap_Types.page_hash \<times> page_loc) list \<Rightarrow> unit gc_op" where
  "compact_pack blake3 zstd crc32 now hooks p total_records live_recs dead_recs =
     sbind (if live_recs \<noteq> [] then gc_copy_records blake3 crc32 now live_recs else sreturn []) (\<lambda>copied.
     sbind (upd (fire hooks (AfterCopy p))) (\<lambda>_.
     sbind (finalize_and_unlink blake3 zstd crc32 now hooks p copied dead_recs) (\<lambda>_.
     upd (count_report (report_swept total_records (length copied) (length dead_recs))))))"

definition drop_pack ::
  "(bytes \<Rightarrow> hash32) \<Rightarrow> (bytes \<Rightarrow> bytes option) \<Rightarrow> (bytes \<Rightarrow> u32) \<Rightarrow> u64 \<Rightarrow> gc_hooks \<Rightarrow> pack_id \<Rightarrow> unit gc_op" where
  "drop_pack blake3 zstd crc32 now hooks p =
     sbind (finalize_and_unlink blake3 zstd crc32 now hooks p [] []) (\<lambda>_.
     upd (count_report (\<lambda>rp. rp\<lparr>sr_packs_deleted := sr_packs_deleted rp + 1\<rparr>)))"

definition sweep_scanned ::
  "(bytes \<Rightarrow> hash32) \<Rightarrow> (bytes \<Rightarrow> bytes option) \<Rightarrow> (bytes \<Rightarrow> u32) \<Rightarrow> u64 \<Rightarrow> gc_hooks \<Rightarrow> rat \<Rightarrow> pack_id \<Rightarrow>
     (Snap_Types.page_hash \<times> page_loc) list \<Rightarrow> Snap_Types.page_hash set \<Rightarrow> (nat \<times> Snap_Types.page_hash) list \<Rightarrow> unit gc_op" where
  "sweep_scanned blake3 zstd crc32 now hooks thr p es live records =
     (if records = [] \<and> es = [] then drop_pack blake3 zstd crc32 now hooks p
      else case partition (\<lambda>(h, _). h \<in> live) es of (live_recs, dead_recs) \<Rightarrow>
        if thr \<le> liveness (length live_recs) (length records) then sreturn ()
        else compact_pack blake3 zstd crc32 now hooks p (length records) live_recs dead_recs)"

lemma gc_sweep_one_pack_scanned:
  "gc_sweep_one_pack blake3 zstd crc32 now hooks thr p cy =
     sbind (slift (map_err SnPageStore (scan_pack (pages_of cy) p)))
       (sweep_scanned blake3 zstd crc32 now hooks thr p (pack_entries (pages_of cy) p) (lv_pages (cy_live cy))) cy"
  by (auto simp: gc_sweep_one_pack_def sweep_scanned_def drop_pack_def compact_pack_def sbind_def slift_def upd_def
      sreturn_def Let_def split: prod.split outcome.split if_splits)

text \<open>The pack ids one pack may use: the copies of its rounds and the hooks.\<close>

definition pack_cost :: "nat \<Rightarrow> gc_hooks \<Rightarrow> pack_id \<Rightarrow> nat" where
  "pack_cost c hooks p = 1 + (c + ((c + (length (hk_round hooks p) * (1 + c) + 1 + (c + (0 + c)))) + 0))"

lemma compact_pack_steps:
  assumes hooks: "hooks_ok blake3 zstd crc32 c hooks" and p: "p \<notin> S"
    and part: "partition (\<lambda>(h, _). h \<in> live) es = (live_recs, dead_recs)"
  shows "triple blake3 zstd crc32 (pack_cost c hooks p) []
    (\<lambda>cy. sweeping blake3 p S [] es cy \<and> lv_pages (cy_live cy) = live)
    (compact_pack blake3 zstd crc32 now hooks p total_records live_recs dead_recs) (\<lambda>_. packs_in S)"
proof -
  let ?P = "\<lambda>cy. sweeping blake3 p S [] es cy \<and> lv_pages (cy_live cy) = live"
  let ?Q = "\<lambda>copied cy. sweeping blake3 p S copied dead_recs cy \<and> settled copied dead_recs cy"
  have sets: "set es = set live_recs \<union> set dead_recs" "fst ` set dead_recs \<inter> live = {}"
    using part by auto
  have "triple blake3 zstd crc32 1 [] ?P (if live_recs \<noteq> [] then gc_copy_records blake3 crc32 now live_recs else sreturn []) ?Q"
  proof (cases "live_recs = []")
    case True
    have "triple blake3 zstd crc32 0 [] ?P (sreturn []) ?Q"
      by (rule triple_return) (use sweeping_done[OF _ part] True sets(2) in \<open>auto simp: settled_def\<close>)
    then show ?thesis
      using True by (auto intro: triple_post)
  next
    case False
    have "triple blake3 zstd crc32 1 [] ?P (gc_copy_records blake3 crc32 now live_recs) ?Q"
    proof (rule triple_post[OF triple_copy[OF False, of es "\<lambda>cy. lv_pages (cy_live cy) = live"]])
      fix locs cy
      assume *: "sweeping blake3 p S ([] @ locs) es cy \<and> lv_pages (cy_live cy) = live \<and> map fst locs = map fst live_recs"
      then have "fst ` set live_recs = fst ` set locs"
        by (metis list.set_map)
      then show "?Q locs cy"
        using * sweeping_done[OF _ part, of blake3 p S locs cy] sets(2) by (auto simp: settled_def)
    qed (use sets in \<open>auto simp: with_pages_def\<close>)
    then show ?thesis
      using False by simp
  qed
  then show ?thesis
    unfolding pack_cost_def compact_pack_def
    by (rule triple_seq) (intro triple_seq[OF triple_fire[OF hooks]] triple_seq[OF finalize_and_unlink_steps[OF hooks p]]
        triple_upd; simp add: count_report_def packs_in_def)
qed

lemma sweep_scanned_steps:
  assumes hooks: "hooks_ok blake3 zstd crc32 c hooks" and p: "p \<notin> S"
  shows "triple blake3 zstd crc32 (pack_cost c hooks p) []
    (\<lambda>cy. sweeping blake3 p S [] es cy \<and> lv_pages (cy_live cy) = live)
    (sweep_scanned blake3 zstd crc32 now hooks thr p es live records) (\<lambda>_. packs_in S)"
proof -
  let ?P = "\<lambda>cy. sweeping blake3 p S [] es cy \<and> lv_pages (cy_live cy) = live"
  obtain lr dr where part: "partition (\<lambda>(h, _). h \<in> live) es = (lr, dr)"
    by force
  have "triple blake3 zstd crc32 (pack_cost c hooks p) [] ?P (drop_pack blake3 zstd crc32 now hooks p) (\<lambda>_. packs_in S)" if "es = []"
    unfolding drop_pack_def by (rule triple_post[OF triple_seq[OF finalize_and_unlink_steps[OF hooks p] triple_upd]])
      (use that in \<open>auto simp: settled_def count_report_def packs_in_def pack_cost_def\<close>)
  moreover have "triple blake3 zstd crc32 (pack_cost c hooks p) [] ?P (sreturn ()) (\<lambda>_. packs_in S)"
    by (rule triple_post[OF triple_return[where Q = "\<lambda>_. packs_in S" and P = "packs_in S"]]) (auto simp: sweeping_def packs_in_def)
  moreover note compact_pack_steps[OF hooks p part, of now "length records"]
  ultimately show ?thesis
    unfolding sweep_scanned_def part prod.case by presburger
qed

lemma gc_sweep_one_pack_steps:
  assumes hooks: "hooks_ok blake3 zstd crc32 c hooks" and p: "p \<notin> S"
  shows "triple blake3 zstd crc32 (pack_cost c hooks p) [] (packs_in (insert p S))
    (gc_sweep_one_pack blake3 zstd crc32 now hooks thr p) (\<lambda>_. packs_in S)"
proof -
  let ?e = "\<lambda>cy. (pack_entries (pages_of cy) p, scan_pack (pages_of cy) p, lv_pages (cy_live cy))"
  let ?body = "\<lambda>(es, scan, live). sbind (slift (map_err SnPageStore scan)) (sweep_scanned blake3 zstd crc32 now hooks thr p es live)"
  have "triple blake3 zstd crc32 (0 + pack_cost c hooks p) [] (\<lambda>cy. packs_in (insert p S) cy \<and> ?e cy = x) (?body x) (\<lambda>_. packs_in S)" for x
  proof (cases x)
    case (fields es scan live)
    show ?thesis
      unfolding fields prod.case
      by (rule triple_post[OF triple_seq[OF triple_slift sweep_scanned_steps[OF hooks p, of es live]]])
        (auto intro: sweeping_start)
  qed
  then have "triple blake3 zstd crc32 (0 + pack_cost c hooks p) [] (packs_in (insert p S)) (\<lambda>cy. ?body (?e cy) cy) (\<lambda>_. packs_in S)"
    by (rule triple_get)
  then show ?thesis
    by (simp add: gc_sweep_one_pack_scanned[abs_def])
qed

section \<open>All packs\<close>

fun packs_cost :: "nat \<Rightarrow> gc_hooks \<Rightarrow> pack_id list \<Rightarrow> nat" where
  "packs_cost c hooks [] = 0"
| "packs_cost c hooks (p # ps) = c + (pack_cost c hooks p + packs_cost c hooks ps)"

lemma sweep_pack_list_steps:
  assumes hooks: "hooks_ok blake3 zstd crc32 c hooks" and ps: "distinct ps"
  shows "triple blake3 zstd crc32 (packs_cost c hooks ps) [] (packs_in (set ps))
    (sweep_pack_list blake3 zstd crc32 now hooks thr ps) (\<lambda>_ _. True)"
  using ps
proof (induction ps)
  case Nil
  then show ?case
    using triple_return[of "packs_in {}" "\<lambda>_ _. True" "()"] by (simp add: sreturn_def[abs_def])
next
  case (Cons p ps)
  have "triple blake3 zstd crc32 (packs_cost c hooks (p # ps)) [] (packs_in (insert p (set ps)))
      (sbind (upd (fire hooks (BeforePackSweep p))) (\<lambda>_. sbind (gc_sweep_one_pack blake3 zstd crc32 now hooks thr p)
        (\<lambda>_. sweep_pack_list blake3 zstd crc32 now hooks thr ps))) (\<lambda>_ _. True)"
    unfolding packs_cost.simps
    by (intro triple_seq[OF triple_fire[OF hooks]] triple_seq[OF gc_sweep_one_pack_steps[OF hooks]] Cons.IH)
      (use Cons.prems in simp_all)
  moreover have "sweep_pack_list blake3 zstd crc32 now hooks thr (p # ps) =
      sbind (upd (fire hooks (BeforePackSweep p))) (\<lambda>_. sbind (gc_sweep_one_pack blake3 zstd crc32 now hooks thr p)
        (\<lambda>_. sweep_pack_list blake3 zstd crc32 now hooks thr ps))"
    by (simp add: fun_eq_iff sbind_def upd_def)
  ultimately show ?case
    by simp
qed

section \<open>Manifests\<close>

lemma triple_delete_batch:
  "triple blake3 zstd crc32 0 [] (\<lambda>cy. ss_epoch (cy_store cy) = Some []) (upd (delete_batch batch)) (\<lambda>_ cy. ss_epoch (cy_store cy) = Some [])"
proof (induction batch)
  case Nil
  show ?case
    by (rule triple_upd) (simp_all add: delete_batch_def)
next
  case (Cons r batch)
  have one: "triple blake3 zstd crc32 0 [] (\<lambda>cy. ss_epoch (cy_store cy) = Some []) (upd (delete_batch [r])) (\<lambda>_ cy. ss_epoch (cy_store cy) = Some [])"
  proof (rule tripleI)
    fix w cy
    assume pre: "synced [] w cy" "ss_epoch (cy_store cy) = Some []"
    let ?st = "if r \<in> lv_manifests (cy_live cy) then cy_store cy else snd (delete_manifest r (cy_store cy))"
    have run: "cy_store (delete_batch [r] cy) = ?st" "cy_live (delete_batch [r] cy) = cy_live cy"
      by (auto simp: delete_batch_def count_report_def Let_def split: prod.split)
    have eq: "cy_store cy = wd_store w" "cy_live cy = wd_live w" "wd_pending w = []"
      using pre(1) by (simp_all add: synced_def)
    have "(gc_step blake3 zstd crc32)\<^sup>*\<^sup>* w (w\<lparr>wd_store := ?st\<rparr>)"
      using gc_step.sweep[of w r blake3 zstd crc32] pre(2) by (auto simp: eq quiescent_def)
    then show "\<exists>w'. (gc_step blake3 zstd crc32)\<^sup>*\<^sup>* w w' \<and> wd_store w' = cy_store (snd (upd (delete_batch [r]) cy)) \<and>
        ids_of (cy_store (snd (upd (delete_batch [r]) cy))) \<le> ids_of (cy_store cy) + 0 \<and>
        (\<forall>v. fst (upd (delete_batch [r]) cy) = Ok v \<longrightarrow> synced [] w' (snd (upd (delete_batch [r]) cy)) \<and>
           ss_epoch (cy_store (snd (upd (delete_batch [r]) cy))) = Some [])"
      using pre by (intro exI[of _ "w\<lparr>wd_store := ?st\<rparr>"]) (auto simp: upd_def run synced_def delete_manifest_fields)
  qed
  have "upd (delete_batch (r # batch)) = sbind (upd (delete_batch [r])) (\<lambda>_. upd (delete_batch batch))"
    by (simp add: fun_eq_iff upd_def sbind_def delete_batch_def)
  then show ?case
    using triple_seq[OF one Cons.IH] by simp
qed

lemma sweep_batches_steps:
  assumes hooks: "hooks_ok blake3 zstd crc32 c hooks"
  shows "triple blake3 zstd crc32 (length candidates * c) [] (\<lambda>_. True) (sweep_batches blake3 zstd hooks candidates) (\<lambda>_ _. True)"
proof (induction "length candidates" arbitrary: candidates rule: less_induct)
  case less
  have sab: "hk_sabotage hooks = None" "env_ok blake3 zstd crc32 c (hk_batch hooks (length candidates))"
    using hooks by (simp_all add: hooks_ok_def)
  let ?n = "length candidates * c" and ?E = "\<lambda>cy. ss_epoch (cy_store cy) = Some []"
  define batch where "batch = (\<lambda>kept. sbind (upd (delete_batch (take BATCH kept))) (\<lambda>_.
    sbind (upd (on_store (hk_batch hooks (length candidates)))) (\<lambda>_. sweep_batches blake3 zstd hooks (drop BATCH kept))))"
  define keep where "keep = (\<lambda>(late :: snapshot_ref list) live. if late \<noteq> [] then filter (\<lambda>r. r \<notin> live) candidates else candidates)"
  show ?case
  proof (cases "candidates = []")
    case True
    have "sweep_batches blake3 zstd hooks candidates = sreturn ()"
      using True by (simp add: fun_eq_iff sreturn_def sweep_batches.simps)
    then show ?thesis
      using True triple_return[of "\<lambda>_. True" "\<lambda>_ _. True" "()"] by simp
  next
    case False
    have batch: "triple blake3 zstd crc32 ?n [] ?E (batch kept) (\<lambda>_ _. True)" if "length kept \<le> length candidates" for kept
    proof -
      have short: "length (drop BATCH kept) < length candidates"
        using that False by (cases candidates) (auto simp: BATCH_def)
      then have "0 + (c + length (drop BATCH kept) * c) \<le> ?n"
        using mult_le_mono1[of "Suc (length (drop BATCH kept))" "length candidates" c] by simp
      moreover have del: "triple blake3 zstd crc32 0 [] ?E (upd (delete_batch (take BATCH kept))) (\<lambda>_ _. True)"
        by (rule triple_post[OF triple_delete_batch]) simp_all
      ultimately show ?thesis
        unfolding batch_def
        by (intro triple_post[OF triple_seq[OF del triple_seq[OF triple_on_store[OF sab(2)] less[OF short]]]])
          (simp_all add: stable_def)
    qed
    define g where "g = (\<lambda>late. sbind (if late \<noteq> [] then gc_mark blake3 zstd late else sreturn ())
      (\<lambda>_ cy. batch (keep late (lv_manifests (cy_live cy))) cy))"
    have "triple blake3 zstd crc32 (0 + ?n) late (\<lambda>cy. True \<and> ?E cy) (g late) (\<lambda>_ _. True)" for late
    proof -
      have "triple blake3 zstd crc32 0 late (\<lambda>cy. True \<and> ?E cy) (if late \<noteq> [] then gc_mark blake3 zstd late else sreturn ()) (\<lambda>_. ?E)"
      proof (cases "late = []")
        case True
        show ?thesis
          unfolding True by simp (rule triple_return)
      next
        case False
        then show ?thesis
          by simp (rule triple_mark; simp)
      qed
      moreover have "triple blake3 zstd crc32 ?n [] (\<lambda>cy. ?E cy \<and> lv_manifests (cy_live cy) = live) (batch (keep late live)) (\<lambda>_ _. True)" for live
        by (rule triple_post[OF batch]) (simp_all add: keep_def)
      then have "triple blake3 zstd crc32 ?n [] ?E (\<lambda>cy. batch (keep late (lv_manifests (cy_live cy))) cy) (\<lambda>_ _. True)"
        by (rule triple_get)
      ultimately show ?thesis
        unfolding g_def by (rule triple_seq)
    qed
    from triple_drain[OF sab(1) TrueI this, of "\<lambda>_. True"]
    have "triple blake3 zstd crc32 ?n [] (\<lambda>_. True) (\<lambda>cy. case drain_stragglers hooks cy of (late, cy) \<Rightarrow> g late cy) (\<lambda>_ _. True)"
      by simp
    moreover have "sweep_batches blake3 zstd hooks candidates = (\<lambda>cy. case drain_stragglers hooks cy of (late, cy) \<Rightarrow> g late cy)"
      using False by (auto simp: fun_eq_iff sweep_batches.simps[of _ _ _ candidates] g_def batch_def keep_def sbind_def upd_def
          sreturn_def Let_def split: prod.split outcome.split)
    ultimately show ?thesis
      by simp
  qed
qed

section \<open>The phases of a cycle\<close>

lemma triple_det:
  assumes "triple blake3 zstd crc32 n pending P f Q"
  shows "triple blake3 zstd crc32 n pending (\<lambda>cy. P cy \<and> cy = x) f (\<lambda>v cy. Q v cy \<and> f x = (Ok v, cy))"
proof (rule tripleI)
  fix w cy
  assume "world_inv blake3 zstd w" "synced pending w cy" "ids_of (cy_store cy) + n < 2 ^ 32"
    "ps_max_pack_bytes (pages_of cy) < 2 ^ 44" "P cy \<and> cy = x"
  then show "\<exists>w'. (gc_step blake3 zstd crc32)\<^sup>*\<^sup>* w w' \<and> wd_store w' = cy_store (snd (f cy)) \<and>
      ids_of (cy_store (snd (f cy))) \<le> ids_of (cy_store cy) + n \<and>
      (\<forall>v. fst (f cy) = Ok v \<longrightarrow> synced [] w' (snd (f cy)) \<and> Q v (snd (f cy)) \<and> f x = (Ok v, snd (f cy)))"
    using tripleD[OF assms, of w cy] by (metis prod.collapse)
qed

lemma sealed_packs_in:
  assumes "store_inv blake3 ps"
  shows "distinct (filter P (sealed_pack_ids ps))" "set (filter P (sealed_pack_ids ps)) \<subseteq> dom (map_of (ps_files ps))"
proof -
  have "distinct (ps_pack_id ps # map fst (ps_files ps))"
    using assms by (simp add: store_inv_def files_ok_def)
  then have "distinct (discover_packs ps)" "set (discover_packs ps) = insert (ps_pack_id ps) (fst ` set (ps_files ps))"
    unfolding discover_packs_def distinct_sort set_sort by simp_all
  then show "distinct (filter P (sealed_pack_ids ps))" "set (filter P (sealed_pack_ids ps)) \<subseteq> dom (map_of (ps_files ps))"
    by (auto simp: sealed_pack_ids_def dom_map_of_conv_image_fst)
qed

lemma gc_sweep_packs_steps:
  assumes hooks: "hooks_ok blake3 zstd crc32 c hooks"
  shows "triple blake3 zstd crc32 (packs_cost c hooks (filter (\<lambda>p. p < fence) (sealed_pack_ids (pages_of x)))) [] (\<lambda>cy. cy = x)
    (gc_sweep_packs blake3 zstd crc32 now hooks thr fence) (\<lambda>_ cy. cy = snd (gc_sweep_packs blake3 zstd crc32 now hooks thr fence x))"
proof -
  let ?packs = "filter (\<lambda>p. p < fence) (sealed_pack_ids (pages_of x))"
  show ?thesis
  proof (cases "store_inv blake3 (pages_of x)")
    case True
    let ?list = "sweep_pack_list blake3 zstd crc32 now hooks thr ?packs"
    have "triple blake3 zstd crc32 (packs_cost c hooks ?packs) [] (\<lambda>cy. packs_in (set ?packs) cy \<and> cy = x) ?list
        (\<lambda>v cy. True \<and> ?list x = (Ok v, cy))"
      by (rule triple_det[OF sweep_pack_list_steps[OF hooks sealed_packs_in(1)[OF True]]])
    then have "triple blake3 zstd crc32 (packs_cost c hooks ?packs) [] (\<lambda>cy. cy = x) ?list (\<lambda>_ cy. cy = snd (?list x))"
      by (rule triple_post) (use sealed_packs_in(2)[OF True] in \<open>auto simp: packs_in_def\<close>)
    then show ?thesis
      unfolding triple_def by (simp add: gc_sweep_packs_def)
  next
    case False
    then show ?thesis
      by (auto simp: triple_def synced_def world_inv_def base_inv_def)
  qed
qed

lemma gc_sweep_manifests_steps:
  assumes hooks: "hooks_ok blake3 zstd crc32 c hooks"
  shows "triple blake3 zstd crc32 (c + length (ss_manifests (cy_store (fire hooks BeforeManifestSweep x))) * c) [] (\<lambda>cy. cy = x)
    (gc_sweep_manifests blake3 zstd hooks) (\<lambda>_ _. True)"
proof -
  let ?y = "fire hooks BeforeManifestSweep x"
  let ?cs = "filter (\<lambda>r. r \<notin> lv_manifests (cy_live ?y)) (list_manifest_refs (cy_store ?y))"
  have fire: "triple blake3 zstd crc32 c [] (\<lambda>cy. cy = x) (upd (fire hooks BeforeManifestSweep)) (\<lambda>_ cy. cy = ?y)"
    by (rule triple_post[OF triple_det[OF triple_fire[OF hooks, of "\<lambda>_. True"]]]) (auto simp: stable_def upd_def)
  have "length ?cs * c \<le> length (ss_manifests (cy_store ?y)) * c"
    by (intro mult_le_mono1) (simp add: list_manifest_refs_def le_trans[OF length_filter_le])
  then have "triple blake3 zstd crc32 (length (ss_manifests (cy_store ?y)) * c) [] (\<lambda>cy. cy = ?y)
      (sweep_batches blake3 zstd hooks ?cs) (\<lambda>_ _. True)"
    by (intro triple_post[OF sweep_batches_steps[OF hooks]]) simp_all
  note all = triple_seq[OF fire this]
  show ?thesis
    using all unfolding triple_def
    by (simp add: gc_sweep_manifests_def upd_def sbind_def Let_def split: if_splits)
qed

text \<open>Steps 4 and 5 of \<open>run_gc_cycle\<close>: mark, sweep the packs below the fence, sweep the manifests.\<close>

definition mark_and_sweep ::
  "(bytes \<Rightarrow> hash32) \<Rightarrow> (bytes \<Rightarrow> bytes option) \<Rightarrow> (bytes \<Rightarrow> u32) \<Rightarrow> u64 \<Rightarrow> gc_hooks \<Rightarrow> rat \<Rightarrow> pack_id \<Rightarrow> snapshot_ref list \<Rightarrow>
     unit gc_op" where
  "mark_and_sweep blake3 zstd crc32 now hooks thr fence_pack roots cy =
     sbind (gc_mark blake3 zstd roots) (\<lambda>_.
     sbind (gc_sweep_packs blake3 zstd crc32 now hooks thr fence_pack) (\<lambda>_.
     gc_sweep_manifests blake3 zstd hooks)) (fire hooks BeforeMark cy)"

text \<open>The pack ids the phases may use, when a hook uses at most \<open>c\<close>.\<close>

definition cycle_cost ::
  "(bytes \<Rightarrow> hash32) \<Rightarrow> (bytes \<Rightarrow> bytes option) \<Rightarrow> (bytes \<Rightarrow> u32) \<Rightarrow> u64 \<Rightarrow> gc_hooks \<Rightarrow> rat \<Rightarrow> pack_id \<Rightarrow> snapshot_ref list \<Rightarrow>
     nat \<Rightarrow> gc_cycle \<Rightarrow> nat" where
  "cycle_cost blake3 zstd crc32 now hooks thr fence_pack roots c cy =
     (let marked = snd (gc_mark blake3 zstd roots (fire hooks BeforeMark cy));
          swept = snd (gc_sweep_packs blake3 zstd crc32 now hooks thr fence_pack marked)
      in c + (0 + (packs_cost c hooks (filter (\<lambda>p. p < fence_pack) (sealed_pack_ids (pages_of marked))) +
           (c + length (ss_manifests (cy_store (fire hooks BeforeManifestSweep swept))) * c))))"

lemma fire_steps:
  assumes hooks: "hooks_ok blake3 zstd crc32 c hooks" and base: "base_inv blake3 (cy_store cy)"
    and ids: "ids_of (cy_store cy) + c < 2 ^ 32" and sync: "synced pending w cy"
  shows "\<exists>w'. (gc_step blake3 zstd crc32)\<^sup>*\<^sup>* w w' \<and> synced pending w' (fire hooks p cy) \<and>
    ids_of (cy_store (fire hooks p cy)) \<le> ids_of (cy_store cy) + c"
proof (cases "hk_at hooks")
  case None
  then show ?thesis
    using sync by (auto simp: fire_def)
next
  case (Some cb)
  have run: "clients blake3 zstd crc32 (wd_store w) (cb p (cy_store cy))" "ids_of (cb p (cy_store cy)) \<le> ids_of (cy_store cy) + c"
    using hooks Some base ids sync by (simp_all add: hooks_ok_def env_ok_def synced_def)
  obtain acked where "(gc_step blake3 zstd crc32)\<^sup>*\<^sup>* w (w\<lparr>wd_store := cb p (cy_store cy), wd_acked := acked\<rparr>)"
    using clients_steps[OF run(1)] by blast
  then show ?thesis
    using Some run(2) sync by (intro exI[of _ "w\<lparr>wd_store := cb p (cy_store cy), wd_acked := acked\<rparr>"]) (simp add: fire_def synced_def)
qed

lemma mark_and_sweep_steps:
  assumes hooks: "hooks_ok blake3 zstd crc32 c hooks" and inv: "world_inv blake3 zstd w" and sync: "synced roots w cy"
    and ids: "ids_of (cy_store cy) + cycle_cost blake3 zstd crc32 now hooks thr fence roots c cy < 2 ^ 32"
    and cap: "ps_max_pack_bytes (pages_of cy) < 2 ^ 44"
  shows "\<exists>w'. (gc_step blake3 zstd crc32)\<^sup>*\<^sup>* w w' \<and> wd_store w' = cy_store (snd (mark_and_sweep blake3 zstd crc32 now hooks thr fence roots cy))"
proof -
  let ?cy1 = "fire hooks BeforeMark cy"
  let ?cy2 = "snd (gc_mark blake3 zstd roots ?cy1)"
  let ?cy3 = "snd (gc_sweep_packs blake3 zstd crc32 now hooks thr fence ?cy2)"
  let ?n = "packs_cost c hooks (filter (\<lambda>p. p < fence) (sealed_pack_ids (pages_of ?cy2)))"
  let ?m = "c + length (ss_manifests (cy_store (fire hooks BeforeManifestSweep ?cy3))) * c"
  let ?rest = "sbind (gc_mark blake3 zstd roots) (\<lambda>_. sbind (gc_sweep_packs blake3 zstd crc32 now hooks thr fence) (\<lambda>_. gc_sweep_manifests blake3 zstd hooks))"
  have cost: "ids_of (cy_store cy) + (c + (0 + (?n + ?m))) < 2 ^ 32"
    using ids by (simp add: cycle_cost_def Let_def)
  have "base_inv blake3 (cy_store cy)"
    using inv sync by (simp add: world_inv_def synced_def)
  then obtain w1 where w1: "(gc_step blake3 zstd crc32)\<^sup>*\<^sup>* w w1" "synced roots w1 ?cy1" "ids_of (cy_store ?cy1) \<le> ids_of (cy_store cy) + c"
    using fire_steps[OF hooks _ _ sync, of BeforeMark] cost by auto
  have inv1: "world_inv blake3 zstd w1" and cap1: "ps_max_pack_bytes (pages_of ?cy1) < 2 ^ 44"
    using gc_steps_inv[OF w1(1) inv] gc_steps_cap[OF w1(1) inv] w1(2) sync cap by (simp_all add: synced_def)
  have "triple blake3 zstd crc32 0 roots (\<lambda>cy. cy = ?cy1) (gc_mark blake3 zstd roots) (\<lambda>_ cy. cy = ?cy2)"
    by (rule triple_post[OF triple_det[OF triple_mark[of "\<lambda>_. True"]]]) auto
  from triple_seq[OF this triple_seq[OF gc_sweep_packs_steps[OF hooks] gc_sweep_manifests_steps[OF hooks]]]
  have all: "triple blake3 zstd crc32 (0 + (?n + ?m)) roots (\<lambda>cy. cy = ?cy1) ?rest (\<lambda>_ _. True)" .
  have "ids_of (cy_store ?cy1) + (0 + (?n + ?m)) < 2 ^ 32"
    using w1(3) cost by linarith
  from tripleD[OF all inv1 w1(2) this cap1] obtain w' where
    "(gc_step blake3 zstd crc32)\<^sup>*\<^sup>* w1 w'" "wd_store w' = cy_store (snd (?rest ?cy1))"
    by blast
  then show ?thesis
    using rtranclp_trans[OF w1(1)] by (auto simp: mark_and_sweep_def)
qed

text \<open>C27: The collector's functions implement its step relation, with clients running at every hook,
  between straggler rounds and between batches: marking and both sweeps, wherever they stop with an
  error, only make steps of the relation.  So the roots that were complete when the epoch began keep
  their chains and the bytes of all their pages through a whole collection.\<close>

theorem mark_and_sweep_refines_steps:
  assumes hooks: "hooks_ok blake3 zstd crc32 c hooks" and inv: "base_inv blake3 st" and epoch: "ss_epoch st = Some []"
    and ids: "ids_of st + cycle_cost blake3 zstd crc32 now hooks thr fence roots c
        \<lparr>cy_store = st, cy_live = live_empty, cy_report = report_empty\<rparr> < 2 ^ 32"
    and cap: "ps_max_pack_bytes (ss_pages st) < 2 ^ 44"
    and run: "mark_and_sweep blake3 zstd crc32 now hooks thr fence roots
        \<lparr>cy_store = st, cy_live = live_empty, cy_report = report_empty\<rparr> = (res, cy')"
  shows "(\<exists>w'. (gc_step blake3 zstd crc32)\<^sup>*\<^sup>* (gc_start blake3 zstd roots st) w' \<and> wd_store w' = cy_store cy') \<and>
    (\<forall>r \<in> set roots. validate_closure blake3 zstd st r = Ok () \<longrightarrow> kept blake3 zstd st (cy_store cy') r)"
proof -
  let ?cy = "\<lparr>cy_store = st, cy_live = live_empty, cy_report = report_empty\<rparr>" and ?w = "gc_start blake3 zstd roots st"
  have st: "st\<lparr>ss_epoch := Some []\<rparr> = st"
    using epoch by simp
  have "synced roots ?w ?cy"
    unfolding synced_def gc_start_def st by simp
  with mark_and_sweep_steps[OF hooks gc_start_inv[OF inv] this, where now = now and thr = thr and fence = fence] ids cap run
  obtain w' where w': "(gc_step blake3 zstd crc32)\<^sup>*\<^sup>* ?w w'" "wd_store w' = cy_store cy'"
    by auto
  then show ?thesis
    using gc_steps_inv[OF w'(1) gc_start_inv[OF inv]] unfolding gc_start_def st by auto
qed

text \<open>A collection of a store with one snapshot and one file that is no manifest, with a reader at every
  hook.\<close>

definition demo_hooks :: gc_hooks where
  "demo_hooks = hooks_none\<lparr>hk_at := Some (\<lambda>_ st. snd (resolve_pages len_hash Some (SnapshotRef 136) None True st))\<rparr>"

lemma resolve_pages_frame [simp]:
  "ss_pages (snd (resolve_pages blake3 zstd r b h st)) = ss_pages st"
  "ss_epoch (snd (resolve_pages blake3 zstd r b h st)) = ss_epoch st"
  by (simp_all add: resolve_pages_def flatten_chain_def sbind_def sreturn_def Let_def
      split: option.splits outcome.splits prod.splits)

lemma demo_hooks_ok: "hooks_ok len_hash Some crc32 0 demo_hooks"
proof -
  have "clients len_hash Some crc32 st (snd (resolve_pages len_hash Some (SnapshotRef 136) None True st))" for st
    by (rule clients_one[OF clients_none resolve_step]) (rule surjective_pairing)
  then show ?thesis
    by (auto simp: hooks_ok_def env_ok_def demo_hooks_def hooks_none_def intro: clients_none)
qed

lemma demo_capped_pages:
  "\<exists>ps. store_inv len_hash ps \<and> dirty_ok ps \<and> dom (index_get (ps_index ps)) = {PageHash 4096} \<and> ps_max_pack_bytes ps = 10000"
proof -
  obtain st where st: "store_inv len_hash st" "dom (index_get (ps_index st)) = {}" "room_for 2 st"
    "open_store len_hash (\<lambda>_. 7) 0 demo_opts [] [] = Ok st"
    using demo_store by blast
  then have "room_for (length [zero_page]) st"
    by (simp add: room_for_def)
  then obtain outs ps where ps: "ingest len_hash (\<lambda>_. 7) id 0 [zero_page] st = (Ok outs, ps)"
    "store_inv len_hash ps" "ingest_done len_hash [zero_page] st ps outs" "grows st ps"
    using ingest_ok[OF st(1), of "[zero_page]" id "\<lambda>_. 7" 0] by (auto simp: zero_page_def)
  have "dirty_ok ps"
    using ingest_dirty_ok[OF open_store_dirty_ok[OF st(4)]] ps(1) by (metis snd_conv)
  moreover have "ps_max_pack_bytes st = 10000"
    using st(4) by (auto simp: open_store_def Let_def obind_eq_Ok split: prod.splits)
  ultimately show ?thesis
    using ps st(2) by (auto simp: ingest_done_def grows_def len_hash_def zero_page_def PAGE_SIZE_def)
qed

theorem mark_and_sweep_refines_steps_witness:
  "\<exists>ps res cy'. mark_and_sweep len_hash Some (\<lambda>_. 7) 0 demo_hooks (1 / 2) (PackId 0) [SnapshotRef 136]
       \<lparr>cy_store = (snap_with ps demo_trash)\<lparr>ss_epoch := Some []\<rparr>, cy_live = live_empty, cy_report = report_empty\<rparr> = (res, cy') \<and>
     kept len_hash Some ((snap_with ps demo_trash)\<lparr>ss_epoch := Some []\<rparr>) (cy_store cy') (SnapshotRef 136)"
proof -
  obtain ps where ps: "store_inv len_hash ps" "dirty_ok ps" "dom (index_get (ps_index ps)) = {PageHash 4096}" "ps_max_pack_bytes ps = 10000"
    using demo_capped_pages by blast
  let ?st = "(snap_with ps demo_trash)\<lparr>ss_epoch := Some []\<rparr>"
  let ?cy = "\<lparr>cy_store = ?st, cy_live = live_empty, cy_report = report_empty\<rparr>"
  have inv: "base_inv len_hash ?st"
    using ps(1,2) by (simp add: base_inv_def barrier_inv_def demo_trash_def snap_with_def group_commit_new_def)
  have "filter (\<lambda>p. p < PackId 0) (sealed_pack_ids (pages_of cy)) = []" for cy :: gc_cycle
    by (auto simp: filter_empty_conv less_pack_id_def)
  then have ids: "ids_of ?st + cycle_cost len_hash Some (\<lambda>_. 7) 0 demo_hooks (1 / 2) (PackId 0) [SnapshotRef 136] 0 ?cy < 2 ^ 32"
    using unsigned_less[of "pack_num (ps_next_pack_id ps)"] by (simp add: cycle_cost_def Let_def)
  have "validate_closure len_hash Some (snap_with ps demo_trash) (SnapshotRef 136) = Ok ()"
    by (rule demo_closed) (use ps(3) in \<open>simp_all add: demo_trash_def\<close>)
  then have v: "validate_closure len_hash Some ?st (SnapshotRef 136) = Ok ()"
    using validate_chain_cong[of ?st "snap_with ps demo_trash"] by (simp add: validate_closure_def)
  obtain res cy' where run: "mark_and_sweep len_hash Some (\<lambda>_. 7) 0 demo_hooks (1 / 2) (PackId 0) [SnapshotRef 136] ?cy = (res, cy')"
    by force
  show ?thesis
    using mark_and_sweep_refines_steps[OF demo_hooks_ok inv _ ids _ run] ps(4) v run by auto
qed

end
