(* ===== verification/Snapshot_Counters.thy ===== *)
theory Snapshot_Counters
  imports Snapshot_Commit
begin

text \<open>
  The counters the snapshot store maintains (\<open>manifests_total\<close>, \<open>logical_page_bytes\<close>) against
  the walk that recomputes them when the store is opened, and two limits of the commit path: files
  the counters never saw, and chains deeper than a read accepts.
\<close>

section \<open>The memory size in a header\<close>

definition header_ram :: "bytes \<Rightarrow> nat" where
  "header_ram bs = (case read_guest_ram_bytes bs of Some n \<Rightarrow> unat n | None \<Rightarrow> 0)"

definition ram_sum :: "(snapshot_ref \<times> bytes) list \<Rightarrow> nat" where
  "ram_sum ms = sum_list (map (\<lambda>(r, bs). header_ram bs) ms)"

lemma encoded_ram: "read_guest_ram_bytes (encode blake3 m) = Some (m_guest_ram_bytes m)"
proof -
  obtain pre rest where e: "encode blake3 m = MAGIC @ pre @ to_le_bytes 8 (m_guest_ram_bytes m) @ rest"
    "length pre = 40"
  proof (rule that)
    show "encode blake3 m = MAGIC @
        (to_le_bytes 2 VERSION @ to_le_bytes 2 (encode_flags (m_delta m) (blob_zstd (m_device_blob m))) @
         to_le_bytes 4 HEADER_LEN @ (case m_parent m of Some r \<Rightarrow> snapshot_ref_to_bytes r
           | None \<Rightarrow> to_le_bytes 32 (0 :: hash32))) @
        to_le_bytes 8 (m_guest_ram_bytes m) @ drop 56 (encode blake3 m)"
      by (simp add: encode_def encode_body_def encode_header_def Let_def MAGIC_def split: option.split)
  qed (simp split: option.split)
  have "length MAGIC = 8"
    by (simp add: MAGIC_def)
  then show ?thesis
    by (simp add: read_guest_ram_bytes_def e le_codec)
qed

lemma intact_header:
  assumes "intact blake3 zstd st" "map_of (ss_manifests st) r = Some bs"
  shows "read_guest_ram_bytes bs \<noteq> None"
  using intact_read[OF assms] decode_Ok(1) encoded_ram by fastforce

section \<open>The counters\<close>

definition counters_ok :: "snapshot_store \<Rightarrow> bool" where
  "counters_ok st \<longleftrightarrow>
     distinct (map fst (ss_manifests st)) \<and>
     list_all (\<lambda>(r, bs). read_guest_ram_bytes bs \<noteq> None) (ss_manifests st) \<and>
     ram_sum (ss_manifests st) < 2 ^ 64 \<and>
     ss_manifests_total st = of_nat (length (ss_manifests st)) \<and>
     ss_logical_page_bytes st = of_nat (ram_sum (ss_manifests st))"

lemma walk_counts:
  assumes "list_all (\<lambda>(r, bs). read_guest_ram_bytes bs \<noteq> None) ms" "k + ram_sum ms < 2 ^ 64"
  shows "walk_manifest_counters ms n (of_nat k) = (n + of_nat (length ms), of_nat (k + ram_sum ms))"
  using assms
proof (induction ms arbitrary: n k)
  case (Cons m ms)
  obtain r bs where m: "m = (r, bs)" by (cases m)
  obtain g where g: "read_guest_ram_bytes bs = Some g"
    using Cons.prems(1) by (auto simp: m)
  have sum1: "ram_sum (m # ms) = unat g + ram_sum ms"
    by (simp add: ram_sum_def m header_ram_def g)
  then have "k + unat g < 2 ^ 64"
    using Cons.prems(2) by simp
  then have "saturating_add (of_nat k) g = of_nat (k + unat g)"
    by (simp add: saturating_add_def unat_of_nat take_bit_nat_eq_self)
  moreover have "walk_manifest_counters ms (n + 1) (of_nat (k + unat g)) =
      (n + 1 + of_nat (length ms), of_nat (k + unat g + ram_sum ms))"
    using Cons.IH[of "k + unat g" "n + 1"] Cons.prems by (simp add: sum1)
  ultimately show ?case
    by (simp add: m g sum1[unfolded m] ac_simps)
qed (simp add: ram_sum_def)

lemma ram_sum_delete:
  assumes "distinct (map fst ms)" "map_of ms r = Some bs"
  shows "ram_sum ms = header_ram bs + ram_sum (AList.delete r ms)"
    "length ms = Suc (length (AList.delete r ms))"
proof -
  obtain as cs where ms: "ms = as @ (r, bs) # cs"
    using map_of_SomeD[OF assms(2)] by (auto simp: in_set_conv_decomp)
  have "AList.delete r as = as" "AList.delete r cs = cs"
    using assms(1) by (auto simp: ms intro!: delete_idem)
  then have "AList.delete r ms = as @ cs"
    by (simp add: ms AList.delete_eq)
  then show "ram_sum ms = header_ram bs + ram_sum (AList.delete r ms)"
    "length ms = Suc (length (AList.delete r ms))"
    by (simp_all add: ms ram_sum_def)
qed

lemma delete_counters:
  assumes "counters_ok st"
  shows "counters_ok (snd (delete_manifest r st))"
proof (cases "map_of (ss_manifests st) r")
  case (Some bs)
  let ?ms = "AList.delete r (ss_manifests st)"
  have c: "distinct (map fst (ss_manifests st))" "ram_sum (ss_manifests st) < 2 ^ 64"
    "list_all (\<lambda>(r, bs). read_guest_ram_bytes bs \<noteq> None) (ss_manifests st)"
    using assms by (simp_all add: counters_ok_def)
  note d = ram_sum_delete[OF c(1) Some]
  obtain g where g: "read_guest_ram_bytes bs = Some g"
    using c(3) map_of_SomeD[OF Some] by (fastforce simp: list_all_iff)
  have "unat (of_nat (ram_sum (ss_manifests st)) :: u64) = ram_sum (ss_manifests st)"
    using c(2) by (simp add: unat_of_nat take_bit_nat_eq_self)
  then have "g \<le> of_nat (ram_sum (ss_manifests st))"
    using d(1) g by (simp add: word_le_nat_alt header_ram_def)
  then have "saturating_sub (of_nat (ram_sum (ss_manifests st))) g = of_nat (ram_sum ?ms)"
    using d(1) g by (simp add: saturating_sub_def header_ram_def)
  moreover have "of_nat (length (ss_manifests st)) - 1 = (of_nat (length ?ms) :: u64)"
    by (simp add: d(2))
  moreover have "distinct (map fst ?ms)"
    using c(1) by (rule distinct_delete)
  moreover have "list_all (\<lambda>(r, bs). read_guest_ram_bytes bs \<noteq> None) ?ms"
    using c(3) by (simp add: list_all_iff AList.delete_eq)
  ultimately show ?thesis
    using assms Some g c(2) d by (simp add: counters_ok_def delete_manifest_def Let_def)
qed (use assms in \<open>simp add: delete_manifest_def\<close>)

lemma published_counters:
  assumes c: "counters_ok st" and new: "map_of (ss_manifests st) r = None"
    and g: "read_guest_ram_bytes bs = Some g" and fits: "ram_sum (ss_manifests (published r bs g st)) < 2 ^ 64"
  shows "counters_ok (published r bs g st)"
proof -
  have "ss_manifests (published r bs g st) = ss_manifests st @ [(r, bs)]"
    using new by (simp add: published_def count_manifest_def update_absent map_of_eq_None_iff)
  moreover from this have "ram_sum (ss_manifests (published r bs g st)) = ram_sum (ss_manifests st) + unat g"
    by (simp add: ram_sum_def header_ram_def g)
  ultimately show ?thesis
    using c fits g new by (simp add: counters_ok_def published_def count_manifest_def map_of_eq_None_iff)
qed

section \<open>Chains of any depth\<close>

text \<open>Delta \<open>k\<close> of a chain, told apart by the length of its device blob.\<close>

definition deep :: "nat \<Rightarrow> manifest" where
  "deep k = (if k = 0 then demo_one else demo_one\<lparr>m_delta := True,
     m_parent := Some (SnapshotRef (of_nat (135 + k))),
     m_device_blob := \<lparr>blob_format = 1, blob_zstd = False, blob_bytes = replicate k 7, blob_raw_len = of_nat k\<rparr>\<rparr>)"

abbreviation deep_ref :: "nat \<Rightarrow> snapshot_ref" where
  "deep_ref k \<equiv> SnapshotRef (of_nat (136 + k))"

definition deep_store :: "nat \<Rightarrow> (snapshot_ref \<times> bytes) list" where
  "deep_store n = map (\<lambda>k. (deep_ref k, encode len_hash (deep k))) [0..<n]"

lemma deep_body: "length (encode_body (deep k)) = 136 + k"
  by (simp add: encode_body_def deep_def demo_one_def)

lemma of_nat_256:
  "i < 2 ^ 64 \<Longrightarrow> j < 2 ^ 64 \<Longrightarrow> (of_nat i :: hash32) = of_nat j \<longleftrightarrow> i = j"
  by (simp add: word_of_nat_eq_iff take_bit_nat_eq_self)

lemma deep_facts:
  assumes "k < 2 ^ 32"
  shows "decode len_hash zstd (encode len_hash (deep k)) = Ok (deep k)"
    "snapshot_ref_of len_hash (encode len_hash (deep k)) = deep_ref k"
proof -
  have "SnapshotRef (of_nat (135 + k)) \<noteq> snapshot_ref_zero"
    using of_nat_256[of "135 + k" 0] assms by (simp add: snapshot_ref_zero_def)
  then have "manifest_wire_ok zstd (deep k)"
    using assms by (simp add: manifest_wire_ok_def manifest_inv_def deep_def demo_one_def manifest_consts usize_limit_def)
  then show "decode len_hash zstd (encode len_hash (deep k)) = Ok (deep k)"
    by (rule decode_encode)
  show "snapshot_ref_of len_hash (encode len_hash (deep k)) = deep_ref k"
    by (simp add: snapshot_ref_of_def encode_def Let_def deep_body len_hash_def FOOTER_LEN_def)
qed

lemma deep_stored:
  assumes "k < n" "n < 2 ^ 32"
  shows "map_of (deep_store n) (deep_ref k) = Some (encode len_hash (deep k))"
proof -
  have "inj_on deep_ref (set [0..<n])"
    using of_nat_256 assms(2) by (intro inj_onI) (simp del: of_nat_add)
  then have "distinct (map fst (deep_store n))"
    by (simp add: deep_store_def o_def distinct_map)
  then show ?thesis
    using assms(1) by (intro map_of_is_SomeI) (auto simp: deep_store_def)
qed

lemma deep_read:
  assumes "k < n" "n < 2 ^ 32"
  shows "read_manifest len_hash zstd (snap_with ps (deep_store n)) (deep_ref k) = Ok (deep k)"
  using decode_stored(2)[OF deep_facts(1)[of k zstd], of "snap_with ps (deep_store n)"] deep_facts(2)[of k]
    deep_stored[OF assms] assms by simp

lemma deep_chain:
  assumes "k < n" "n < 2 ^ 32" "PageHash 4096 \<in> dom (index_get (ps_index ps))"
  shows "\<exists>c. read_chain (Suc k) len_hash zstd (snap_with ps (deep_store n)) (deep_ref k) = Ok c \<and> length c = Suc k \<and>
    validate_chain (Suc k) len_hash zstd (snap_with ps (deep_store n)) (deep_ref k) = Ok ()"
proof -
  note rd = deep_read[OF _ assms(2), of _ zstd ps]
  have en: "m_entries (deep j) = [\<lparr>page_index = 0, page_hash = PageHash 4096\<rparr>]" for j
    by (simp add: deep_def demo_one_def)
  have "\<exists>c. read_chain (Suc j) len_hash zstd (snap_with ps (deep_store n)) (deep_ref j) = Ok c \<and> length c = Suc j \<and>
    (\<forall>(r, m) \<in> set c. m_entries m = [\<lparr>page_index = 0, page_hash = PageHash 4096\<rparr>])" if "j < n" for j
    using that
  proof (induction j)
    case 0
    then show ?case
      using rd[of 0] en[of 0] by (simp add: deep_def demo_one_def)
  next
    case (Suc j)
    then obtain c where "read_chain (Suc j) len_hash zstd (snap_with ps (deep_store n)) (deep_ref j) = Ok c"
      "length c = Suc j" "\<forall>(r, m) \<in> set c. m_entries m = [\<lparr>page_index = 0, page_hash = PageHash 4096\<rparr>]"
      by auto
    moreover have "m_parent (deep (Suc j)) = Some (deep_ref j)" "m_delta (deep (Suc j))"
      by (simp_all add: deep_def)
    ultimately show ?case
      using rd[OF Suc.prems] en[of "Suc j"] by (simp del: read_chain.simps(2) add: read_chain.simps(2)[of "Suc j"])
  qed
  from this[OF assms(1)] show ?thesis
    using assms(3) unfolding validate_chain_iff by fastforce
qed

lemma deep_inv:
  assumes "store_inv len_hash ps" "dirty_ok ps" "PageHash 4096 \<in> dom (index_get (ps_index ps))" "n < 2 ^ 32"
  shows "snap_inv len_hash zstd (snap_with ps (deep_store n))"
proof -
  have "inj_on deep_ref (set [0..<n])"
    using of_nat_256 assms(4) by (intro inj_onI) (simp del: of_nat_add)
  then have "distinct (map fst (deep_store n))"
    by (simp add: deep_store_def o_def distinct_map)
  moreover have "\<exists>k. validate_chain k len_hash zstd (snap_with ps (deep_store n)) r = Ok ()"
    if r: "map_of (deep_store n) r = Some bs" for r bs
  proof -
    obtain k where "k < n" "r = deep_ref k"
      using map_of_SomeD[OF r] by (auto simp: deep_store_def)
    then show ?thesis
      using deep_chain[OF _ assms(4,3)] by blast
  qed
  ultimately show ?thesis
    using assms(1,2) snap_with_fc_ok[of len_hash zstd ps "deep_store n"]
    by (auto simp: snap_inv_def base_inv_def intact_def)
qed

section \<open>Properties\<close>



text \<open>The count of manifests wraps around below zero: a file whose header is damaged is not
  counted when the store is opened, but deleting it decrements the count.\<close>

theorem deleting_uncounted_file_wraps:
  "let st = (snap_with ps [(r, [])])\<lparr>ss_manifests_total := fst (walk_manifest_counters [(r, [])] 0 0)\<rparr>
   in fst (delete_manifest r st) \<and> ss_manifests_total (snd (delete_manifest r st)) = 2 ^ 64 - 1"
  by (simp add: Let_def snap_with_def delete_manifest_def read_guest_ram_bytes_def)

text \<open>C25: Outside a collection a commit does not check the depth of its chain: a delta over a parent
  whose chain has the largest depth that can be read is acknowledged and stored, and can never be
  resolved.\<close>

theorem too_deep_chain_is_acknowledged:
  assumes inv: "snap_inv blake3 zstd st" and ep: "ss_epoch st = None"
    and ok: "put_checks blake3 zstd st container = Ok m" and delta: "m_delta m"
    and new: "\<not> has_manifest st (snapshot_ref_of blake3 container)"
    and chain: "read_chain MAX_CHAIN blake3 zstd st (the (m_parent m)) = Ok chain" "length chain = MAX_CHAIN"
  shows "\<exists>st'. put_snapshot blake3 zstd container st = (Ok (snapshot_ref_of blake3 container), st') \<and>
    resolve_pages blake3 zstd (snapshot_ref_of blake3 container) baseline hashes_only st' = (Err SnChainDepthExceeded, st')"
proof -
  let ?r = "snapshot_ref_of blake3 container"
  obtain ps where ps: "put_snapshot blake3 zstd container st = (Ok ?r, registered ?r (committed blake3 container m ps st))"
    "ps_index ps = ps_index (ss_pages st)"
    using put_snapshot_committed[OF inv ok] ep by auto
  let ?X = "committed blake3 container m ps st"
  obtain k c where c: "read_chain k blake3 zstd ?X ?r = Ok ((?r, m) # c)"
    "read_chain (k - 1) blake3 zstd st (the (m_parent m)) = Ok c"
    using committed_new_chain[OF ok ps(2) new] inv delta by (auto simp: snap_inv_def)
  then have "c = chain"
    using chain read_chain_at[OF chain(1), of "k - 1"] by (simp split: if_splits)
  then have "read_chain MAX_CHAIN blake3 zstd ?X ?r = Err SnChainDepthExceeded"
    using read_chain_at[OF c(1), of MAX_CHAIN] chain(2) by simp
  then have "read_chain MAX_CHAIN blake3 zstd (registered ?r ?X) ?r = Err SnChainDepthExceeded"
    using read_chain_cong[of "registered ?r ?X" ?X] by simp
  then show ?thesis
    using ps(1) by (simp add: resolve_pages_def)
qed

theorem too_deep_chain_is_acknowledged_witness:
  "\<exists>ps st'. put_snapshot len_hash Some (encode len_hash (deep 4096)) (snap_with ps (deep_store 4096)) = (Ok (deep_ref 4096), st') \<and>
     resolve_pages len_hash Some (deep_ref 4096) None True st' = (Err SnChainDepthExceeded, st')"
proof -
  obtain ps where ps: "store_inv len_hash ps" "dirty_ok ps" "dom (index_get (ps_index ps)) = {PageHash 4096}"
    using demo_synced_pages by blast
  let ?st = "snap_with ps (deep_store 4096)"
  have inv: "snap_inv len_hash Some ?st"
    by (rule deep_inv) (use ps in simp_all)
  obtain chain where chain: "read_chain MAX_CHAIN len_hash Some ?st (deep_ref 4095) = Ok chain" "length chain = MAX_CHAIN"
    using deep_chain[of 4095 4096 ps Some] ps(3) by (auto simp: MAX_CHAIN_def)
  have par: "m_parent (deep 4096) = Some (deep_ref 4095)" "m_delta (deep 4096)"
    "m_guest_ram_bytes (deep 4095) = m_guest_ram_bytes (deep 4096)"
    "m_entries (deep 4096) = [\<lparr>page_index = 0, page_hash = PageHash 4096\<rparr>]"
    by (simp_all add: deep_def demo_one_def)
  have r: "snapshot_ref_of len_hash (encode len_hash (deep 4096)) = deep_ref 4096"
    by (rule deep_facts(2)) simp
  have rd: "read_manifest len_hash Some ?st (deep_ref 4095) = Ok (deep 4095)"
    by (rule deep_read) simp_all
  then have ok: "put_checks len_hash Some ?st (encode len_hash (deep 4096)) = Ok (deep 4096)"
    using deep_facts(1)[of 4096 Some] par ps(3)
    by (auto simp: put_checks_def check_parent_def missing_pages_eq read_manifest_def obind_eq_Ok)
  have new: "\<not> has_manifest ?st (deep_ref 4096)"
    using of_nat_256[of "136 + 4096" "136 + k" for k]
    by (auto simp: has_manifest_def deep_store_def map_of_eq_None_iff simp del: of_nat_add)
  have "read_chain MAX_CHAIN len_hash Some ?st (the (m_parent (deep 4096))) = Ok chain"
    using chain(1) par(1) by simp
  from too_deep_chain_is_acknowledged[OF inv _ ok par(2) _ this chain(2), of None True] show ?thesis
    using r new by auto
qed

end
