(* ===== verification/Gc_Complete.thy ===== *)
theory Gc_Complete
  imports Gc_Sweep Snapshot_Counters
begin

text \<open>
  What a collection leaves behind when nobody interferes: exactly the manifests that can be reached
  from its roots.  And what makes a collection give up.
\<close>

section \<open>Reachable manifests\<close>

inductive ancestor ::
  "(bytes \<Rightarrow> hash32) \<Rightarrow> (bytes \<Rightarrow> bytes option) \<Rightarrow> snapshot_store \<Rightarrow> snapshot_ref \<Rightarrow> snapshot_ref \<Rightarrow> bool"
  for blake3 zstd st where
  ancestor_self: "ancestor blake3 zstd st r r" if "read_manifest blake3 zstd st r = Ok m"
| ancestor_parent: "ancestor blake3 zstd st r q"
    if "read_manifest blake3 zstd st r = Ok m" "m_delta m" "m_parent m = Some p" "ancestor blake3 zstd st p q"

lemma ancestor_live:
  assumes "ancestor blake3 zstd st r q" "live_closed blake3 zstd st live {}" "r \<in> lv_manifests live"
  shows "q \<in> lv_manifests live"
  using assms
proof induction
  case (ancestor_parent r m p q)
  then obtain m' where "read_manifest blake3 zstd st r = Ok m'" "m_delta m' \<longrightarrow> (\<exists>p. m_parent m' = Some p \<and> p \<in> lv_manifests live)"
    unfolding live_closed_def by fastforce
  then show ?case
    using ancestor_parent by auto
qed

lemma mark_chain_ancestors:
  assumes "mark_chain n b blake3 zstd r cy = (Ok (), cy')" "q \<in> lv_manifests (cy_live cy')"
  shows "q \<in> lv_manifests (cy_live cy) \<or> ancestor blake3 zstd (cy_store cy) r q"
  using assms
proof (induction n arbitrary: b r cy)
  case (Suc n)
  show ?case
  proof (cases "r \<in> lv_manifests (cy_live cy)")
    case True
    then show ?thesis
      using Suc.prems by simp
  next
    case new: False
    show ?thesis
    proof (cases "read_manifest_bytes blake3 (cy_store cy) r")
      case (Ok bs)
      then obtain m where dec: "decode blake3 zstd bs = Ok m"
        using Suc.prems(1) new by (auto split: outcome.splits)
      then have rd: "read_manifest blake3 zstd (cy_store cy) r = Ok m"
        using Ok by (simp add: read_manifest_def)
      have marked: "lv_manifests (cy_live (mark_manifest r m cy)) = insert r (lv_manifests (cy_live cy))"
        by (simp add: mark_manifest_def)
      show ?thesis
      proof (cases "m_delta m")
        case True
        then obtain p where p: "m_parent m = Some p" "mark_chain n False blake3 zstd p (mark_manifest r m cy) = (Ok (), cy')"
          using Suc.prems(1) new Ok dec by (auto split: option.splits)
        show ?thesis
          using Suc.IH[OF p(2) Suc.prems(2)] ancestor_parent[OF rd True p(1)] ancestor_self[OF rd] marked by auto
      next
        case False
        then show ?thesis
          using Suc.prems new Ok dec ancestor_self[OF rd] marked by auto
      qed
    qed (use Suc.prems new in \<open>auto split: if_splits\<close>)
  qed
qed simp

lemma gc_mark_ancestors:
  assumes "gc_mark blake3 zstd roots cy = (Ok (), cy')" "q \<in> lv_manifests (cy_live cy')"
  shows "q \<in> lv_manifests (cy_live cy) \<or> (\<exists>r \<in> set roots. ancestor blake3 zstd (cy_store cy) r q)"
  using assms
proof (induction roots arbitrary: cy)
  case (Cons r roots)
  obtain cy1 where cy1: "mark_chain MAX_CHAIN True blake3 zstd r cy = (Ok (), cy1)" "gc_mark blake3 zstd roots cy1 = (Ok (), cy')"
    using Cons.prems(1) by (auto simp: sbind_eq_Ok)
  have "cy_store cy1 = cy_store cy"
    using mark_chain_frame[of MAX_CHAIN True blake3 zstd r cy] cy1(1) by simp
  then show ?case
    using Cons.IH[OF cy1(2) Cons.prems(2)] mark_chain_ancestors[OF cy1(1), of q] by auto
qed simp

lemma gc_mark_exact:
  assumes run: "gc_mark blake3 zstd roots cy = (Ok (), cy')" and empty: "cy_live cy = live_empty"
  shows "lv_manifests (cy_live cy') = {q. \<exists>r \<in> set roots. ancestor blake3 zstd (cy_store cy) r q}"
proof -
  have closed: "live_closed blake3 zstd (cy_store cy) (cy_live cy') {}"
    "\<forall>r \<in> set roots. has_manifest (cy_store cy) r \<longrightarrow> r \<in> lv_manifests (cy_live cy')"
    using gc_mark_closed[OF run] by (simp_all add: empty)
  have "has_manifest (cy_store cy) r" if "ancestor blake3 zstd (cy_store cy) r q" for r q
    using that read_manifest_stored by cases (fastforce simp: has_manifest_def)+
  then show ?thesis
    using closed gc_mark_ancestors[OF run] ancestor_live[OF _ closed(1)] by (auto simp: empty live_empty_def)
qed

section \<open>A collection nobody interferes with\<close>

text \<open>Only the pages and the report change.\<close>

definition pages_only :: "gc_cycle \<Rightarrow> gc_cycle \<Rightarrow> bool" where
  "pages_only cy cy' \<longleftrightarrow> cy_live cy' = cy_live cy \<and> (\<exists>ps. cy_store cy' = set_pages ps (cy_store cy))"

lemma pages_onlyI: "cy_live cy' = cy_live cy \<Longrightarrow> cy_store cy' = set_pages ps (cy_store cy) \<Longrightarrow> pages_only cy cy'"
  by (auto simp: pages_only_def)

lemma pages_only_refl [simp]: "pages_only cy cy"
  by (rule pages_onlyI[where ps = "pages_of cy"]) simp_all

lemma pages_only_trans: "pages_only a b \<Longrightarrow> pages_only b c \<Longrightarrow> pages_only a c"
  by (auto simp: pages_only_def)

lemma pages_only_gc_pages [simp]: "pages_only cy (snd (gc_pages f cy))"
  by (auto simp: gc_pages_def on_pages_def pages_only_def split: prod.split)

lemma pages_only_update [simp]:
  "pages_only cy (on_page_state f cy)" "pages_only cy (count_report g cy)"
  by (auto simp: on_page_state_def on_store_def count_report_def pages_only_def intro: exI[of _ "pages_of cy"])

lemma pages_only_bind:
  assumes "pages_only cy (snd (f cy))" "\<And>v cy'. pages_only cy cy' \<Longrightarrow> pages_only cy' (snd (g v cy'))"
  shows "pages_only cy (snd (sbind f g cy))"
  using assms pages_only_trans by (fastforce simp: sbind_def split: prod.split outcome.split)

lemma pages_only_copy_loop: "pages_only cy (snd (copy_loop blake3 recs w cy))"
proof (induction recs arbitrary: w cy)
  case (Cons rec recs)
  obtain h loc where rec: "rec = (h, loc)"
    by force
  show ?case
    unfolding rec copy_loop.simps by (intro pages_only_bind) (auto intro!: pages_only_bind Cons.IH)
qed simp

lemma pages_only_copy: "pages_only cy (snd (gc_copy_records blake3 crc32 now records cy))"
  unfolding gc_copy_records_def
  by (intro pages_only_bind pages_only_copy_loop) (auto simp: sreturn_def intro!: pages_only_bind)

lemma pages_only_finalize:
  assumes "ss_epoch (cy_store cy) = Some []"
  shows "pages_only cy (snd (finalize_and_unlink blake3 zstd crc32 now hooks_none p copied dead cy))"
proof -
  have "pages_only cy (on_page_state (unlink_pack p) (finalize_index hooks_none p copied dead cy))"
    by (rule pages_only_trans[where b = "finalize_index hooks_none p copied dead cy"])
      (auto simp: finalize_index_def is_sabotage_def hooks_none_def Let_def
        intro: pages_only_trans[where b = "on_page_state (repoint_all p copied) cy"])
  moreover have "drain_stragglers hooks_none cy = ([], cy)"
    using assms by (cases cy) (simp add: drain_stragglers_def is_sabotage_def hooks_none_def drain_late_roots_def)
  ultimately show ?thesis
    by (simp add: finalize_and_unlink_def fire_def hooks_none_def sbind_def is_sabotage_def)
qed

lemma pages_only_epoch: "pages_only cy cy' \<Longrightarrow> ss_epoch (cy_store cy') = ss_epoch (cy_store cy)"
  by (auto simp: pages_only_def)

lemma pages_only_sweep_scanned:
  assumes "ss_epoch (cy_store cy) = Some []"
  shows "pages_only cy (snd (sweep_scanned blake3 zstd crc32 now hooks_none thr p es live records cy))"
proof -
  have fin: "pages_only cy (snd (finalize_and_unlink blake3 zstd crc32 now hooks_none p copied dead cy'))"
    if "pages_only cy cy'" for cy' copied dead
    using pages_only_trans[OF that pages_only_finalize] pages_only_epoch[OF that] assms by simp
  have "pages_only cy (snd (drop_pack blake3 zstd crc32 now hooks_none p cy))"
    unfolding drop_pack_def by (intro pages_only_bind pages_only_finalize) (simp_all add: assms upd_def)
  moreover have "pages_only cy (snd (compact_pack blake3 zstd crc32 now hooks_none p n lr dr cy))" for n lr dr
    unfolding compact_pack_def
    by (intro pages_only_bind pages_only_finalize)
      (auto simp: upd_def fire_def hooks_none_def sreturn_def assms pages_only_copy dest!: pages_only_epoch)
  ultimately show ?thesis
    by (auto simp: sweep_scanned_def sreturn_def split: prod.split)
qed

lemma pages_only_sweep_list:
  "ss_epoch (cy_store cy) = Some [] \<Longrightarrow> pages_only cy (snd (sweep_pack_list blake3 zstd crc32 now hooks_none thr ps cy))"
proof (induction ps arbitrary: cy)
  case (Cons p ps)
  have fire: "fire hooks_none q cy = cy" for q
    by (simp add: fire_def hooks_none_def)
  have one: "pages_only cy (snd (gc_sweep_one_pack blake3 zstd crc32 now hooks_none thr p cy))"
    unfolding gc_sweep_one_pack_scanned
    by (rule pages_only_bind) (auto simp: slift_def Cons.prems dest: pages_only_epoch intro!: pages_only_sweep_scanned)
  show ?case
    unfolding sweep_pack_list.simps fire
    by (rule pages_only_bind) (use one Cons pages_only_epoch in auto)
qed simp

lemma delete_batch_deletes:
  "map_of (ss_manifests (cy_store (delete_batch batch cy))) = (\<lambda>r. if r \<in> set batch - lv_manifests (cy_live cy) then None else map_of (ss_manifests (cy_store cy)) r) \<and>
   cy_live (delete_batch batch cy) = cy_live cy \<and> ss_epoch (cy_store (delete_batch batch cy)) = ss_epoch (cy_store cy)"
proof (induction batch arbitrary: cy)
  case (Cons r batch)
  define cy1 where "cy1 = delete_batch [r] cy"
  have one: "map_of (ss_manifests (cy_store cy1)) = (if r \<in> lv_manifests (cy_live cy) then map_of (ss_manifests (cy_store cy))
      else (map_of (ss_manifests (cy_store cy)))(r := None))" "cy_live cy1 = cy_live cy" "ss_epoch (cy_store cy1) = ss_epoch (cy_store cy)"
    using delete_manifest_fields[where r = r and st = "cy_store cy"]
    by (auto simp: cy1_def delete_batch_def count_report_def Let_def split: prod.split)
  have "delete_batch (r # batch) cy = delete_batch batch cy1"
    by (simp add: cy1_def delete_batch_def)
  then show ?case
    using Cons.IH[of cy1] one by (auto simp: fun_eq_iff)
qed (simp add: delete_batch_def)

lemma sweep_batches_deletes:
  assumes "ss_epoch (cy_store cy) = Some []"
  shows "\<exists>cy'. sweep_batches blake3 zstd hooks_none candidates cy = (Ok (), cy') \<and>
    map_of (ss_manifests (cy_store cy')) =
      (\<lambda>r. if r \<in> set candidates - lv_manifests (cy_live cy) then None else map_of (ss_manifests (cy_store cy)) r)"
  using assms
proof (induction "length candidates" arbitrary: candidates cy rule: less_induct)
  case less
  show ?case
  proof (cases "candidates = []")
    case True
    then show ?thesis
      by (simp add: sweep_batches.simps)
  next
    case False
    define cy1 where "cy1 = delete_batch (take BATCH candidates) cy"
    note d = delete_batch_deletes[of "take BATCH candidates" cy, folded cy1_def]
    have "drain_stragglers hooks_none cy = ([], cy)"
      using less.prems by (cases cy) (simp add: drain_stragglers_def is_sabotage_def hooks_none_def drain_late_roots_def)
    then have step: "sweep_batches blake3 zstd hooks_none candidates cy = sweep_batches blake3 zstd hooks_none (drop BATCH candidates) cy1"
      using False by (subst sweep_batches.simps) (simp add: cy1_def hooks_none_def on_store_def)
    have short: "length (drop BATCH candidates) < length candidates"
      using False by (cases candidates) (simp_all add: BATCH_def)
    have "ss_epoch (cy_store cy1) = Some []"
      using d less.prems by simp
    from less.hyps[OF short this] obtain cy' where "sweep_batches blake3 zstd hooks_none (drop BATCH candidates) cy1 = (Ok (), cy')"
      "map_of (ss_manifests (cy_store cy')) =
        (\<lambda>r. if r \<in> set (drop BATCH candidates) - lv_manifests (cy_live cy1) then None else map_of (ss_manifests (cy_store cy1)) r)"
      by blast
    moreover have "set candidates = set (take BATCH candidates) \<union> set (drop BATCH candidates)"
      by (metis append_take_drop_id set_append)
    ultimately show ?thesis
      using d by (auto simp: step fun_eq_iff)
  qed
qed

text \<open>C28: A collection nobody interferes with is exact on manifests: when it returns normally, the
  manifests left are those that can be reached from its roots over parents, each with its old bytes.\<close>

theorem collection_leaves_exactly_reachable:
  assumes "ss_epoch st = Some []"
    "mark_and_sweep blake3 zstd crc32 now hooks_none thr fence roots
       \<lparr>cy_store = st, cy_live = live_empty, cy_report = report_empty\<rparr> = (Ok (), cy')"
  shows "map_of (ss_manifests (cy_store cy')) =
    map_of (ss_manifests st) |` {q. \<exists>r \<in> set roots. ancestor blake3 zstd st r q}"
proof -
  let ?cy = "\<lparr>cy_store = st, cy_live = live_empty, cy_report = report_empty\<rparr>"
  obtain cy1 cy2 where run: "gc_mark blake3 zstd roots ?cy = (Ok (), cy1)"
    "gc_sweep_packs blake3 zstd crc32 now hooks_none thr fence cy1 = (Ok (), cy2)"
    "gc_sweep_manifests blake3 zstd hooks_none cy2 = (Ok (), cy')"
    using assms(2) by (auto simp: mark_and_sweep_def sbind_eq_Ok fire_def hooks_none_def)
  have marked: "lv_manifests (cy_live cy1) = {q. \<exists>r \<in> set roots. ancestor blake3 zstd st r q}" "cy_store cy1 = st"
    using gc_mark_exact[OF run(1)] gc_mark_frame[of blake3 zstd roots ?cy] run(1) by simp_all
  have "pages_only cy1 cy2"
    using pages_only_sweep_list[of cy1] run(2) marked(2) assms(1) by (metis gc_sweep_packs_def snd_conv)
  then have swept: "cy_live cy2 = cy_live cy1" "ss_manifests (cy_store cy2) = ss_manifests st" "ss_epoch (cy_store cy2) = Some []"
    using marked(2) assms(1) by (auto simp: pages_only_def)
  have "map_of (ss_manifests (cy_store cy')) = (\<lambda>r. if r \<in> set (map fst (ss_manifests st)) - lv_manifests (cy_live cy1) then None else map_of (ss_manifests st) r)"
    using sweep_batches_deletes[OF swept(3), of blake3 zstd "filter (\<lambda>r. r \<notin> lv_manifests (cy_live cy2)) (list_manifest_refs (cy_store cy2))"] run(3) swept(1,2)
    by (auto simp: gc_sweep_manifests_def fire_def hooks_none_def list_manifest_refs_def fun_eq_iff)
  moreover have "map_of (ss_manifests st) r = None" if "r \<notin> set (map fst (ss_manifests st))" for r
    using that by (simp add: map_of_eq_None_iff)
  ultimately show ?thesis
    using marked(1) by (fastforce simp: restrict_map_def fun_eq_iff)
qed

theorem collection_leaves_exactly_reachable_witness:
  "\<exists>ps cy'. mark_and_sweep len_hash Some (\<lambda>_. 7) 0 hooks_none (1 / 2) (PackId 0) [SnapshotRef 136]
       \<lparr>cy_store = (snap_with ps demo_trash)\<lparr>ss_epoch := Some []\<rparr>, cy_live = live_empty, cy_report = report_empty\<rparr> = (Ok (), cy') \<and>
     map_of (ss_manifests (cy_store cy')) = map_of demo_trash |` {q. ancestor len_hash Some ((snap_with ps demo_trash)\<lparr>ss_epoch := Some []\<rparr>) (SnapshotRef 136) q}"
proof -
  obtain ps where "store_inv len_hash ps"
    using demo_synced_pages by blast
  let ?st = "(snap_with ps demo_trash)\<lparr>ss_epoch := Some []\<rparr>"
  let ?cy = "\<lparr>cy_store = ?st, cy_live = live_empty, cy_report = report_empty\<rparr>"
  let ?cy1 = "?cy\<lparr>cy_live := \<lparr>lv_pages = {PageHash 4096}, lv_manifests = {SnapshotRef 136}\<rparr>\<rparr>"
  have "gc_mark len_hash Some [SnapshotRef 136] ?cy = (Ok (), ?cy1)"
    using demo_mark[of Some ps report_empty] by simp
  moreover have "gc_sweep_packs len_hash Some (\<lambda>_. 7) 0 hooks_none (1 / 2) (PackId 0) ?cy1 = (Ok (), ?cy1)"
    by (simp add: gc_sweep_packs_def less_pack_id_def)
  moreover obtain cy' where "gc_sweep_manifests len_hash Some hooks_none ?cy1 = (Ok (), cy')"
    using sweep_batches_deletes[of ?cy1 len_hash Some] by (auto simp: gc_sweep_manifests_def fire_def hooks_none_def)
  ultimately have run: "mark_and_sweep len_hash Some (\<lambda>_. 7) 0 hooks_none (1 / 2) (PackId 0) [SnapshotRef 136] ?cy = (Ok (), cy')"
    by (simp add: mark_and_sweep_def sbind_def fire_def hooks_none_def)
  from collection_leaves_exactly_reachable[OF _ run] show ?thesis
    using run by (auto simp del: gc_mark.simps)
qed

section \<open>Collections that give up\<close>

lemma read_chain_distinct:
  assumes "read_chain k blake3 zstd st r = Ok chain"
  shows "distinct (map fst chain)"
  using assms
proof (induction k arbitrary: r chain)
  case (Suc k)
  obtain m where m: "read_manifest blake3 zstd st r = Ok m"
    using Suc.prems by (auto simp: obind_eq_Ok)
  show ?case
  proof (cases "m_delta m")
    case True
    then obtain p rest where rest: "read_chain k blake3 zstd st p = Ok rest" "chain = (r, m) # rest"
      using Suc.prems m by (auto simp: obind_eq_Ok)
    have "r \<notin> fst ` set rest"
    proof
      assume "r \<in> fst ` set rest"
      then obtain a m' b where split: "rest = a @ (r, m') # b"
        by (metis imageE prod.collapse split_list)
      have "read_chain k blake3 zstd st r = Ok ((r, m') # b)"
        using read_chain_suffix[OF rest(1)[unfolded split]] by simp
      from read_chain_at[OF this, of "Suc k"] show False
        using Suc.prems rest(2) split by (auto split: if_splits)
    qed
    then show ?thesis
      using Suc.IH[OF rest(1)] rest(2) by simp
  next
    case False
    then show ?thesis
      using Suc.prems m by auto
  qed
qed simp

lemma mark_chain_too_deep:
  assumes "read_chain k blake3 zstd (cy_store cy) r = Ok chain" "n < length chain"
    "fst ` set chain \<inter> lv_manifests (cy_live cy) = {}"
  shows "fst (mark_chain n b blake3 zstd r cy) = Err SnChainDepthExceeded"
  using assms read_chain_distinct[OF assms(1)]
proof (induction n arbitrary: b r cy chain k)
  case (Suc n)
  obtain k' m where k: "k = Suc k'" and m: "read_manifest blake3 zstd (cy_store cy) r = Ok m"
    using Suc.prems(1) by (cases k) (auto simp: obind_eq_Ok)
  then obtain p rest where p: "m_delta m" "m_parent m = Some p" "read_chain k' blake3 zstd (cy_store cy) p = Ok rest" "chain = (r, m) # rest"
    using Suc.prems(1,2) by (auto simp: obind_eq_Ok split: if_splits)
  obtain bs where bs: "read_manifest_bytes blake3 (cy_store cy) r = Ok bs" "decode blake3 zstd bs = Ok m"
    using m by (auto simp: read_manifest_def obind_eq_Ok split: outcome.splits)
  have "fst (mark_chain n False blake3 zstd p (mark_manifest r m cy)) = Err SnChainDepthExceeded"
    by (rule Suc.IH[where chain = rest and k = k']) (use Suc.prems p in \<open>auto simp: mark_manifest_def\<close>)
  then show ?case
    using Suc.prems(3) p bs by auto
qed simp

text \<open>A reference whose registration is refused stays among the late roots: a client that commits or
  registers a snapshot of a chain that is too deep makes the running collection fail.\<close>

theorem refused_registration_aborts_collection:
  assumes inv: "snap_inv blake3 zstd st" and ep: "ss_epoch st = Some []"
    and chain: "read_chain k blake3 zstd st r = Ok chain" "MAX_CHAIN < length chain"
    and live: "fst ` set chain \<inter> lv_manifests live = {}"
  shows "\<exists>st'. register_live_ref blake3 zstd r st = (Err SnChainDepthExceeded, st') \<and>
    fst (gc_sweep_manifests blake3 zstd hooks_none \<lparr>cy_store = st', cy_live = live, cy_report = rp\<rparr>) = Err SnChainDepthExceeded"
proof -
  let ?st = "registered r st"
  let ?cy = "\<lparr>cy_store = ?st, cy_live = live, cy_report = rp\<rparr>" and ?base = "\<lparr>cy_store = st, cy_live = live, cy_report = rp\<rparr>"
  have "read_chain MAX_CHAIN blake3 zstd st r = Err SnChainDepthExceeded"
    using read_chain_at[OF chain(1), of MAX_CHAIN] chain(2) by simp
  moreover obtain m where m: "read_manifest blake3 zstd st r = Ok m" "r \<in> fst ` set chain"
    using chain(1) by (cases k) (auto simp: obind_eq_Ok split: if_splits)
  have has: "has_manifest st r"
    using read_manifest_stored[OF m(1)] by (auto simp: has_manifest_def)
  ultimately have reg: "register_live_ref blake3 zstd r st = (Err SnChainDepthExceeded, ?st)"
    using register_live_ref_intact[of blake3 zstd st r] inv ep by (simp add: snap_inv_def)
  let ?cs = "filter (\<lambda>r. r \<notin> lv_manifests live) (list_manifest_refs ?st)"
  have "r \<in> set ?cs"
    using has m(2) live by (force simp: has_manifest_def list_manifest_refs_def dest: map_of_SomeD)
  then have ne: "?cs \<noteq> []"
    by force
  have same: "st\<lparr>ss_epoch := Some []\<rparr> = st"
    using ep by simp
  have "drain_late_roots ?st = ([r], st\<lparr>ss_epoch := Some []\<rparr>)"
    using ep by (simp add: drain_late_roots_def registered_def)
  then have drain: "drain_stragglers hooks_none ?cy = ([r], ?base)"
    unfolding same by (simp add: drain_stragglers_def is_sabotage_def hooks_none_def)
  have "fst (gc_mark blake3 zstd [r] ?base) = Err SnChainDepthExceeded"
    using mark_chain_too_deep[of k blake3 zstd ?base r chain MAX_CHAIN True] chain live
    by (auto simp: sbind_def split: prod.split outcome.split)
  then have "fst (sweep_batches blake3 zstd hooks_none ?cs ?cy) = Err SnChainDepthExceeded"
    using ne by (subst sweep_batches.simps) (auto simp: drain simp del: gc_mark.simps split: prod.split outcome.split)
  then show ?thesis
    using reg by (simp add: gc_sweep_manifests_def fire_def hooks_none_def)
qed

theorem refused_registration_aborts_collection_witness:
  "\<exists>ps st'. register_live_ref len_hash Some (deep_ref 4096) ((snap_with ps (deep_store 4097))\<lparr>ss_epoch := Some []\<rparr>) =
       (Err SnChainDepthExceeded, st') \<and>
     fst (gc_sweep_manifests len_hash Some hooks_none \<lparr>cy_store = st', cy_live = live_empty, cy_report = report_empty\<rparr>) =
       Err SnChainDepthExceeded"
proof -
  obtain ps where ps: "store_inv len_hash ps" "dirty_ok ps" "dom (index_get (ps_index ps)) = {PageHash 4096}"
    using demo_synced_pages by blast
  let ?s = "snap_with ps (deep_store 4097)"
  let ?st = "?s\<lparr>ss_epoch := Some []\<rparr>"
  have "snap_inv len_hash Some ?s"
    by (rule deep_inv) (use ps in simp_all)
  then have inv: "snap_inv len_hash Some ?st"
    using snap_inv_cong[of ?st ?s] by simp
  obtain chain where "read_chain 4097 len_hash Some ?s (deep_ref 4096) = Ok chain" "length chain = 4097"
    using deep_chain[of 4096 4097 ps Some] ps(3) by auto
  then have chain: "read_chain 4097 len_hash Some ?st (deep_ref 4096) = Ok chain" "MAX_CHAIN < length chain"
    using read_chain_cong[of ?st ?s] by (simp_all add: MAX_CHAIN_def)
  show ?thesis
    using refused_registration_aborts_collection[OF inv _ chain, of live_empty report_empty] by (auto simp: live_empty_def)
qed

end
