(* ===== verification/Meta_Commands.thy ===== *)
theory Meta_Commands
  imports Meta_Types
begin

text \<open>
  The write commands of \<^verbatim>\<open>crates/snapstore-meta/src/actor.rs\<close>, one definition per
  \<open>*_impl\<close> function, over the tables of \<^verbatim>\<open>Meta_Types\<close>.  A statement of SQL is the
  function on tables that it denotes, with the constraints of the schema (primary keys, the
  foreign key from a node to its parent).  BLAKE3 is the argument \<open>blake3\<close> and the addition
  of SQL on a column is the argument \<open>sql_add\<close>.  A recursive query that never ends is a call
  that never returns, the outcome \<open>Panic\<close>.
\<close>

section \<open>Statements on nodes\<close>

type_synonym node_key = "string \<times> i64"

definition node_key :: "node_sql \<Rightarrow> node_key" where
  "node_key r = (c_experiment_id r, c_node_id r)"

text \<open>\<open>SELECT ... FROM nodes WHERE experiment_id=? AND node_id=?\<close> and its \<open>COUNT(*) > 0\<close>.\<close>

definition select_node :: "string \<Rightarrow> i64 \<Rightarrow> tree_db \<Rightarrow> node_sql option" where
  "select_node e n db = find (\<lambda>r. node_key r = (e, n)) (db_nodes db)"

definition node_exists :: "string \<Rightarrow> i64 \<Rightarrow> tree_db \<Rightarrow> bool" where
  "node_exists e n db = (length (filter (\<lambda>r. node_key r = (e, n)) (db_nodes db)) > 0)"

text \<open>\<open>UPDATE nodes SET ... WHERE\<close> a condition on the row.\<close>

definition update_where :: "(node_sql \<Rightarrow> bool) \<Rightarrow> (node_sql \<Rightarrow> node_sql) \<Rightarrow> tree_db \<Rightarrow> tree_db" where
  "update_where hit f db = db\<lparr>db_nodes := map (\<lambda>r. if hit r then f r else r) (db_nodes db)\<rparr>"

text \<open>\<open>FOREIGN KEY (experiment_id, parent_node_id) REFERENCES nodes(experiment_id, node_id)\<close>.\<close>

definition fk_ok :: "node_sql list \<Rightarrow> bool" where
  "fk_ok ns = (\<forall>r \<in> set ns. case c_parent_node_id r of
      None \<Rightarrow> True
    | Some p \<Rightarrow> (c_experiment_id r, p) \<in> node_key ` set ns)"

definition insert_node :: "node_sql \<Rightarrow> (tree_db, sqlite_error, unit) op" where
  "insert_node r db =
     (if node_key r \<in> node_key ` set (db_nodes db) then (Err ConstraintViolation, db)
      else let ns = db_nodes db @ [r] in
      if fk_ok ns then (Ok (), db\<lparr>db_nodes := ns\<rparr>) else (Err ConstraintViolation, db))"

definition delete_nodes :: "(node_sql \<Rightarrow> bool) \<Rightarrow> (tree_db, sqlite_error, nat) op" where
  "delete_nodes hit db =
     (let ns = filter (\<lambda>r. \<not> hit r) (db_nodes db) in
      if fk_ok ns then (Ok (length (filter hit (db_nodes db))), db\<lparr>db_nodes := ns\<rparr>)
      else (Err ConstraintViolation, db))"

definition fetch_node ::
  "tree_db \<Rightarrow> experiment_id \<Rightarrow> node_id \<Rightarrow> (sqlite_error, node_row option) outcome" where
  "fetch_node db experiment_id node_id =
     (case select_node (experiment_str experiment_id) (node_id_to_sql node_id) db of
        None \<Rightarrow> Ok None
      | Some r \<Rightarrow> obind (row_to_node r) (\<lambda>n. Ok (Some n)))"

text \<open>
  \<open>WITH RECURSIVE ... UNION ALL\<close>: the rows of the frontier, then what the recursive part
  selects from them, until it selects nothing.
\<close>

partial_function (option) rec_cte :: "('a list \<Rightarrow> 'a list) \<Rightarrow> 'a list \<Rightarrow> 'a list option" where
  "rec_cte step frontier =
     (if frontier = [] then Some []
      else Option.bind (rec_cte step (step frontier)) (\<lambda>rest. Some (frontier @ rest)))"

declare rec_cte.simps [code]

definition child_keys :: "tree_db \<Rightarrow> node_key list \<Rightarrow> node_key list" where
  "child_keys db ks =
     concat (map (\<lambda>(e, n). map node_key (filter (\<lambda>r. c_experiment_id r = e
                                      \<and> c_parent_node_id r = Some n) (db_nodes db))) ks)"

definition subtree :: "tree_db \<Rightarrow> string \<Rightarrow> i64 \<Rightarrow> node_key list option" where
  "subtree db e n =
     rec_cte (child_keys db) (map node_key (filter (\<lambda>r. node_key r = (e, n)) (db_nodes db)))"

section \<open>Input logs\<close>

definition select_log :: "bytes \<Rightarrow> tree_db \<Rightarrow> log_sql option" where
  "select_log l db = find (\<lambda>r. l_log_id r = l) (db_input_logs db)"

definition put_input_log_impl ::
  "(bytes \<Rightarrow> hash32) \<Rightarrow> meta_config \<Rightarrow> log_id \<Rightarrow> bytes \<Rightarrow> u64 \<Rightarrow> (tree_db, meta_error, bool) op" where
  "put_input_log_impl blake3 config log_id container counter db =
     (if length container < INPUT_LOG_MIN_BYTES then (Err MeLogTooSmall, db)
      else if length container > mc_input_log_max_bytes config then (Err MeLogTooLarge, db)
      else let hash_region = take (length container - 32) container in
      if LogId (blake3 hash_region) \<noteq> log_id then (Err MeLogIdMismatch, db)
      else let inner_fmt_ver =
             (if 12 \<le> length container
              then ucast (from_le_bytes (take 4 (drop 8 container)) :: u32) else 0) in
      if select_log (log_id_to_sql log_id) db \<noteq> None then (Ok False, db)
      else (Ok True, db\<lparr>db_input_logs := db_input_logs db @
             [\<lparr>l_log_id = log_id_to_sql log_id, l_inner_format_version = inner_fmt_ver,
               l_content = container, l_created_at = counter\<rparr>]\<rparr>))"

section \<open>Creating and updating nodes\<close>

definition check_root_rule :: "create_node_params \<Rightarrow> (meta_error, unit) outcome" where
  "check_root_rule p =
     (if is_root (cp_node_id p) \<and> cp_parent_node_id p \<noteq> None
      then Err (MeInvalidArgument ''root node (node_id=0) must have no parent'')
      else if \<not> is_root (cp_node_id p) \<and> cp_parent_node_id p = None
      then Err (MeInvalidArgument ''non-root node must have a parent'')
      else Ok ())"

definition node_depth :: "tree_db \<Rightarrow> create_node_params \<Rightarrow> (meta_error, u32) outcome" where
  "node_depth db p =
     (case cp_parent_node_id p of
        Some parent_id \<Rightarrow>
          obind (map_err MeSqlite (fetch_node db (cp_experiment_id p) parent_id)) (\<lambda>found.
          obind (ok_or MeParentNotFound found) (\<lambda>parent_row.
          if nr_status parent_row = Pruned then Err MeParentNotFound
          else Ok (nr_depth parent_row + 1)))
      | None \<Rightarrow> Ok 0)"

definition store_inline_log ::
  "(bytes \<Rightarrow> hash32) \<Rightarrow> meta_config \<Rightarrow> create_node_params \<Rightarrow> u64 \<Rightarrow> (tree_db, meta_error, unit) op" where
  "store_inline_log blake3 config p counter db =
     (case cp_input_log_id p of
        None \<Rightarrow> (Ok (), db)
      | Some log_id \<Rightarrow>
          if select_log (log_id_to_sql log_id) db \<noteq> None then (Ok (), db)
          else (case cp_inline_log_container p of
              Some container \<Rightarrow>
                sbind (put_input_log_impl blake3 config log_id container counter)
                  (\<lambda>_. sreturn ()) db
            | None \<Rightarrow>
                (Err (MeInvalidArgument
                   ''input_log_id not found and no inline container provided''), db)))"

definition new_node_sql :: "create_node_params \<Rightarrow> u32 \<Rightarrow> u64 \<Rightarrow> node_sql" where
  "new_node_sql p depth counter =
     \<lparr>c_experiment_id = experiment_str (cp_experiment_id p),
      c_node_id = node_id_to_sql (cp_node_id p),
      c_parent_node_id = map_option node_id_to_sql (cp_parent_node_id p),
      c_depth = ucast depth,
      c_snapshot_ref = snapshot_ref_to_sql (cp_snapshot_ref p),
      c_input_log_id = map_option log_id_to_sql (cp_input_log_id p),
      c_status = status_to_sql (cp_status p),
      c_score = bind_f64 (cp_score p),
      c_visit_count = SqlInt 0,
      c_icount = cp_icount p,
      c_virtual_ns = cp_virtual_ns p,
      c_created_at = counter,
      c_updated_at = counter,
      c_last_visited_at = 0,
      c_attrs = cp_attrs p\<rparr>"

definition insert_or_existing ::
  "create_node_params \<Rightarrow> u32 \<Rightarrow> u64 \<Rightarrow> (tree_db, meta_error, node_row) op" where
  "insert_or_existing p depth counter db =
     (case insert_node (new_node_sql p depth counter) db of
        (Ok _, db) \<Rightarrow>
          (obind (map_err MeSqlite (fetch_node db (cp_experiment_id p) (cp_node_id p)))
             (ok_or (MeInvalidArgument ''inserted node not found'')), db)
      | (Err ConstraintViolation, db) \<Rightarrow>
          (obind (map_err MeSqlite (fetch_node db (cp_experiment_id p) (cp_node_id p))) (\<lambda>found.
           obind (ok_or MeAlreadyExists found) (\<lambda>existing.
           if nr_parent_node_id existing = cp_parent_node_id p
              \<and> nr_snapshot_ref existing = cp_snapshot_ref p
              \<and> nr_input_log_id existing = cp_input_log_id p
           then Ok existing else Err MeAlreadyExists)), db)
      | (Err e, db) \<Rightarrow> (Err (MeSqlite e), db)
      | (Panic, db) \<Rightarrow> (Panic, db))"

definition create_node_impl ::
  "(bytes \<Rightarrow> hash32) \<Rightarrow> meta_config \<Rightarrow> create_node_params \<Rightarrow> u64 \<Rightarrow> (tree_db, meta_error, node_row) op" where
  "create_node_impl blake3 config p counter =
     sbind (slift (check_root_rule p)) (\<lambda>_.
     sbind (\<lambda>db. (node_depth db p, db)) (\<lambda>depth.
     sbind (store_inline_log blake3 config p counter) (\<lambda>_.
     insert_or_existing p depth counter)))"

text \<open>The second pass of \<open>update_nodes_impl\<close> on one row: the statements of one update.\<close>

definition set_opt :: "('a \<Rightarrow> 'r \<Rightarrow> 'r) \<Rightarrow> 'a option \<Rightarrow> 'r \<Rightarrow> 'r" where
  "set_opt f v r = (case v of Some x \<Rightarrow> f x r | None \<Rightarrow> r)"

definition apply_update ::
  "(sql_num \<Rightarrow> i64 \<Rightarrow> sql_num) \<Rightarrow> u64 \<Rightarrow> node_update \<Rightarrow> node_sql \<Rightarrow> node_sql" where
  "apply_update sql_add counter u r =
     (let r = r\<lparr>c_updated_at := counter\<rparr>;
          r = set_opt (\<lambda>s r. r\<lparr>c_status := status_to_sql s\<rparr>) (nu_status u) r;
          r = set_opt (\<lambda>s r. r\<lparr>c_score := bind_f64 (Some s)\<rparr>) (nu_score u) r;
          r = set_opt (\<lambda>a r. r\<lparr>c_attrs := Some a\<rparr>) (nu_attrs u) r;
          r = (if nu_visit_count_delta u \<noteq> 0
               then r\<lparr>c_visit_count := sql_add (c_visit_count r) (nu_visit_count_delta u)\<rparr> else r);
          r = (if nu_touch_visited u then r\<lparr>c_last_visited_at := counter\<rparr> else r);
          r = set_opt (\<lambda>i r. r\<lparr>c_icount := i\<rparr>) (nu_icount u) r
      in set_opt (\<lambda>v r. r\<lparr>c_virtual_ns := v\<rparr>) (nu_virtual_ns u) r)"

definition update_one ::
  "(sql_num \<Rightarrow> i64 \<Rightarrow> sql_num) \<Rightarrow> string \<Rightarrow> u64 \<Rightarrow> node_update \<Rightarrow> tree_db \<Rightarrow> tree_db" where
  "update_one sql_add e counter u =
     update_where (\<lambda>r. node_key r = (e, node_id_to_sql (nu_node_id u)))
       (apply_update sql_add counter u)"

definition update_nodes_impl ::
  "(sql_num \<Rightarrow> i64 \<Rightarrow> sql_num) \<Rightarrow> experiment_id \<Rightarrow> node_update list \<Rightarrow> u64
     \<Rightarrow> (tree_db, meta_error, u64) op" where
  "update_nodes_impl sql_add experiment_id updates counter db =
     (if updates = [] then (Ok counter, db)
      else let e = experiment_str experiment_id;
               missing = filter (\<lambda>n. \<not> node_exists e (node_id_to_sql n) db) (map nu_node_id updates) in
      if missing \<noteq> [] then (Err (MeMissingNodes missing), db)
      else (Ok counter, fold (update_one sql_add e counter) updates db))"

section \<open>Key-value metadata\<close>

definition select_kv :: "bytes \<Rightarrow> tree_db \<Rightarrow> kv_sql option" where
  "select_kv key db = find (\<lambda>r. k_key r = key) (db_kv_metadata db)"

text \<open>\<open>SELECT generation FROM kv_metadata WHERE key=?\<close>, \<open>optional\<close>.\<close>

definition generation_of :: "bytes \<Rightarrow> tree_db \<Rightarrow> (meta_error, i64 option) outcome" where
  "generation_of key db =
     (case select_kv key db of
        None \<Rightarrow> Ok None
      | Some r \<Rightarrow> obind (map_err MeSqlite (get_i64 0 (k_generation r))) (\<lambda>g. Ok (Some g)))"

definition cas_failed :: "bytes \<Rightarrow> tree_db \<Rightarrow> (meta_error, 'a) outcome" where
  "cas_failed key db =
     obind (generation_of key db) (\<lambda>current.
     Err (MeCasFailed (case current of Some g \<Rightarrow> g | None \<Rightarrow> 0)))"

definition upsert_kv :: "kv_sql \<Rightarrow> tree_db \<Rightarrow> tree_db" where
  "upsert_kv r db =
     db\<lparr>db_kv_metadata :=
       (if select_kv (k_key r) db = None then db_kv_metadata db @ [r]
        else map (\<lambda>q. if k_key q = k_key r then r else q) (db_kv_metadata db))\<rparr>"

definition check_key :: "bytes \<Rightarrow> (meta_error, unit) outcome" where
  "check_key key =
     (if key = [] \<or> length key > KV_KEY_MAX
      then Err (MeInvalidArgument ''key length out of range'') else Ok ())"

definition put_metadata_impl ::
  "(sql_num \<Rightarrow> i64 \<Rightarrow> sql_num) \<Rightarrow> bytes \<Rightarrow> bytes \<Rightarrow> u64 option \<Rightarrow> u64
     \<Rightarrow> (tree_db, meta_error, u64) op" where
  "put_metadata_impl sql_add key value expected_generation counter =
     sbind (slift (check_key key)) (\<lambda>_ db.
     if length value > KV_VALUE_MAX
     then (Err (MeInvalidArgument ''value length exceeds max''), db)
     else case expected_generation of
       None \<Rightarrow>
         (case generation_of key db of
            Ok current_gen \<Rightarrow>
              let new_gen = (case current_gen of Some g \<Rightarrow> g + 1 | None \<Rightarrow> 1) in
              (Ok new_gen, upsert_kv \<lparr>k_key = key, k_value = value,
                 k_generation = SqlInt new_gen, k_updated_at = counter\<rparr> db)
          | Err e \<Rightarrow> (Err e, db)
          | Panic \<Rightarrow> (Panic, db))
     | Some expected_gen \<Rightarrow>
         if expected_gen = 0 then
           (if select_kv key db = None
            then (Ok 1, db\<lparr>db_kv_metadata := db_kv_metadata db @
                   [\<lparr>k_key = key, k_value = value, k_generation = SqlInt 1,
                     k_updated_at = counter\<rparr>]\<rparr>)
            else (cas_failed key db, db))
         else
           (let hit = (\<lambda>r. k_key r = key \<and> k_generation r = SqlInt expected_gen) in
            if filter hit (db_kv_metadata db) = [] then (cas_failed key db, db)
            else let db = db\<lparr>db_kv_metadata := map (\<lambda>r. if hit r
                     then r\<lparr>k_value := value, k_generation := sql_add (k_generation r) 1,
                            k_updated_at := counter\<rparr> else r) (db_kv_metadata db)\<rparr>
              in (obind (generation_of key db) (ok_or (MeSqlite QueryReturnedNoRows)), db)))"

definition delete_metadata_impl ::
  "bytes \<Rightarrow> u64 option \<Rightarrow> (tree_db, meta_error, bool) op" where
  "delete_metadata_impl key expected_generation =
     sbind (slift (check_key key)) (\<lambda>_ db.
     let hit = (\<lambda>r. k_key r = key \<and>
                  (case expected_generation of None \<Rightarrow> True | Some g \<Rightarrow> k_generation r = SqlInt g));
         rows = length (filter hit (db_kv_metadata db));
         db = db\<lparr>db_kv_metadata := filter (\<lambda>r. \<not> hit r) (db_kv_metadata db)\<rparr> in
     if rows = 0 then
       (if expected_generation \<noteq> None then
          (obind (generation_of key db) (\<lambda>current.
             case current of Some cur \<Rightarrow> Err (MeCasFailed cur) | None \<Rightarrow> Ok False), db)
        else (Ok False, db))
     else (Ok True, db))"

section \<open>Pins\<close>

definition pin_impl :: "snapshot_ref \<Rightarrow> string option \<Rightarrow> u64 \<Rightarrow> (tree_db, meta_error, unit) op" where
  "pin_impl snapshot_ref note counter db =
     (Ok (), if snapshot_ref_to_sql snapshot_ref \<in> p_snapshot_ref ` set (db_pins db) then db
             else db\<lparr>db_pins := db_pins db @
               [\<lparr>p_snapshot_ref = snapshot_ref_to_sql snapshot_ref, p_note = note,
                 p_created_at = counter\<rparr>]\<rparr>)"

definition unpin_impl :: "snapshot_ref \<Rightarrow> (tree_db, meta_error, bool) op" where
  "unpin_impl snapshot_ref db =
     (let hit = (\<lambda>r. p_snapshot_ref r = snapshot_ref_to_sql snapshot_ref) in
      (Ok (length (filter hit (db_pins db)) > 0),
       db\<lparr>db_pins := filter (\<lambda>r. \<not> hit r) (db_pins db)\<rparr>))"

section \<open>Pruning and reaping\<close>

definition tombstone_key :: "tombstone_sql \<Rightarrow> node_key" where
  "tombstone_key t = (t_experiment_id t, t_node_id t)"

definition insert_tombstone :: "tombstone_sql \<Rightarrow> tree_db \<Rightarrow> tree_db" where
  "insert_tombstone t db =
     (if tombstone_key t \<in> tombstone_key ` set (db_tombstones db) then db
      else db\<lparr>db_tombstones := db_tombstones db @ [t]\<rparr>)"

definition prune_subtree_impl ::
  "experiment_id \<Rightarrow> node_id \<Rightarrow> bool \<Rightarrow> u64 \<Rightarrow> (tree_db, meta_error, u64) op" where
  "prune_subtree_impl experiment_id node_id allow_root counter db =
     (if is_root node_id \<and> \<not> allow_root then (Err MePruneRootDenied, db)
      else let exp_str = experiment_str experiment_id; node_sql = node_id_to_sql node_id in
      if \<not> node_exists exp_str node_sql db then (Err (MeMissingNodes [node_id]), db)
      else case subtree db exp_str node_sql of
        None \<Rightarrow> (Panic, db)
      | Some keys \<Rightarrow>
          let hit = (\<lambda>r. node_key r \<in> set keys);
              rows_updated = length (filter hit (db_nodes db));
              db = update_where hit
                (\<lambda>r. r\<lparr>c_status := status_to_sql Pruned, c_updated_at := counter\<rparr>) db;
              db = insert_tombstone
                \<lparr>t_experiment_id = exp_str, t_node_id = node_sql, t_created_at = counter\<rparr> db
          in (Ok (of_nat rows_updated), db))"

definition delete_unreferenced_logs :: "tree_db \<Rightarrow> tree_db" where
  "delete_unreferenced_logs db =
     (let used = List.map_filter c_input_log_id (db_nodes db) in
      db\<lparr>db_input_logs := filter (\<lambda>l. l_log_id l \<in> set used) (db_input_logs db)\<rparr>)"

definition reap_tombstone_impl :: "experiment_id \<Rightarrow> node_id \<Rightarrow> (tree_db, meta_error, u64) op" where
  "reap_tombstone_impl experiment_id node_id db =
     (let exp_str = experiment_str experiment_id; node_sql = node_id_to_sql node_id in
      if \<not> node_exists exp_str node_sql db then (Ok 0, db)
      else case subtree db exp_str node_sql of
        None \<Rightarrow> (Panic, db)
      | Some keys \<Rightarrow>
          if length (filter (\<lambda>r. node_key r \<in> set keys \<and> c_status r \<noteq> status_to_sql Pruned)
                       (db_nodes db)) > 0
          then (Err (MeInvalidArgument ''reap_tombstone: non-PRUNED rows; refusing to delete''), db)
          else case delete_nodes (\<lambda>r. node_key r \<in> set keys) db of
            (Ok rows_deleted, db) \<Rightarrow>
              let db = delete_unreferenced_logs db;
                  db = db\<lparr>db_tombstones :=
                    filter (\<lambda>t. tombstone_key t \<noteq> (exp_str, node_sql)) (db_tombstones db)\<rparr>
              in (Ok (of_nat rows_deleted), db)
          | (Err e, db) \<Rightarrow> (Err (MeSqlite e), db)
          | (Panic, db) \<Rightarrow> (Panic, db))"

definition set_gc_state_impl :: "gc_state_row \<Rightarrow> (tree_db, meta_error, unit) op" where
  "set_gc_state_impl s db =
     (if db_gc_state db = None
      then (Err (MeIo ''set_gc_state: singleton gc_state row (id=1) missing''), db)
      else (Ok (), db\<lparr>db_gc_state := Some
             \<lparr>g_cycles_total = gs_cycles_total s, g_last_fence_counter = gs_last_fence_counter s,
              g_last_finished_at = gs_last_finished_at s,
              g_last_freed_bytes = gs_last_freed_bytes s\<rparr>\<rparr>))"

end
