(* ===== verification/Meta_Tree.thy ===== *)
theory Meta_Tree
  imports Meta_Commands
begin

text \<open>
  The invariant of the metadata tables, and what the recursive queries compute on tables that
  satisfy it.  Every node but a root has its parent in the table, created earlier; so a walk
  from a node to its children, or to its parent, ends, and the subtree that a prune or a reap
  works on is exactly the set of descendants.
\<close>

section \<open>The invariant\<close>

definition exp_str_ok :: "string \<Rightarrow> bool" where
  "exp_str_ok s \<longleftrightarrow> s \<noteq> [] \<and> length s \<le> EXPERIMENT_ID_MAX_BYTES"

text \<open>A row that \<open>row_to_node\<close> can decode, with the root rule.\<close>

definition row_wf :: "node_sql \<Rightarrow> bool" where
  "row_wf r \<longleftrightarrow>
     exp_str_ok (c_experiment_id r)
     \<and> length (c_snapshot_ref r) = 32
     \<and> (\<forall>l. c_input_log_id r = Some l \<longrightarrow> length l = 32)
     \<and> c_status r \<in> range status_to_sql
     \<and> (c_node_id r = 0 \<longleftrightarrow> c_parent_node_id r = None)"

text \<open>\<open>q\<close> is the row of the parent of \<open>r\<close>.\<close>

definition parent_row :: "node_sql \<Rightarrow> node_sql \<Rightarrow> bool" where
  "parent_row r q \<longleftrightarrow>
     c_parent_node_id r = Some (c_node_id q) \<and> c_experiment_id q = c_experiment_id r"

definition child_depth :: "node_sql \<Rightarrow> i64" where
  "child_depth q = ucast (ucast (c_depth q) + 1 :: u32)"

text \<open>A root has depth zero; every other row has its parent in the table.\<close>

definition placed :: "node_sql list \<Rightarrow> node_sql \<Rightarrow> bool" where
  "placed ns r \<longleftrightarrow>
     (if c_parent_node_id r = None then c_depth r = 0
      else \<exists>q \<in> set ns. parent_row r q \<and> unat (c_created_at q) < unat (c_created_at r)
                      \<and> c_depth r = child_depth q)"

definition nodes_inv :: "nat \<Rightarrow> node_sql list \<Rightarrow> bool" where
  "nodes_inv c ns \<longleftrightarrow>
     distinct (map node_key ns) \<and> distinct (map c_created_at ns)
     \<and> (\<forall>r \<in> set ns. row_wf r \<and> unat (c_created_at r) < c \<and> unat (c_updated_at r) < c
          \<and> placed ns r)"

text \<open>A stored log has the id that its content hashes to.\<close>

definition log_wf :: "(bytes \<Rightarrow> hash32) \<Rightarrow> log_sql \<Rightarrow> bool" where
  "log_wf blake3 l \<longleftrightarrow>
     INPUT_LOG_MIN_BYTES \<le> length (l_content l)
     \<and> l_log_id l = log_id_to_sql (log_id_of blake3 (l_content l))
     \<and> l_inner_format_version l = ucast (from_le_bytes (take 4 (drop 8 (l_content l))) :: u32)"

definition tree_inv :: "(bytes \<Rightarrow> hash32) \<Rightarrow> nat \<Rightarrow> tree_db \<Rightarrow> bool" where
  "tree_inv blake3 c db \<longleftrightarrow>
     nodes_inv c (db_nodes db)
     \<and> distinct (map l_log_id (db_input_logs db))
     \<and> (\<forall>l \<in> set (db_input_logs db). log_wf blake3 l)
     \<and> (\<forall>r \<in> set (db_nodes db). \<forall>l. c_input_log_id r = Some l
          \<longrightarrow> l \<in> l_log_id ` set (db_input_logs db))
     \<and> distinct (map k_key (db_kv_metadata db))
     \<and> distinct (map p_snapshot_ref (db_pins db))
     \<and> (\<forall>p \<in> set (db_pins db). length (p_snapshot_ref p) = 32)
     \<and> distinct (map tombstone_key (db_tombstones db))
     \<and> (\<forall>t \<in> set (db_tombstones db). exp_str_ok (t_experiment_id t))
     \<and> db_meta db \<noteq> None \<and> db_gc_state db \<noteq> None"

lemma nodes_inv_row:
  assumes "nodes_inv c ns" "r \<in> set ns"
  shows "row_wf r" "unat (c_created_at r) < c" "unat (c_updated_at r) < c"
    "c_parent_node_id r = Some p \<Longrightarrow>
       \<exists>q \<in> set ns. node_key q = (c_experiment_id r, p)
         \<and> unat (c_created_at q) < unat (c_created_at r) \<and> c_depth r = child_depth q"
proof -
  have r: "row_wf r \<and> unat (c_created_at r) < c \<and> unat (c_updated_at r) < c \<and> placed ns r"
    using assms by (simp add: nodes_inv_def)
  then show "row_wf r" "unat (c_created_at r) < c" "unat (c_updated_at r) < c"
    by simp_all
  assume "c_parent_node_id r = Some p"
  with r show "\<exists>q \<in> set ns. node_key q = (c_experiment_id r, p)
         \<and> unat (c_created_at q) < unat (c_created_at r) \<and> c_depth r = child_depth q"
    by (auto simp: placed_def parent_row_def node_key_def)
qed

lemma nodes_inv_key: "nodes_inv c ns \<Longrightarrow> r \<in> set ns \<Longrightarrow> q \<in> set ns \<Longrightarrow> node_key r = node_key q \<Longrightarrow> r = q"
  by (simp add: nodes_inv_def distinct_map inj_on_def)

lemma nodes_inv_mono: "nodes_inv c ns \<Longrightarrow> c \<le> c' \<Longrightarrow> nodes_inv c' ns"
  unfolding nodes_inv_def by (meson less_le_trans)

text \<open>Updates that leave alone what identifies a row and what ties it to its parent.\<close>

definition same_place :: "node_sql \<Rightarrow> node_sql \<Rightarrow> bool" where
  "same_place r q \<longleftrightarrow>
     c_experiment_id q = c_experiment_id r \<and> c_node_id q = c_node_id r
     \<and> c_parent_node_id q = c_parent_node_id r \<and> c_depth q = c_depth r
     \<and> c_snapshot_ref q = c_snapshot_ref r \<and> c_input_log_id q = c_input_log_id r
     \<and> c_created_at q = c_created_at r"

lemma same_place_key: "same_place r q \<Longrightarrow> node_key q = node_key r"
  by (simp add: same_place_def node_key_def)

lemma nodes_inv_map:
  assumes inv: "nodes_inv c ns" and le: "c \<le> c'"
    and f: "\<And>r. r \<in> set ns \<Longrightarrow>
      same_place r (f r) \<and> c_status (f r) \<in> range status_to_sql \<and> unat (c_updated_at (f r)) < c'"
  shows "nodes_inv c' (map f ns)"
proof -
  have keys: "map (node_key \<circ> f) ns = map node_key ns" "map (c_created_at \<circ> f) ns = map c_created_at ns"
    using f by (auto simp: same_place_def node_key_def)
  have row: "row_wf (f r) \<and> unat (c_created_at (f r)) < c' \<and> unat (c_updated_at (f r)) < c'"
    if r: "r \<in> set ns" for r
    using nodes_inv_row(1,2)[OF inv r] f[OF r] le by (auto simp: same_place_def row_wf_def)
  have "placed (map f ns) (f r)" if r: "r \<in> set ns" for r
  proof -
    have "\<exists>q \<in> f ` set ns. parent_row (f r) q \<and> unat (c_created_at q) < unat (c_created_at (f r))
        \<and> c_depth (f r) = child_depth q"
      if "q \<in> set ns" "parent_row r q" "unat (c_created_at q) < unat (c_created_at r)"
        "c_depth r = child_depth q" for q
      by (rule bexI[of _ "f q"])
        (use f[OF r] f[OF that(1)] that in \<open>auto simp: same_place_def parent_row_def child_depth_def\<close>)
    moreover have "placed ns r"
      using inv r by (simp add: nodes_inv_def)
    ultimately show ?thesis
      using f[OF r] by (auto simp: placed_def same_place_def split: if_splits)
  qed
  then show ?thesis
    using inv row by (simp add: nodes_inv_def keys)
qed

text \<open>Removing a set of rows that contains the children of its rows.\<close>

lemma nodes_inv_filter:
  assumes inv: "nodes_inv c ns"
    and closed: "\<And>r q. r \<in> set ns \<Longrightarrow> q \<in> set ns \<Longrightarrow> parent_row r q \<Longrightarrow> hit q \<Longrightarrow> hit r"
  shows "nodes_inv c (filter (\<lambda>r. \<not> hit r) ns)"
proof -
  have "placed (filter (\<lambda>r. \<not> hit r) ns) r" if r: "r \<in> set ns" "\<not> hit r" for r
  proof -
    have "placed ns r"
      using inv r by (simp add: nodes_inv_def)
    then show ?thesis
      using closed[OF r(1)] r(2) by (auto simp: placed_def split: if_splits)
  qed
  then show ?thesis
    using inv by (simp add: nodes_inv_def distinct_map_filter)
qed

lemma nodes_inv_fk_ok:
  assumes "nodes_inv c ns"
  shows "fk_ok ns"
proof -
  have "(c_experiment_id r, p) \<in> node_key ` set ns"
    if "r \<in> set ns" "c_parent_node_id r = Some p" for r p
    using nodes_inv_row(4)[OF assms that] by (metis image_eqI)
  then show ?thesis
    by (simp add: fk_ok_def split: option.splits)
qed

section \<open>Recursive queries\<close>

lemma rtrancl_Image_unfold: "R\<^sup>* `` S = S \<union> R\<^sup>* `` (R `` S)"
  by (auto elim: converse_rtranclE intro: converse_rtrancl_into_rtrancl)

lemma rec_cte_reaches:
  assumes step: "\<And>ks. set (step ks) = R `` set ks"
    and rank: "\<And>k k'. (k, k') \<in> R \<Longrightarrow> rank k < rank k' \<and> rank k' < (c :: nat)"
  shows "\<forall>k \<in> set f. rank k < c \<and> c - rank k \<le> n \<Longrightarrow>
    \<exists>rs. rec_cte step f = Some rs \<and> set rs = R\<^sup>* `` set f"
proof (induction n arbitrary: f)
  case 0
  then have "f = []"
    by (cases f) auto
  then show ?case
    by (simp add: rec_cte.simps)
next
  case (Suc n)
  have "\<forall>k \<in> set (step f). rank k < c \<and> c - rank k \<le> n"
  proof
    fix k' assume "k' \<in> set (step f)"
    then obtain k where "k \<in> set f" "(k, k') \<in> R"
      by (auto simp: step)
    then show "rank k' < c \<and> c - rank k' \<le> n"
      using Suc.prems rank[of k k'] by fastforce
  qed
  from Suc.IH[OF this] obtain rs where rs: "rec_cte step (step f) = Some rs"
    "set rs = R\<^sup>* `` (R `` set f)"
    by (auto simp: step)
  show ?case
    using rs rtrancl_Image_unfold[of R "set f"] by (cases "f = []") (simp_all add: rec_cte.simps[of step f] rec_cte.simps[of step "[]"])
qed

definition child_rel :: "node_sql list \<Rightarrow> (node_key \<times> node_key) set" where
  "child_rel ns = {(node_key q, node_key r) | q r. q \<in> set ns \<and> r \<in> set ns \<and> parent_row r q}"

text \<open>\<open>r\<close> is in the subtree of the node with key \<open>k\<close>.\<close>

definition below :: "node_sql list \<Rightarrow> node_key \<Rightarrow> node_sql \<Rightarrow> bool" where
  "below ns k r \<longleftrightarrow> (k, node_key r) \<in> (child_rel ns)\<^sup>*"

lemma child_keys_set:
  assumes inv: "nodes_inv c (db_nodes db)"
  shows "set (child_keys db ks) = child_rel (db_nodes db) `` set ks"
proof -
  have "(k, node_key r) \<in> child_rel (db_nodes db)"
    if r: "r \<in> set (db_nodes db)" and k: "c_experiment_id r = fst k" "c_parent_node_id r = Some (snd k)"
    for k r
  proof -
    obtain q where "q \<in> set (db_nodes db)" "node_key q = k"
      using nodes_inv_row(4)[OF inv r k(2)] k(1) by (metis prod.collapse)
    then show ?thesis
      using r k unfolding child_rel_def
      by (intro CollectI exI[of _ q] exI[of _ r]) (auto simp: node_key_def parent_row_def)
  qed
  then have "set (child_keys db ks) \<subseteq> child_rel (db_nodes db) `` set ks"
    by (fastforce simp: child_keys_def)
  moreover have "child_rel (db_nodes db) `` set ks \<subseteq> set (child_keys db ks)"
    by (fastforce simp: child_keys_def child_rel_def node_key_def parent_row_def)
  ultimately show ?thesis
    by blast
qed

text \<open>The time at which the node with a key was created.\<close>

definition key_rank :: "node_sql list \<Rightarrow> node_key \<Rightarrow> nat" where
  "key_rank ns k = (case find (\<lambda>r. node_key r = k) ns of Some r \<Rightarrow> unat (c_created_at r) | None \<Rightarrow> 0)"

lemma find_node_key:
  assumes "nodes_inv c ns" "r \<in> set ns"
  shows "find (\<lambda>q. node_key q = node_key r) ns = Some r"
proof -
  have "find (\<lambda>q. node_key q = node_key r) ns \<noteq> None"
    using assms(2) by (auto simp: find_None_iff)
  then obtain q where q: "find (\<lambda>q. node_key q = node_key r) ns = Some q"
    by auto
  then have "q \<in> set ns" "node_key q = node_key r"
    by (auto simp: find_Some_iff)
  then show ?thesis
    using q nodes_inv_key[OF assms(1) _ assms(2)] by blast
qed

lemma key_rank_node: "nodes_inv c ns \<Longrightarrow> r \<in> set ns \<Longrightarrow> key_rank ns (node_key r) = unat (c_created_at r)"
  by (simp add: key_rank_def find_node_key)

lemma child_rel_rank:
  assumes inv: "nodes_inv c ns" and k: "(k, k') \<in> child_rel ns"
  shows "key_rank ns k < key_rank ns k' \<and> key_rank ns k' < c"
proof -
  obtain q r where q: "k = node_key q" "q \<in> set ns" and r: "k' = node_key r" "r \<in> set ns"
    and p: "parent_row r q"
    using k by (auto simp: child_rel_def)
  obtain q' where "q' \<in> set ns" "node_key q' = node_key q" "unat (c_created_at q') < unat (c_created_at r)"
    using nodes_inv_row(4)[OF inv r(2)] p by (auto simp: parent_row_def node_key_def)
  then have "unat (c_created_at q) < unat (c_created_at r)"
    using nodes_inv_key[OF inv _ q(2)] by blast
  then show ?thesis
    using nodes_inv_row(2)[OF inv r(2)] by (simp add: q(1) r(1) key_rank_node[OF inv] q(2) r(2))
qed

lemma subtree_ends:
  assumes inv: "nodes_inv c (db_nodes db)" and ex: "node_exists e n db"
  obtains keys where "subtree db e n = Some keys"
    "\<And>r. r \<in> set (db_nodes db) \<Longrightarrow> node_key r \<in> set keys \<longleftrightarrow> below (db_nodes db) (e, n) r"
proof -
  let ?ns = "db_nodes db"
  let ?f = "map node_key (filter (\<lambda>r. node_key r = (e, n)) ?ns)"
  have f: "set ?f = {(e, n)}"
    using ex by (auto simp: node_exists_def filter_empty_conv)
  obtain r where r: "r \<in> set ?ns" "node_key r = (e, n)"
    using ex by (auto simp: node_exists_def filter_empty_conv)
  have "\<forall>k \<in> set ?f. key_rank ?ns k < c \<and> c - key_rank ?ns k \<le> c"
    using key_rank_node[OF inv r(1)] nodes_inv_row(2)[OF inv r(1)] r(2) unfolding f by simp
  from rec_cte_reaches[OF child_keys_set[OF inv] child_rel_rank[OF inv] this]
  obtain keys where "subtree db e n = Some keys" "set keys = (child_rel ?ns)\<^sup>* `` set ?f"
    unfolding subtree_def by blast
  then show thesis
    using that f by (auto simp: below_def)
qed

lemma below_child:
  assumes "below ns k q" "q \<in> set ns" "r \<in> set ns" "parent_row r q"
  shows "below ns k r"
  using assms unfolding below_def child_rel_def
  by (metis (mono_tags, lifting) mem_Collect_eq rtrancl.rtrancl_into_rtrancl)

lemma below_self: "node_key r = k \<Longrightarrow> below ns k r"
  by (simp add: below_def)

lemma child_rel_eq:
  "child_rel ns = (\<lambda>(q, r). (node_key q, node_key r)) ` {(q, r). q \<in> set ns \<and> r \<in> set ns \<and> parent_row r q}"
  by (auto simp: child_rel_def image_def)

lemma child_rel_map:
  assumes f: "\<And>r. r \<in> set ns \<Longrightarrow> same_place r (f r)"
  shows "child_rel (map f ns) = child_rel ns"
proof -
  have p: "parent_row (f r) (f q) \<longleftrightarrow> parent_row r q" if "q \<in> set ns" "r \<in> set ns" for q r
    using f[OF that(1)] f[OF that(2)] by (simp add: same_place_def parent_row_def)
  have "{(q, r). q \<in> f ` set ns \<and> r \<in> f ` set ns \<and> parent_row r q}
      = (\<lambda>(q, r). (f q, f r)) ` {(q, r). q \<in> set ns \<and> r \<in> set ns \<and> parent_row r q}"
    using p by auto
  then have "child_rel (map f ns)
      = (\<lambda>(q, r). (node_key (f q), node_key (f r))) ` {(q, r). q \<in> set ns \<and> r \<in> set ns \<and> parent_row r q}"
    unfolding child_rel_eq by (simp add: image_image case_prod_unfold)
  also have "\<dots> = child_rel ns"
    unfolding child_rel_eq by (rule image_cong) (auto simp: same_place_key[OF f])
  finally show ?thesis .
qed

end
