(* ===== verification/Meta_Invariant.thy ===== *)
theory Meta_Invariant
  imports Meta_Tree
begin

text \<open>
  Every command of \<^verbatim>\<open>Meta_Commands\<close> keeps the invariant of \<^verbatim>\<open>Meta_Tree\<close>, whatever it
  returns.  The number \<open>c\<close> is the value of the logical counter that the command stamps.
\<close>

lemma tree_inv_mono: "tree_inv blake3 c db \<Longrightarrow> c \<le> c' \<Longrightarrow> tree_inv blake3 c' db"
  unfolding tree_inv_def using nodes_inv_mono by blast

lemma tree_inv_nodes: "tree_inv blake3 c db \<Longrightarrow> nodes_inv c (db_nodes db)"
  by (simp add: tree_inv_def)

lemma find_key_None: "find (\<lambda>r. f r = k) xs = None \<longleftrightarrow> k \<notin> f ` set xs"
  by (auto simp: find_None_iff)

section \<open>Reading rows\<close>

definition exp_valid :: "experiment_id \<Rightarrow> bool" where
  "exp_valid e \<longleftrightarrow> experiment_id_new (experiment_str e) = Ok e"

lemma experiment_id_new_ok: "exp_str_ok s \<Longrightarrow> experiment_id_new s = Ok (ExperimentId s)"
  by (simp add: exp_str_ok_def experiment_id_new_def)

lemma exp_valid_iff: "exp_valid e \<longleftrightarrow> exp_str_ok (experiment_str e)"
  by (cases e) (simp add: exp_valid_def experiment_id_new_def exp_str_ok_def)

lemma length_snapshot_ref_to_sql [simp]: "length (snapshot_ref_to_sql r) = 32"
  by (cases r) (simp add: snapshot_ref_to_sql_def)

lemma length_log_id_to_sql [simp]: "length (log_id_to_sql r) = 32"
  by (cases r) (simp add: log_id_to_sql_def)

text \<open>The row of Rust that a well-formed row of the table decodes to.\<close>

definition node_of :: "node_sql \<Rightarrow> u64 \<Rightarrow> node_row" where
  "node_of r visits =
     \<lparr>nr_experiment_id = ExperimentId (c_experiment_id r), nr_node_id = NodeId (c_node_id r),
      nr_parent_node_id = map_option NodeId (c_parent_node_id r), nr_depth = ucast (c_depth r),
      nr_snapshot_ref = snapshot_ref_from_bytes (c_snapshot_ref r),
      nr_input_log_id = map_option log_id_from_bytes (c_input_log_id r),
      nr_status = the (node_status_from_u8 (ucast (c_status r))), nr_score = c_score r,
      nr_visit_count = visits, nr_icount = c_icount r, nr_virtual_ns = c_virtual_ns r,
      nr_created_at = c_created_at r, nr_updated_at = c_updated_at r,
      nr_last_visited_at = c_last_visited_at r, nr_attrs = c_attrs r\<rparr>"

lemma row_to_node_wf:
  assumes "row_wf r"
  shows "row_to_node r =
    (case c_visit_count r of SqlInt v \<Rightarrow> Ok (node_of r v) | SqlReal _ \<Rightarrow> Err (InvalidColumnType 8))"
proof -
  obtain s where s: "c_status r = status_to_sql s"
    using assms by (auto simp: row_wf_def)
  have e: "experiment_id_new (c_experiment_id r) = Ok (ExperimentId (c_experiment_id r))"
    using assms by (simp add: row_wf_def experiment_id_new_ok)
  have sn: "slice 0 32 (c_snapshot_ref r) = Ok (c_snapshot_ref r)"
    using assms by (simp add: row_wf_def slice_def)
  have l: "(case c_input_log_id r of None \<Rightarrow> Ok None
      | Some b \<Rightarrow> obind (slice 0 32 b) (\<lambda>arr. Ok (Some (log_id_from_bytes arr))))
      = (Ok (map_option log_id_from_bytes (c_input_log_id r)) :: (sqlite_error, log_id option) outcome)"
    using assms by (auto simp: row_wf_def slice_def split: option.splits)
  show ?thesis
    by (cases "c_visit_count r") (simp_all add: row_to_node_def s e sn l node_of_def)
qed

lemma ucast_depth [simp]: "ucast (ucast d :: i64) = (d :: u32)"
  by (rule bit_word_eqI) (simp add: bit_unsigned_iff)

lemma row_to_node_new:
  assumes "exp_valid (cp_experiment_id p)"
  shows "row_to_node (new_node_sql p depth counter) = Ok
    \<lparr>nr_experiment_id = cp_experiment_id p, nr_node_id = cp_node_id p,
     nr_parent_node_id = cp_parent_node_id p, nr_depth = depth,
     nr_snapshot_ref = cp_snapshot_ref p, nr_input_log_id = cp_input_log_id p,
     nr_status = cp_status p, nr_score = bind_f64 (cp_score p), nr_visit_count = 0,
     nr_icount = cp_icount p, nr_virtual_ns = cp_virtual_ns p, nr_created_at = counter,
     nr_updated_at = counter, nr_last_visited_at = 0, nr_attrs = cp_attrs p\<rparr>"
proof -
  have "map_option NodeId (map_option node_id_to_sql (cp_parent_node_id p)) = cp_parent_node_id p"
    by (cases "cp_parent_node_id p") simp_all
  moreover have "snapshot_ref_from_bytes (snapshot_ref_to_sql r) = r" for r
    by (simp add: snapshot_ref_to_sql_def)
  moreover have "log_id_from_bytes (log_id_to_sql l) = l" for l
    by (cases l) (simp add: log_id_to_sql_def log_id_from_bytes_def le_codec)
  ultimately show ?thesis
    using assms
    by (cases "cp_input_log_id p")
      (simp_all add: row_to_node_def new_node_sql_def exp_valid_def slice_def)
qed

lemma select_node_in:
  assumes "select_node e n db = Some r"
  shows "r \<in> set (db_nodes db)" "node_key r = (e, n)"
  using assms by (auto simp: select_node_def find_Some_iff)

lemma select_node_Some:
  "nodes_inv c (db_nodes db) \<Longrightarrow> r \<in> set (db_nodes db) \<Longrightarrow> node_key r = (e, n)
     \<Longrightarrow> select_node e n db = Some r"
  using find_node_key[of c "db_nodes db" r] by (simp add: select_node_def)

lemma node_exists_iff: "node_exists e n db \<longleftrightarrow> (e, n) \<in> node_key ` set (db_nodes db)"
  by (force simp: node_exists_def filter_empty_conv)

lemma select_log_None: "select_log l db = None \<longleftrightarrow> l \<notin> l_log_id ` set (db_input_logs db)"
  by (simp add: select_log_def find_key_None)

section \<open>Input logs\<close>

lemma put_input_log_inv:
  assumes inv: "tree_inv blake3 c db"
    and put: "put_input_log_impl blake3 config log_id container counter db = (res, db')"
  shows "tree_inv blake3 c db'" "db_nodes db' = db_nodes db"
    "res = Ok b \<Longrightarrow> log_id_to_sql log_id \<in> l_log_id ` set (db_input_logs db')"
    "set (db_input_logs db) \<subseteq> set (db_input_logs db')"
proof -
  note defs = put_input_log_impl_def Let_def select_log_None
  show "db_nodes db' = db_nodes db" "set (db_input_logs db) \<subseteq> set (db_input_logs db')"
    "res = Ok b \<Longrightarrow> log_id_to_sql log_id \<in> l_log_id ` set (db_input_logs db')"
    using put by (auto simp: defs split: if_splits)
  show "tree_inv blake3 c db'"
    using put inv unfolding tree_inv_def
    by (auto simp: defs log_wf_def log_id_of_def SILG_FOOTER_LEN_def INPUT_LOG_MIN_BYTES_def
        split: if_splits)
qed

lemma store_inline_log_inv:
  assumes inv: "tree_inv blake3 c db"
    and put: "store_inline_log blake3 config p counter db = (res, db')"
  shows "tree_inv blake3 c db' \<and> db_nodes db' = db_nodes db
    \<and> (res = Ok () \<longrightarrow> (\<forall>l. cp_input_log_id p = Some l
         \<longrightarrow> log_id_to_sql l \<in> l_log_id ` set (db_input_logs db')))"
proof (cases "cp_input_log_id p")
  case None
  then show ?thesis
    using put inv by (simp add: store_inline_log_def)
next
  case (Some l)
  show ?thesis
  proof (cases "select_log (log_id_to_sql l) db")
    case None
    show ?thesis
    proof (cases "cp_inline_log_container p")
      case (Some container)
      obtain res' where put': "put_input_log_impl blake3 config l container counter db = (res', db')"
        and ok: "res = Ok () \<Longrightarrow> \<exists>b. res' = Ok b"
        using put \<open>cp_input_log_id p = Some l\<close> None Some
        by (auto simp: store_inline_log_def sbind_def sreturn_def split: prod.splits outcome.splits)
      show ?thesis
        using put_input_log_inv[OF inv put'] ok \<open>cp_input_log_id p = Some l\<close> by auto
    qed (use put inv \<open>cp_input_log_id p = Some l\<close> None in \<open>auto simp: store_inline_log_def\<close>)
  next
    case (Some r)
    then have "log_id_to_sql l \<in> l_log_id ` set (db_input_logs db)"
      using select_log_None[of "log_id_to_sql l" db] by simp
    then show ?thesis
      using put inv \<open>cp_input_log_id p = Some l\<close> Some by (simp add: store_inline_log_def)
  qed
qed

section \<open>Nodes\<close>

lemma fetch_node_Ok:
  assumes "nodes_inv c (db_nodes db)" "fetch_node db e n = Ok (Some row)"
  obtains r v where "r \<in> set (db_nodes db)" "node_key r = (experiment_str e, node_id_to_sql n)"
    "row = node_of r v"
proof -
  obtain r where r: "select_node (experiment_str e) (node_id_to_sql n) db = Some r"
    "row_to_node r = Ok row"
    using assms(2) by (auto simp: fetch_node_def obind_eq_Ok split: option.splits)
  then have "row_wf r"
    using nodes_inv_row(1)[OF assms(1)] select_node_in by blast
  then obtain v where "row = node_of r v"
    using r(2) by (auto simp: row_to_node_wf split: sql_num.splits)
  then show thesis
    using that select_node_in[OF r(1)] by blast
qed

lemma node_depth_placed:
  assumes inv: "nodes_inv c (db_nodes db)" and root: "check_root_rule p = Ok ()"
    and depth: "node_depth db p = Ok depth" and counter: "unat counter = c"
  shows "placed (db_nodes db @ ns) (new_node_sql p depth counter)"
proof (cases "cp_parent_node_id p")
  case None
  then show ?thesis
    using depth by (simp add: node_depth_def placed_def new_node_sql_def)
next
  case (Some parent)
  then obtain row where row: "fetch_node db (cp_experiment_id p) parent = Ok (Some row)"
    "depth = nr_depth row + 1"
    using depth by (auto simp: node_depth_def obind_eq_Ok split: if_splits)
  obtain q v where q: "q \<in> set (db_nodes db)" "row = node_of q v"
    "node_key q = (experiment_str (cp_experiment_id p), node_id_to_sql parent)"
    using fetch_node_Ok[OF inv row(1)] by blast
  then have "parent_row (new_node_sql p depth counter) q"
    "c_depth (new_node_sql p depth counter) = child_depth q"
    using Some row(2)
    by (auto simp: parent_row_def node_key_def new_node_sql_def child_depth_def node_of_def)
  then show ?thesis
    using q(1) nodes_inv_row(2)[OF inv q(1)] counter Some
    by (auto simp: placed_def new_node_sql_def)
qed

lemma placed_append: "placed ns r \<Longrightarrow> placed (ns @ ns') r"
  by (auto simp: placed_def split: if_splits)

lemma row_wf_new:
  assumes "exp_valid (cp_experiment_id p)" "check_root_rule p = Ok ()"
  shows "row_wf (new_node_sql p depth counter)"
  using assms
  by (auto simp: row_wf_def new_node_sql_def exp_valid_iff check_root_rule_def is_root_to_sql
      split: if_splits)

lemma nodes_inv_insert:
  assumes inv: "nodes_inv c ns" and counter: "unat counter = c"
    and p: "exp_valid (cp_experiment_id p)" "check_root_rule p = Ok ()"
    and new: "node_key (new_node_sql p depth counter) \<notin> node_key ` set ns"
    and placed: "placed (ns @ [new_node_sql p depth counter]) (new_node_sql p depth counter)"
  shows "nodes_inv (Suc c) (ns @ [new_node_sql p depth counter])"
proof -
  have stamp: "c_created_at (new_node_sql p depth counter) = counter"
    "c_updated_at (new_node_sql p depth counter) = counter"
    by (simp_all add: new_node_sql_def)
  have "counter \<notin> c_created_at ` set ns"
    using nodes_inv_row(2)[OF inv] counter by auto
  moreover have "placed (ns @ [new_node_sql p depth counter]) r"
    "row_wf r \<and> unat (c_created_at r) < Suc c \<and> unat (c_updated_at r) < Suc c" if "r \<in> set ns" for r
    using inv that by (auto simp: nodes_inv_def intro: placed_append)
  ultimately show ?thesis
    using inv new placed row_wf_new[OF p] counter by (simp add: nodes_inv_def stamp)
qed

lemma tree_inv_insert:
  assumes inv: "tree_inv blake3 c db" and counter: "unat counter = c"
    and p: "exp_valid (cp_experiment_id p)" "check_root_rule p = Ok ()"
    and depth: "node_depth db0 p = Ok depth" "db_nodes db0 = db_nodes db"
    and log: "\<forall>l. cp_input_log_id p = Some l \<longrightarrow> log_id_to_sql l \<in> l_log_id ` set (db_input_logs db)"
    and new: "node_key (new_node_sql p depth counter) \<notin> node_key ` set (db_nodes db)"
  shows "tree_inv blake3 (Suc c) (db\<lparr>db_nodes := db_nodes db @ [new_node_sql p depth counter]\<rparr>)"
proof -
  have "placed (db_nodes db @ [new_node_sql p depth counter]) (new_node_sql p depth counter)"
    using node_depth_placed[OF _ p(2) depth(1) counter] tree_inv_nodes[OF inv] depth(2) by simp
  from nodes_inv_insert[OF tree_inv_nodes[OF inv] counter p new this]
  show ?thesis
    using inv log by (auto simp: tree_inv_def new_node_sql_def)
qed

lemma insert_or_existing_inv:
  assumes "tree_inv blake3 c db" "unat counter = c"
    "exp_valid (cp_experiment_id p)" "check_root_rule p = Ok ()"
    "node_depth db0 p = Ok depth" "db_nodes db0 = db_nodes db"
    "\<forall>l. cp_input_log_id p = Some l \<longrightarrow> log_id_to_sql l \<in> l_log_id ` set (db_input_logs db)"
    and ins: "insert_or_existing p depth counter db = (res, db')"
  shows "tree_inv blake3 (Suc c) db'"
proof -
  consider "db' = db" | "db' = db\<lparr>db_nodes := db_nodes db @ [new_node_sql p depth counter]\<rparr>"
    "node_key (new_node_sql p depth counter) \<notin> node_key ` set (db_nodes db)"
    using ins by (auto simp: insert_or_existing_def insert_node_def Let_def split: if_splits)
  then show ?thesis
    using tree_inv_insert[OF assms(1-7)] tree_inv_mono[OF assms(1)] by cases auto
qed

lemma create_node_inv:
  assumes inv: "tree_inv blake3 c db" and counter: "unat counter = c"
    and p: "exp_valid (cp_experiment_id p)"
    and run: "create_node_impl blake3 config p counter db = (res, db')"
  shows "tree_inv blake3 (Suc c) db'"
proof (cases "check_root_rule p")
  case (Ok u)
  show ?thesis
  proof (cases "node_depth db p")
    case depth: (Ok depth)
    obtain r db1 where log: "store_inline_log blake3 config p counter db = (r, db1)"
      by fastforce
    note log_inv = store_inline_log_inv[OF inv log]
    show ?thesis
    proof (cases r)
      case (Ok v)
      then have "insert_or_existing p depth counter db1 = (res, db')"
        using run \<open>check_root_rule p = Ok u\<close> depth log
        by (simp add: create_node_impl_def sbind_def slift_def)
      with Ok show ?thesis
        using insert_or_existing_inv[of blake3 c db1 counter p db depth res db'] log_inv counter p depth
          \<open>check_root_rule p = Ok u\<close> by simp
    qed (use run \<open>check_root_rule p = Ok u\<close> depth log log_inv tree_inv_mono in
         \<open>auto simp: create_node_impl_def sbind_def slift_def\<close>)
  qed (use run Ok inv tree_inv_mono in \<open>auto simp: create_node_impl_def sbind_def slift_def\<close>)
qed (use run inv tree_inv_mono in \<open>auto simp: create_node_impl_def sbind_def slift_def\<close>)

lemma update_where_inv:
  assumes inv: "tree_inv blake3 c db" and le: "c \<le> c'"
    and f: "\<And>r. r \<in> set (db_nodes db) \<Longrightarrow> hit r \<Longrightarrow>
      same_place r (f r) \<and> c_status (f r) \<in> range status_to_sql \<and> unat (c_updated_at (f r)) < c'"
  shows "tree_inv blake3 c' (update_where hit f db)"
proof -
  let ?f = "\<lambda>r. if hit r then f r else r"
  have f': "same_place r (?f r) \<and> c_status (?f r) \<in> range status_to_sql
      \<and> unat (c_updated_at (?f r)) < c'" if "r \<in> set (db_nodes db)" for r
    using f[OF that] nodes_inv_row[OF tree_inv_nodes[OF inv] that] le
    by (auto simp: row_wf_def same_place_def)
  have nodes: "nodes_inv c' (map ?f (db_nodes db))"
    by (rule nodes_inv_map[OF tree_inv_nodes[OF inv] le f'])
  have "c_input_log_id (?f r) = c_input_log_id r" if "r \<in> set (db_nodes db)" for r
    using f'[OF that] by (simp add: same_place_def)
  then have "\<forall>q \<in> set (map ?f (db_nodes db)). \<forall>l. c_input_log_id q = Some l
      \<longrightarrow> l \<in> l_log_id ` set (db_input_logs db)"
    using inv unfolding tree_inv_def set_map by (metis (no_types, lifting) imageE)
  then show ?thesis
    using inv nodes unfolding tree_inv_def update_where_def by simp
qed

lemma apply_update_place:
  "same_place r (apply_update sql_add counter u r)"
  "c_updated_at (apply_update sql_add counter u r) = counter"
  "c_status r \<in> range status_to_sql \<Longrightarrow> c_status (apply_update sql_add counter u r) \<in> range status_to_sql"
  by (auto simp: apply_update_def same_place_def set_opt_def Let_def split: option.splits)

lemma update_nodes_inv:
  assumes inv: "tree_inv blake3 c db" and counter: "unat counter = c"
    and run: "update_nodes_impl sql_add e us counter db = (res, db')"
  shows "tree_inv blake3 (Suc c) db'"
proof -
  have one: "tree_inv blake3 (Suc c) (update_one sql_add x counter u db)"
    if i: "tree_inv blake3 (Suc c) db" for x u db
    unfolding update_one_def
    by (rule update_where_inv[OF i le_refl])
      (use apply_update_place counter nodes_inv_row(1)[OF tree_inv_nodes[OF i]] in
        \<open>auto simp: row_wf_def\<close>)
  have "tree_inv blake3 (Suc c) (fold (update_one sql_add x counter) us db)"
    if "tree_inv blake3 (Suc c) db" for x us db
    using that by (induction us arbitrary: db) (auto intro: one)
  moreover have "tree_inv blake3 (Suc c) db"
    using inv by (rule tree_inv_mono) simp
  ultimately show ?thesis
    using run by (auto simp: update_nodes_impl_def Let_def split: if_splits)
qed

section \<open>Pruning and reaping\<close>

lemma tree_inv_tombstones:
  assumes "tree_inv blake3 c db" "distinct (map tombstone_key ts)"
    "\<forall>t \<in> set ts. exp_str_ok (t_experiment_id t)"
  shows "tree_inv blake3 c (db\<lparr>db_tombstones := ts\<rparr>)"
  using assms by (simp add: tree_inv_def)

lemma prune_subtree_inv:
  assumes inv: "tree_inv blake3 c db" and counter: "unat counter = c"
    and run: "prune_subtree_impl e n allow_root counter db = (res, db')"
  shows "tree_inv blake3 (Suc c) db'"
proof -
  have upd: "tree_inv blake3 (Suc c) (update_where hit
      (\<lambda>r. r\<lparr>c_status := status_to_sql Pruned, c_updated_at := counter\<rparr>) db)" for hit
    by (rule update_where_inv[OF inv]) (simp_all add: same_place_def counter)
  have tomb: "tree_inv blake3 (Suc c) (insert_tombstone t db1)"
    if "tree_inv blake3 (Suc c) db1" "exp_str_ok (t_experiment_id t)" for t db1
    using that by (auto simp: insert_tombstone_def tree_inv_def)
  have "exp_str_ok (experiment_str e)" if "node_exists (experiment_str e) (node_id_to_sql n) db"
  proof -
    obtain r where r: "r \<in> set (db_nodes db)" "node_key r = (experiment_str e, node_id_to_sql n)"
      using \<open>node_exists (experiment_str e) (node_id_to_sql n) db\<close> by (auto simp: node_exists_iff)
    show ?thesis
      using nodes_inv_row(1)[OF tree_inv_nodes[OF inv] r(1)] r(2) by (auto simp: row_wf_def node_key_def)
  qed
  then show ?thesis
    using run tomb[OF upd] tree_inv_mono[OF inv, of "Suc c"]
    by (auto simp: prune_subtree_impl_def Let_def split: if_splits option.splits)
qed

lemma delete_subtree_inv:
  assumes inv: "tree_inv blake3 c db"
    and closed: "\<And>r q. r \<in> set (db_nodes db) \<Longrightarrow> q \<in> set (db_nodes db) \<Longrightarrow> parent_row r q \<Longrightarrow> hit q \<Longrightarrow> hit r"
  shows "delete_nodes hit db = (Ok (length (filter hit (db_nodes db))),
           db\<lparr>db_nodes := filter (\<lambda>r. \<not> hit r) (db_nodes db)\<rparr>)"
    "tree_inv blake3 c (db\<lparr>db_nodes := filter (\<lambda>r. \<not> hit r) (db_nodes db)\<rparr>)"
proof -
  have ns: "nodes_inv c (filter (\<lambda>r. \<not> hit r) (db_nodes db))"
    by (rule nodes_inv_filter[OF tree_inv_nodes[OF inv] closed])
  show "delete_nodes hit db = (Ok (length (filter hit (db_nodes db))),
           db\<lparr>db_nodes := filter (\<lambda>r. \<not> hit r) (db_nodes db)\<rparr>)"
    using nodes_inv_fk_ok[OF ns] by (simp add: delete_nodes_def Let_def)
  show "tree_inv blake3 c (db\<lparr>db_nodes := filter (\<lambda>r. \<not> hit r) (db_nodes db)\<rparr>)"
    using inv ns by (auto simp: tree_inv_def)
qed

lemma delete_unreferenced_logs_inv:
  "tree_inv blake3 c db \<Longrightarrow> tree_inv blake3 c (delete_unreferenced_logs db)"
  unfolding delete_unreferenced_logs_def Let_def tree_inv_def
  by (auto simp: distinct_map_filter List.map_filter_def image_iff) (metis option.sel option.simps(3))?

lemma reap_tombstone_inv:
  assumes inv: "tree_inv blake3 c db"
    and run: "reap_tombstone_impl e n db = (res, db')"
  shows "tree_inv blake3 c db'"
proof (cases "node_exists (experiment_str e) (node_id_to_sql n) db")
  case False
  then show ?thesis
    using run inv by (simp add: reap_tombstone_impl_def Let_def)
next
  case True
  obtain keys where keys: "subtree db (experiment_str e) (node_id_to_sql n) = Some keys"
    "\<And>r. r \<in> set (db_nodes db) \<Longrightarrow> node_key r \<in> set keys
       \<longleftrightarrow> below (db_nodes db) (experiment_str e, node_id_to_sql n) r"
    using subtree_ends[OF tree_inv_nodes[OF inv] True] by blast
  have closed: "node_key r \<in> set keys"
    if "r \<in> set (db_nodes db)" "q \<in> set (db_nodes db)" "parent_row r q" "node_key q \<in> set keys" for r q
    using that below_child keys(2) by blast
  have fin: "tree_inv blake3 c ((delete_unreferenced_logs db1)\<lparr>db_tombstones :=
      filter (\<lambda>t. tombstone_key t \<noteq> k) (db_tombstones (delete_unreferenced_logs db1))\<rparr>)"
    if "tree_inv blake3 c db1" for db1 k
    using delete_unreferenced_logs_inv[OF that]
    by (intro tree_inv_tombstones) (simp_all add: tree_inv_def distinct_map_filter)
  show ?thesis
    using run True inv fin[OF delete_subtree_inv(2)[OF inv closed]]
    by (auto simp: reap_tombstone_impl_def Let_def keys(1) delete_subtree_inv(1)[OF inv closed]
        split: if_splits)
qed

section \<open>Examples\<close>

text \<open>A database as the migrations leave it, and one with a root and a child.\<close>

definition demo_db :: tree_db where
  "demo_db = \<lparr>db_has_meta = True, db_has_gc_state = True, db_migrations = [],
     db_meta = Some \<lparr>m_schema_version = 2, m_store_uuid = [], m_logical_counter = 0\<rparr>,
     db_nodes = [], db_input_logs = [], db_kv_metadata = [], db_pins = [], db_tombstones = [],
     db_gc_state = Some \<lparr>g_cycles_total = 0, g_last_fence_counter = 0, g_last_finished_at = 0,
       g_last_freed_bytes = 0\<rparr>\<rparr>"

definition demo_params :: "u64 \<Rightarrow> u64 option \<Rightarrow> create_node_params" where
  "demo_params n parent = \<lparr>cp_experiment_id = ExperimentId ''e'', cp_node_id = NodeId n,
     cp_parent_node_id = map_option NodeId parent, cp_snapshot_ref = SnapshotRef 7,
     cp_input_log_id = None, cp_inline_log_container = None, cp_status = Frontier,
     cp_score = None, cp_icount = 0, cp_virtual_ns = 0, cp_attrs = None\<rparr>"

definition demo_tree :: tree_db where
  "demo_tree = demo_db\<lparr>db_nodes := [new_node_sql (demo_params 0 None) 0 1,
     new_node_sql (demo_params 1 (Some 0)) 1 2]\<rparr>"

lemma demo_inv: "tree_inv blake3 c demo_db"
  by (simp add: tree_inv_def demo_db_def nodes_inv_def)

lemma demo_tree_inv: "tree_inv blake3 3 demo_tree"
  by (simp add: tree_inv_def demo_tree_def demo_db_def demo_params_def new_node_sql_def nodes_inv_def
      row_wf_def exp_str_ok_def placed_def parent_row_def child_depth_def node_key_def node_id_to_sql_def
      EXPERIMENT_ID_MAX_BYTES_def)

end
