(* ===== verification/Meta_Actor.thy ===== *)
theory Meta_Actor
  imports Meta_Invariant
begin

text \<open>
  The writer actor of \<^verbatim>\<open>crates/snapstore-meta/src/actor.rs\<close>: the commands, their
  dispatch, the transaction around a batch with a savepoint around each command, and the
  loop that drains the channel.  What SQLite answers to \<open>BEGIN\<close>, \<open>SAVEPOINT\<close>, the update of
  the counter and \<open>COMMIT\<close> is a parameter; a rollback to a savepoint is taken to succeed.
\<close>

section \<open>Commands\<close>

datatype actor_cmd =
    CreateNode create_node_params
  | UpdateNodes experiment_id "node_update list"
  | PutInputLog log_id bytes
  | PutMetadata bytes bytes "u64 option"
  | DeleteMetadata bytes "u64 option"
  | PinCmd snapshot_ref "string option"
  | UnpinCmd snapshot_ref
  | PruneSubtree experiment_id node_id bool
  | ReapTombstone experiment_id node_id
  | SetGcState gc_state_row
  | Shutdown

datatype cmd_result =
    RNodeRow "(meta_error, node_row) outcome"
  | RU64 "(meta_error, u64) outcome"
  | RBool "(meta_error, bool) outcome"
  | RUnit "(meta_error, unit) outcome"

text \<open>
  \<open>uses\<close> packs the two parameters of the commands, BLAKE3 and the addition of SQL.
\<close>

record uses =
  u_blake3 :: "bytes \<Rightarrow> hash32"
  u_sql_add :: "sql_num \<Rightarrow> i64 \<Rightarrow> sql_num"

definition dispatch_cmd ::
  "uses \<Rightarrow> meta_config \<Rightarrow> actor_cmd \<Rightarrow> u64 \<Rightarrow> tree_db \<Rightarrow> cmd_result \<times> tree_db" where
  "dispatch_cmd u config cmd counter db =
     (case cmd of
        CreateNode params \<Rightarrow> apfst RNodeRow (create_node_impl (u_blake3 u) config params counter db)
      | UpdateNodes experiment_id updates \<Rightarrow>
          apfst RU64 (update_nodes_impl (u_sql_add u) experiment_id updates counter db)
      | PutInputLog log_id container \<Rightarrow>
          apfst RBool (put_input_log_impl (u_blake3 u) config log_id container counter db)
      | PutMetadata key value expected_generation \<Rightarrow>
          apfst RU64 (put_metadata_impl (u_sql_add u) key value expected_generation counter db)
      | DeleteMetadata key expected_generation \<Rightarrow>
          apfst RBool (delete_metadata_impl key expected_generation db)
      | PinCmd snapshot_ref note \<Rightarrow> apfst RUnit (pin_impl snapshot_ref note counter db)
      | UnpinCmd snapshot_ref \<Rightarrow> apfst RBool (unpin_impl snapshot_ref db)
      | PruneSubtree experiment_id node_id allow_root \<Rightarrow>
          apfst RU64 (prune_subtree_impl experiment_id node_id allow_root counter db)
      | ReapTombstone experiment_id node_id \<Rightarrow>
          apfst RU64 (reap_tombstone_impl experiment_id node_id db)
      | SetGcState state \<Rightarrow> apfst RUnit (set_gc_state_impl state db)
      | Shutdown \<Rightarrow> (RUnit (Ok ()), db))"

text \<open>What a caller receives on the reply channel of its command.\<close>

definition send_result :: "actor_cmd \<Rightarrow> cmd_result \<Rightarrow> cmd_result option" where
  "send_result cmd result =
     (case (cmd, result) of
        (CreateNode _, RNodeRow r) \<Rightarrow> Some (RNodeRow r)
      | (UpdateNodes _ _, RU64 r) \<Rightarrow> Some (RU64 r)
      | (PutInputLog _ _, RBool r) \<Rightarrow> Some (RBool r)
      | (PutMetadata _ _ _, RU64 r) \<Rightarrow> Some (RU64 r)
      | (DeleteMetadata _ _, RBool r) \<Rightarrow> Some (RBool r)
      | (PinCmd _ _, RUnit r) \<Rightarrow> Some (RUnit r)
      | (UnpinCmd _, RBool r) \<Rightarrow> Some (RBool r)
      | (PruneSubtree _ _ _, RU64 r) \<Rightarrow> Some (RU64 r)
      | (ReapTombstone _ _, RU64 r) \<Rightarrow> Some (RU64 r)
      | (SetGcState _, RUnit r) \<Rightarrow> Some (RUnit r)
      | _ \<Rightarrow> None)"

definition send_error :: "actor_cmd \<Rightarrow> meta_error \<Rightarrow> cmd_result option" where
  "send_error cmd e =
     (case cmd of
        CreateNode _ \<Rightarrow> Some (RNodeRow (Err e))
      | UpdateNodes _ _ \<Rightarrow> Some (RU64 (Err e))
      | PutInputLog _ _ \<Rightarrow> Some (RBool (Err e))
      | PutMetadata _ _ _ \<Rightarrow> Some (RU64 (Err e))
      | DeleteMetadata _ _ \<Rightarrow> Some (RBool (Err e))
      | PinCmd _ _ \<Rightarrow> Some (RUnit (Err e))
      | UnpinCmd _ \<Rightarrow> Some (RBool (Err e))
      | PruneSubtree _ _ _ \<Rightarrow> Some (RU64 (Err e))
      | ReapTombstone _ _ \<Rightarrow> Some (RU64 (Err e))
      | SetGcState _ \<Rightarrow> Some (RUnit (Err e))
      | Shutdown \<Rightarrow> None)"

fun is_ok :: "('e, 'a) outcome \<Rightarrow> bool" where
  "is_ok (Ok _) = True"
| "is_ok _ = False"

fun is_panic :: "('e, 'a) outcome \<Rightarrow> bool" where
  "is_panic Panic = True"
| "is_panic _ = False"

definition succeeded :: "cmd_result \<Rightarrow> bool" where
  "succeeded result =
     (case result of RNodeRow r \<Rightarrow> is_ok r | RU64 r \<Rightarrow> is_ok r | RBool r \<Rightarrow> is_ok r | RUnit r \<Rightarrow> is_ok r)"

definition panicked :: "cmd_result \<Rightarrow> bool" where
  "panicked result =
     (case result of RNodeRow r \<Rightarrow> is_panic r | RU64 r \<Rightarrow> is_panic r
                   | RBool r \<Rightarrow> is_panic r | RUnit r \<Rightarrow> is_panic r)"

section \<open>Batches\<close>

record writer_actor =
  wa_db :: tree_db
  wa_counter :: u64
  wa_batch_max :: nat
  wa_config :: meta_config

record sqlite_env =
  se_begin :: bool
  se_savepoint :: "nat \<Rightarrow> bool"
  se_flush :: bool
  se_commit :: bool

text \<open>
  The loop over the commands of a batch: the replies, the counter, the tables inside the
  transaction, and whether the counter moved.
\<close>

fun batch_loop ::
  "uses \<Rightarrow> sqlite_env \<Rightarrow> meta_config \<Rightarrow> nat \<Rightarrow> actor_cmd list \<Rightarrow> u64 \<Rightarrow> tree_db
     \<Rightarrow> (unit, cmd_result option list \<times> u64 \<times> tree_db \<times> bool) outcome" where
  "batch_loop u env config i [] counter db = Ok ([], counter, db, False)"
| "batch_loop u env config i (cmd # batch) counter db =
     (if \<not> se_savepoint env i then
        obind (batch_loop u env config (Suc i) batch counter db) (\<lambda>(rs, counter, db, dirty).
        Ok (send_error cmd (MeIo ''savepoint creation failed'') # rs, counter, db, dirty))
      else case dispatch_cmd u config cmd counter db of (result, db') \<Rightarrow>
        if panicked result then Panic
        else
        obind (batch_loop u env config (Suc i) batch (counter + 1)
                 (if succeeded result then db' else db)) (\<lambda>(rs, counter, db, _).
        Ok (send_result cmd result # rs, counter, db, True)))"

definition flush_counter :: "u64 \<Rightarrow> tree_db \<Rightarrow> tree_db" where
  "flush_counter counter db =
     db\<lparr>db_meta := map_option (\<lambda>m. m\<lparr>m_logical_counter := counter\<rparr>) (db_meta db)\<rparr>"

definition execute_batch ::
  "uses \<Rightarrow> sqlite_env \<Rightarrow> actor_cmd list \<Rightarrow> (writer_actor, unit, cmd_result option list) op" where
  "execute_batch u env batch a =
     (if \<not> se_begin env
      then (Ok (map (\<lambda>cmd. send_error cmd (MeIo ''BEGIN IMMEDIATE failed'')) batch), a)
      else case batch_loop u env (wa_config a) 0 batch (wa_counter a) (wa_db a) of
        Ok (replies, counter, db, counter_dirty) \<Rightarrow>
          let db = (if counter_dirty \<and> se_flush env then flush_counter counter db else db)
          in (Ok replies, a\<lparr>wa_counter := counter,
                            wa_db := (if se_commit env then db else wa_db a)\<rparr>)
      | Err e \<Rightarrow> (Err e, a)
      | Panic \<Rightarrow> (Panic, a))"

text \<open>
  \<open>try_recv\<close> until the batch is full, the channel has nothing ready, or a shutdown arrives:
  \<open>n\<close> is the number of commands that it can still take.
\<close>

fun drain :: "nat \<Rightarrow> actor_cmd list \<Rightarrow> actor_cmd list \<times> bool \<times> actor_cmd list" where
  "drain 0 q = ([], False, q)"
| "drain (Suc n) [] = ([], False, [])"
| "drain (Suc n) (cmd # q) =
     (if cmd = Shutdown then ([], True, q)
      else case drain n q of (batch, shutdown_pending, q) \<Rightarrow> (cmd # batch, shutdown_pending, q))"

lemma drain_length: "drain n q = (b, s, r) \<Longrightarrow> length r \<le> length q"
  by (induction n q arbitrary: b s r rule: drain.induct)
    (auto split: if_splits prod.splits)

text \<open>
  The loop of the actor over the commands that the channel will deliver until its senders are
  gone.  \<open>ready i\<close> is the number of commands waiting when batch number \<open>i\<close> has its first one.
\<close>

function run ::
  "uses \<Rightarrow> (nat \<Rightarrow> sqlite_env) \<Rightarrow> (nat \<Rightarrow> nat) \<Rightarrow> nat \<Rightarrow> actor_cmd list
     \<Rightarrow> (writer_actor, unit, cmd_result option list) op" where
  "run u envs ready i [] a = (Ok [], a)"
| "run u envs ready i (first # q) a =
     (if first = Shutdown then (Ok [], a)
      else case drain (min (ready i) (wa_batch_max a - 1)) q of (batch, shutdown_pending, q) \<Rightarrow>
        sbind (execute_batch u (envs i) (first # batch)) (\<lambda>replies.
        if shutdown_pending then sreturn replies
        else sbind (run u envs ready (Suc i) q) (\<lambda>rest. sreturn (replies @ rest))) a)"
  by pat_completeness auto
termination
  by (relation "measure (\<lambda>(u, envs, ready, i, q, a). length q)") (auto dest: drain_length[OF sym])

declare run.simps [simp del]

end
