(* ===== verification/Meta_Serial.thy ===== *)
theory Meta_Serial
  imports Meta_Actor
begin

text \<open>
  The actor against a specification that runs one command after the other: batching cannot be
  observed, a command that fails leaves no trace, no command brings the actor down, and the
  tables keep their invariant under every batch, also one that SQLite refuses to begin or to
  commit.
\<close>

section \<open>Single commands\<close>

text \<open>
  An \<open>ExperimentId\<close> that reaches the actor was built by \<open>ExperimentId::new\<close>.
\<close>

definition cmd_valid :: "actor_cmd \<Rightarrow> bool" where
  "cmd_valid cmd = (case cmd of CreateNode p \<Rightarrow> exp_valid (cp_experiment_id p) | _ \<Rightarrow> True)"

lemma select_kv_None: "select_kv k db = None \<longleftrightarrow> k \<notin> k_key ` set (db_kv_metadata db)"
  by (simp add: select_kv_def find_key_None)

lemma tree_inv_kv:
  "tree_inv blake3 c db \<Longrightarrow> distinct (map k_key rs) \<Longrightarrow> tree_inv blake3 c (db\<lparr>db_kv_metadata := rs\<rparr>)"
  by (simp add: tree_inv_def)

lemma upsert_kv_inv:
  assumes "tree_inv blake3 c db"
  shows "tree_inv blake3 c (upsert_kv r db)"
proof (cases "select_kv (k_key r) db")
  case None
  then show ?thesis
    using assms unfolding upsert_kv_def
    by (intro tree_inv_kv) (simp_all add: tree_inv_def select_kv_None)
next
  case (Some q)
  have "map (k_key \<circ> (\<lambda>q. if k_key q = k_key r then r else q)) (db_kv_metadata db)
      = map k_key (db_kv_metadata db)"
    by simp
  then have "distinct (map k_key (map (\<lambda>q. if k_key q = k_key r then r else q) (db_kv_metadata db)))"
    using assms by (simp only: map_map tree_inv_def)
  from tree_inv_kv[OF assms this] show ?thesis
    using Some by (simp add: upsert_kv_def)
qed

lemma put_metadata_inv:
  assumes inv: "tree_inv blake3 c db"
    and run: "put_metadata_impl sql_add key value expected counter db = (res, db')"
  shows "tree_inv blake3 c db'"
proof -
  have key: "map (k_key \<circ> (\<lambda>r. if hit r then r\<lparr>k_value := value, k_generation := g r,
      k_updated_at := counter\<rparr> else r)) rs = map k_key rs" for hit g and rs :: "kv_sql list"
    by simp
  have upd: "tree_inv blake3 c (db\<lparr>db_kv_metadata := map (\<lambda>r. if hit r then r\<lparr>k_value := value,
      k_generation := g r, k_updated_at := counter\<rparr> else r) (db_kv_metadata db)\<rparr>)" for hit g
    using inv by (intro tree_inv_kv) (simp_all add: key tree_inv_def)
  have app: "tree_inv blake3 c (db\<lparr>db_kv_metadata := db_kv_metadata db @ [\<lparr>k_key = key,
      k_value = value, k_generation = g, k_updated_at = counter\<rparr>]\<rparr>)"
    if "select_kv key db = None" for g
    using inv that by (intro tree_inv_kv) (auto simp: tree_inv_def select_kv_None)
  show ?thesis
    using run inv upsert_kv_inv[OF inv] upd app
    by (auto simp: put_metadata_impl_def sbind_def slift_def Let_def
        split: outcome.splits option.splits if_splits)
qed

lemma delete_metadata_inv:
  assumes inv: "tree_inv blake3 c db"
    and run: "delete_metadata_impl key expected db = (res, db')"
  shows "tree_inv blake3 c db'"
proof -
  have "tree_inv blake3 c (db\<lparr>db_kv_metadata := filter p (db_kv_metadata db)\<rparr>)" for p
    using inv by (intro tree_inv_kv) (simp_all add: tree_inv_def distinct_map_filter)
  then show ?thesis
    using run inv
    by (auto simp: delete_metadata_impl_def sbind_def slift_def Let_def
        split: outcome.splits if_splits)
qed

lemma pins_inv:
  assumes inv: "tree_inv blake3 c db"
  shows "tree_inv blake3 c (snd (pin_impl r note counter db))"
    "tree_inv blake3 c (snd (unpin_impl r db))"
  using inv by (auto simp: tree_inv_def pin_impl_def unpin_impl_def Let_def distinct_map_filter)

lemma set_gc_state_inv: "tree_inv blake3 c db \<Longrightarrow> tree_inv blake3 c (snd (set_gc_state_impl s db))"
  by (auto simp: tree_inv_def set_gc_state_impl_def)

lemma dispatch_inv:
  assumes inv: "tree_inv (u_blake3 u) c db" and counter: "unat counter = c" and valid: "cmd_valid cmd"
  shows "tree_inv (u_blake3 u) (Suc c) (snd (dispatch_cmd u config cmd counter db))"
proof -
  have keep: "tree_inv (u_blake3 u) c db1 \<Longrightarrow> tree_inv (u_blake3 u) (Suc c) db1" for db1
    by (erule tree_inv_mono) simp
  note ops = create_node_inv[OF inv counter _ surjective_pairing]
    update_nodes_inv[OF inv counter surjective_pairing]
    prune_subtree_inv[OF inv counter surjective_pairing]
    keep[OF put_input_log_inv(1)[OF inv surjective_pairing]]
    keep[OF put_metadata_inv[OF inv surjective_pairing]]
    keep[OF delete_metadata_inv[OF inv surjective_pairing]]
    keep[OF reap_tombstone_inv[OF inv surjective_pairing]]
    keep[OF pins_inv(1)[OF inv]] keep[OF pins_inv(2)[OF inv]] keep[OF set_gc_state_inv[OF inv]]
    keep[OF inv]
  show ?thesis
    using valid by (cases cmd) (simp_all add: dispatch_cmd_def cmd_valid_def ops)
qed

section \<open>No command panics\<close>

lemma fetch_node_no_panic [no_panic]:
  assumes inv: "nodes_inv c (db_nodes db)"
  shows "fetch_node db e n \<noteq> Panic"
proof (cases "select_node (experiment_str e) (node_id_to_sql n) db")
  case (Some r)
  then have "row_wf r"
    using nodes_inv_row(1)[OF inv] select_node_in by blast
  with Some show ?thesis
    by (simp add: fetch_node_def row_to_node_wf split: sql_num.splits)
qed (simp add: fetch_node_def)

lemma generation_of_no_panic [no_panic]: "generation_of k db \<noteq> Panic"
  by (cases "select_kv k db"; cases "k_generation (the (select_kv k db))")
    (auto simp: generation_of_def)

lemma put_input_log_no_panic [no_panic]:
  "fst (put_input_log_impl blake3 config l b counter db) \<noteq> Panic"
  by (simp add: put_input_log_impl_def Let_def)

lemma create_node_no_panic [no_panic]:
  assumes inv: "tree_inv blake3 c db" and counter: "unat counter = c"
    and p: "exp_valid (cp_experiment_id p)"
  shows "fst (create_node_impl blake3 config p counter db) \<noteq> Panic"
proof
  assume "fst (create_node_impl blake3 config p counter db) = Panic"
  then obtain db' where run: "create_node_impl blake3 config p counter db = (Panic, db')"
    by (metis prod.collapse)
  have fetch: "fetch_node db1 e n \<noteq> Panic" if "nodes_inv c' (db_nodes db1)" for c' db1 e n
    using fetch_node_no_panic[OF that] .
  have "node_depth db p \<noteq> Panic"
    using fetch[OF tree_inv_nodes[OF inv]] by (auto simp: node_depth_def obind_eq_Panic split: option.splits)
  moreover have "check_root_rule p \<noteq> Panic"
    by (simp add: check_root_rule_def)
  moreover have "fst (store_inline_log blake3 config p counter db) \<noteq> Panic"
    using put_input_log_no_panic[of blake3 config _ _ counter db]
    by (auto simp: store_inline_log_def sbind_def sreturn_def split: option.splits prod.splits outcome.splits)
      (metis fst_conv)
  moreover have "fst (insert_or_existing p d counter db1) \<noteq> Panic"
    if "insert_or_existing p d counter db1 = (Panic, db')" for d db1
    using fetch[OF tree_inv_nodes[OF create_node_inv[OF inv counter p run]]] that
    by (auto simp: insert_or_existing_def insert_node_def Let_def obind_eq_Panic split: if_splits)
  ultimately show False
    using run
    by (auto simp: create_node_impl_def sbind_def slift_def split: outcome.splits prod.splits)
qed

lemma subtree_no_panic [no_panic]:
  assumes inv: "tree_inv blake3 c db"
  shows "fst (prune_subtree_impl e n allow_root counter db) \<noteq> Panic"
    "fst (reap_tombstone_impl e n db) \<noteq> Panic"
proof -
  have sub: "\<exists>keys. subtree db x y = Some keys" if "node_exists x y db" for x y
    using subtree_ends[OF tree_inv_nodes[OF inv] that] by metis
  show "fst (prune_subtree_impl e n allow_root counter db) \<noteq> Panic"
    using sub[of "experiment_str e" "node_id_to_sql n"] by (auto simp: prune_subtree_impl_def Let_def split: option.splits)
  show "fst (reap_tombstone_impl e n db) \<noteq> Panic"
    using sub[of "experiment_str e" "node_id_to_sql n"] by (auto simp: reap_tombstone_impl_def delete_nodes_def Let_def split: option.splits)
qed

lemma kv_no_panic [no_panic]:
  "fst (put_metadata_impl sql_add k v g counter db) \<noteq> Panic"
  "fst (delete_metadata_impl k g db) \<noteq> Panic"
proof -
  have key: "check_key k \<noteq> Panic"
    by (simp add: check_key_def)
  have ok: "ok_or e m \<noteq> Panic" for e and m :: "'a option"
    by (cases m) simp_all
  show "fst (put_metadata_impl sql_add k v g counter db) \<noteq> Panic"
    using key ok generation_of_no_panic
    by (auto simp: put_metadata_impl_def sbind_def slift_def cas_failed_def Let_def obind_eq_Panic
        split: outcome.splits option.splits)
  show "fst (delete_metadata_impl k g db) \<noteq> Panic"
    using key generation_of_no_panic
    by (auto simp: delete_metadata_impl_def sbind_def slift_def Let_def obind_eq_Panic
        split: outcome.splits option.splits)
qed

lemma dispatch_no_panic [no_panic]:
  assumes inv: "tree_inv (u_blake3 u) c db" and counter: "unat counter = c" and valid: "cmd_valid cmd"
  shows "\<not> panicked (fst (dispatch_cmd u config cmd counter db))"
proof -
  have p: "is_panic r \<longleftrightarrow> r = Panic" for r :: "(meta_error, 'a) outcome"
    by (cases r) simp_all
  have upd: "fst (update_nodes_impl sa e us counter db) \<noteq> Panic" for sa e us
    by (simp add: update_nodes_impl_def Let_def)
  have rest: "fst (pin_impl r nt counter db) \<noteq> Panic" "fst (unpin_impl r db) \<noteq> Panic"
    "fst (set_gc_state_impl s db) \<noteq> Panic" for r nt s
    by (simp_all add: pin_impl_def unpin_impl_def set_gc_state_impl_def Let_def)
  show ?thesis
    using valid create_node_no_panic[OF inv counter] subtree_no_panic[OF inv] kv_no_panic upd rest
      put_input_log_no_panic
    by (cases cmd) (simp_all add: dispatch_cmd_def panicked_def cmd_valid_def p)
qed

section \<open>Commands and the persisted counter\<close>

text \<open>No command reads or writes the row of the table \<open>meta\<close>.\<close>

named_theorems meta_frame

lemma select_meta [meta_frame, simp]:
  "select_node e n (db\<lparr>db_meta := m\<rparr>) = select_node e n db"
  "node_exists e n (db\<lparr>db_meta := m\<rparr>) = node_exists e n db"
  "select_log l (db\<lparr>db_meta := m\<rparr>) = select_log l db"
  "select_kv k (db\<lparr>db_meta := m\<rparr>) = select_kv k db"
  "child_keys (db\<lparr>db_meta := m\<rparr>) = child_keys db"
  "subtree (db\<lparr>db_meta := m\<rparr>) e n = subtree db e n"
proof -
  show ch: "child_keys (db\<lparr>db_meta := m\<rparr>) = child_keys db"
    by (simp add: child_keys_def fun_eq_iff)
  show "subtree (db\<lparr>db_meta := m\<rparr>) e n = subtree db e n"
    by (simp add: subtree_def ch)
qed (simp_all add: select_node_def node_exists_def select_log_def select_kv_def)

lemma read_meta [meta_frame, simp]:
  "fetch_node (db\<lparr>db_meta := m\<rparr>) e' n' = fetch_node db e' n'"
  "node_depth (db\<lparr>db_meta := m\<rparr>) p = node_depth db p"
  "generation_of k (db\<lparr>db_meta := m\<rparr>) = generation_of k db"
  "cas_failed k (db\<lparr>db_meta := m\<rparr>) = cas_failed k db"
  by (simp_all add: fetch_node_def node_depth_def generation_of_def cas_failed_def
      split: option.splits)

lemma put_input_log_meta [meta_frame]:
  "put_input_log_impl blake3 config l b counter (db\<lparr>db_meta := m\<rparr>)
     = apsnd (\<lambda>d. d\<lparr>db_meta := m\<rparr>) (put_input_log_impl blake3 config l b counter db)"
  by (simp add: put_input_log_impl_def Let_def)

lemma create_node_meta [meta_frame]:
  "create_node_impl blake3 config p counter (db\<lparr>db_meta := m\<rparr>)
     = apsnd (\<lambda>d. d\<lparr>db_meta := m\<rparr>) (create_node_impl blake3 config p counter db)"
proof -
  have log: "store_inline_log blake3 config p counter (db\<lparr>db_meta := m\<rparr>)
      = apsnd (\<lambda>d. d\<lparr>db_meta := m\<rparr>) (store_inline_log blake3 config p counter db)"
    by (auto simp: store_inline_log_def sbind_def sreturn_def put_input_log_meta
        split: option.splits prod.splits outcome.splits)
  have fetch: "fetch_node (db\<lparr>db_meta := m, db_nodes := ns\<rparr>) e n = fetch_node (db\<lparr>db_nodes := ns\<rparr>) e n"
    for db ns e n
    by (simp add: fetch_node_def select_node_def)
  have ins: "insert_or_existing p d counter (db\<lparr>db_meta := m\<rparr>)
      = apsnd (\<lambda>d. d\<lparr>db_meta := m\<rparr>) (insert_or_existing p d counter db)" for d db
    by (simp add: insert_or_existing_def insert_node_def Let_def fetch)
  show ?thesis
    by (simp add: create_node_impl_def sbind_def slift_def log ins
        split: outcome.splits prod.splits)
qed

lemma update_nodes_meta [meta_frame]:
  "update_nodes_impl sql_add e us counter (db\<lparr>db_meta := m\<rparr>)
     = apsnd (\<lambda>d. d\<lparr>db_meta := m\<rparr>) (update_nodes_impl sql_add e us counter db)"
proof -
  have "fold (update_one sql_add x counter) us (db\<lparr>db_meta := m\<rparr>)
      = (fold (update_one sql_add x counter) us db)\<lparr>db_meta := m\<rparr>" for x us
  proof (induction us arbitrary: db)
    case (Cons u us)
    have "update_one sql_add x counter u (db\<lparr>db_meta := m\<rparr>)
        = (update_one sql_add x counter u db)\<lparr>db_meta := m\<rparr>"
      by (simp add: update_one_def update_where_def)
    with Cons show ?case
      by simp
  qed simp
  then show ?thesis
    by (simp add: update_nodes_impl_def Let_def)
qed

lemma kv_meta [meta_frame]:
  "put_metadata_impl sql_add k v g counter (db\<lparr>db_meta := m\<rparr>)
     = apsnd (\<lambda>d. d\<lparr>db_meta := m\<rparr>) (put_metadata_impl sql_add k v g counter db)"
  "delete_metadata_impl k g (db\<lparr>db_meta := m\<rparr>)
     = apsnd (\<lambda>d. d\<lparr>db_meta := m\<rparr>) (delete_metadata_impl k g db)"
proof -
  have gen: "generation_of k (db\<lparr>db_meta := m, db_kv_metadata := rs\<rparr>)
      = generation_of k (db\<lparr>db_kv_metadata := rs\<rparr>)" for rs
    by (simp add: generation_of_def select_kv_def)
  show "put_metadata_impl sql_add k v g counter (db\<lparr>db_meta := m\<rparr>)
     = apsnd (\<lambda>d. d\<lparr>db_meta := m\<rparr>) (put_metadata_impl sql_add k v g counter db)"
    by (auto simp: put_metadata_impl_def sbind_def slift_def Let_def gen upsert_kv_def
        split: outcome.splits option.splits)
  show "delete_metadata_impl k g (db\<lparr>db_meta := m\<rparr>)
     = apsnd (\<lambda>d. d\<lparr>db_meta := m\<rparr>) (delete_metadata_impl k g db)"
    by (auto simp: delete_metadata_impl_def sbind_def slift_def Let_def gen split: outcome.splits)
qed

lemma prune_reap_meta [meta_frame]:
  "prune_subtree_impl e n r counter (db\<lparr>db_meta := m\<rparr>)
     = apsnd (\<lambda>d. d\<lparr>db_meta := m\<rparr>) (prune_subtree_impl e n r counter db)"
  "reap_tombstone_impl e n (db\<lparr>db_meta := m\<rparr>)
     = apsnd (\<lambda>d. d\<lparr>db_meta := m\<rparr>) (reap_tombstone_impl e n db)"
  by (simp_all add: prune_subtree_impl_def reap_tombstone_impl_def update_where_def insert_tombstone_def
      delete_nodes_def delete_unreferenced_logs_def Let_def split: option.splits)

lemma rest_meta [meta_frame]:
  "pin_impl r nt counter (db\<lparr>db_meta := m\<rparr>) = apsnd (\<lambda>d. d\<lparr>db_meta := m\<rparr>) (pin_impl r nt counter db)"
  "unpin_impl r (db\<lparr>db_meta := m\<rparr>) = apsnd (\<lambda>d. d\<lparr>db_meta := m\<rparr>) (unpin_impl r db)"
  "set_gc_state_impl st (db\<lparr>db_meta := m\<rparr>) = apsnd (\<lambda>d. d\<lparr>db_meta := m\<rparr>) (set_gc_state_impl st db)"
  by (simp_all add: pin_impl_def unpin_impl_def set_gc_state_impl_def Let_def)

lemma dispatch_meta:
  "dispatch_cmd u config cmd counter (db\<lparr>db_meta := m\<rparr>)
     = apsnd (\<lambda>d. d\<lparr>db_meta := m\<rparr>) (dispatch_cmd u config cmd counter db)"
proof -
  have "apfst f (apsnd g x) = apsnd g (apfst f x)" for f :: "'a \<Rightarrow> 'b" and g :: "'c \<Rightarrow> 'd" and x
    by (simp add: apfst_def apsnd_def prod.map_comp)
  then show ?thesis
    by (cases cmd) (simp_all add: dispatch_cmd_def meta_frame)
qed

section \<open>Batches keep the invariant\<close>

lemma unat_counter_Suc:
  assumes "unat (counter :: u64) + Suc n < 2 ^ 64"
  shows "unat (counter + 1) = Suc (unat counter)"
  using assms by (simp add: unat_word_ariths)

lemma tree_inv_meta: "tree_inv blake3 c db \<Longrightarrow> m \<noteq> None \<Longrightarrow> tree_inv blake3 c (db\<lparr>db_meta := m\<rparr>)"
  by (simp add: tree_inv_def)

lemma flush_counter_inv: "tree_inv blake3 c db \<Longrightarrow> tree_inv blake3 c (flush_counter counter db)"
  unfolding flush_counter_def by (rule tree_inv_meta) (simp_all add: tree_inv_def)

text \<open>What is known of the tables and the counter after some commands.\<close>

definition grown :: "(bytes \<Rightarrow> hash32) \<Rightarrow> nat \<Rightarrow> u64 \<Rightarrow> u64 \<Rightarrow> tree_db \<Rightarrow> bool" where
  "grown blake3 n counter counter' db \<longleftrightarrow>
     tree_inv blake3 (unat counter') db
     \<and> unat counter \<le> unat counter' \<and> unat counter' \<le> unat counter + n"

lemma batch_loop_inv:
  assumes "tree_inv (u_blake3 u) (unat counter) db" "list_all cmd_valid batch"
    "unat counter + length batch < 2 ^ 64"
  shows "\<exists>rs counter' db' dirty. batch_loop u env config i batch counter db = Ok (rs, counter', db', dirty)
    \<and> length rs = length batch \<and> grown (u_blake3 u) (length batch) counter counter' db'"
  using assms
proof (induction batch arbitrary: i counter db)
  case Nil
  then show ?case
    by (auto simp: grown_def)
next
  case (Cons cmd batch)
  note inv = Cons.prems(1)
  have v: "cmd_valid cmd" "list_all cmd_valid batch"
    using Cons.prems(2) by simp_all
  have b: "unat counter + Suc (length batch) < 2 ^ 64"
    using Cons.prems(3) by simp
  show ?case
  proof (cases "se_savepoint env i")
    case False
    obtain rs c' db' d where "batch_loop u env config (Suc i) batch counter db = Ok (rs, c', db', d)"
      "length rs = length batch" "grown (u_blake3 u) (length batch) counter c' db'"
      using Cons.IH[OF inv v(2), of "Suc i"] b by auto
    with False show ?thesis
      by (auto simp: grown_def)
  next
    case True
    obtain r db1 where d: "dispatch_cmd u config cmd counter db = (r, db1)"
      by fastforce
    have inv1: "tree_inv (u_blake3 u) (unat (counter + 1)) (if succeeded r then db1 else db)"
      using dispatch_inv[OF inv refl v(1), of config] tree_inv_mono[OF inv, of "Suc (unat counter)"] d
      by (simp add: unat_counter_Suc[OF b])
    have "\<not> panicked r"
      using dispatch_no_panic[OF inv refl v(1), of config] d by simp
    moreover obtain rs c' db' dd where
      "batch_loop u env config (Suc i) batch (counter + 1) (if succeeded r then db1 else db)
         = Ok (rs, c', db', dd)"
      "length rs = length batch" "grown (u_blake3 u) (length batch) (counter + 1) c' db'"
      using Cons.IH[OF inv1 v(2), of "Suc i"] b unat_counter_Suc[OF b] by auto
    ultimately show ?thesis
      using True d unat_counter_Suc[OF b] by (auto simp: grown_def)
  qed
qed

lemma execute_batch_inv:
  assumes inv: "tree_inv (u_blake3 u) (unat (wa_counter a)) (wa_db a)" and valid: "list_all cmd_valid batch"
    and bound: "unat (wa_counter a) + length batch < 2 ^ 64"
  shows "\<exists>replies a'. execute_batch u env batch a = (Ok replies, a') \<and> length replies = length batch
    \<and> grown (u_blake3 u) (length batch) (wa_counter a) (wa_counter a') (wa_db a')
    \<and> wa_batch_max a' = wa_batch_max a \<and> wa_config a' = wa_config a"
proof (cases "se_begin env")
  case False
  then show ?thesis
    using inv by (simp add: execute_batch_def grown_def)
next
  case True
  obtain rs c db d where loop: "batch_loop u env (wa_config a) 0 batch (wa_counter a) (wa_db a)
      = Ok (rs, c, db, d)" "length rs = length batch"
    and g: "grown (u_blake3 u) (length batch) (wa_counter a) c db"
    using batch_loop_inv[OF inv valid bound] by blast
  have "tree_inv (u_blake3 u) (unat c) (wa_db a)"
    using g inv by (auto simp: grown_def intro: tree_inv_mono)
  then show ?thesis
    using True loop g by (auto simp: execute_batch_def grown_def Let_def intro: flush_counter_inv)
qed

lemma drain_parts:
  "drain n q = (b, s, r) \<Longrightarrow> length b + length r \<le> length q \<and> set b \<subseteq> set q \<and> set r \<subseteq> set q"
  by (induction n q arbitrary: b s r rule: drain.induct) (auto split: if_splits prod.splits)

text \<open>The commands that the actor takes: those before the first shutdown.\<close>

definition taken :: "actor_cmd list \<Rightarrow> actor_cmd list" where
  "taken q = takeWhile (\<lambda>cmd. cmd \<noteq> Shutdown) q"

lemma drain_taken: "drain n q = (b, s, r) \<Longrightarrow> taken q = b @ (if s then [] else taken r)"
  unfolding taken_def
  by (induction n q arbitrary: b s r rule: drain.induct) (auto split: if_splits prod.splits)

lemma taken_simps [simp]:
  "taken [] = []" "taken (cmd # q) = (if cmd = Shutdown then [] else cmd # taken q)"
  by (simp_all add: taken_def)


text \<open>A run on a new database.\<close>

definition demo_uses :: uses where
  "demo_uses = \<lparr>u_blake3 = (\<lambda>b. of_nat (length b)),
     u_sql_add = (\<lambda>x d. case x of SqlInt a \<Rightarrow> SqlInt (a + d) | SqlReal y \<Rightarrow> SqlReal y)\<rparr>"

definition demo_actor :: writer_actor where
  "demo_actor = \<lparr>wa_db = demo_db, wa_counter = 1, wa_batch_max = WRITE_BATCH_MAX,
     wa_config = meta_config_default\<rparr>"

definition demo_create :: "u64 \<Rightarrow> u64 option \<Rightarrow> actor_cmd" where
  "demo_create n parent = CreateNode (demo_params n parent)"

definition demo_cmds :: "actor_cmd list" where
  "demo_cmds = [demo_create 0 None, demo_create 1 (Some 0), demo_create 2 (Some 1),
     demo_create 3 (Some 9), PruneSubtree (ExperimentId ''e'') (NodeId 1) False,
     ReapTombstone (ExperimentId ''e'') (NodeId 1), Shutdown]"

definition fine_env :: sqlite_env where
  "fine_env = \<lparr>se_begin = True, se_savepoint = (\<lambda>_. True), se_flush = True, se_commit = True\<rparr>"

lemma demo_valid: "list_all cmd_valid demo_cmds"
  by (simp add: demo_cmds_def cmd_valid_def demo_create_def demo_params_def exp_valid_iff exp_str_ok_def EXPERIMENT_ID_MAX_BYTES_def)

lemma demo_length: "unat (wa_counter demo_actor) + length demo_cmds < 2 ^ 64"
  by (simp add: demo_actor_def demo_cmds_def)


section \<open>Batching cannot be observed\<close>

text \<open>The specification: one command after the other, and a command that fails does nothing.\<close>

fun serial ::
  "uses \<Rightarrow> meta_config \<Rightarrow> actor_cmd list \<Rightarrow> u64 \<Rightarrow> tree_db \<Rightarrow> cmd_result option list \<times> u64 \<times> tree_db" where
  "serial u config [] counter db = ([], counter, db)"
| "serial u config (cmd # cmds) counter db =
     (case dispatch_cmd u config cmd counter db of (result, db') \<Rightarrow>
      case serial u config cmds (counter + 1) (if succeeded result then db' else db) of
        (rs, counter, db) \<Rightarrow> (send_result cmd result # rs, counter, db))"

definition env_fine :: "sqlite_env \<Rightarrow> bool" where
  "env_fine env \<longleftrightarrow> se_begin env \<and> (\<forall>i. se_savepoint env i) \<and> se_flush env \<and> se_commit env"

lemma serial_append:
  "serial u config (xs @ ys) counter db =
     (case serial u config xs counter db of (rs, counter, db) \<Rightarrow>
      case serial u config ys counter db of (rs', counter, db) \<Rightarrow> (rs @ rs', counter, db))"
  by (induction xs arbitrary: counter db) (auto split: prod.splits)

lemma serial_meta:
  "serial u config cmds counter (db\<lparr>db_meta := m\<rparr>)
     = apsnd (apsnd (\<lambda>d. d\<lparr>db_meta := m\<rparr>)) (serial u config cmds counter db)"
proof (induction cmds arbitrary: counter db)
  case (Cons cmd cmds)
  obtain r db1 where d: "dispatch_cmd u config cmd counter db = (r, db1)"
    by fastforce
  have step: "(if succeeded r then db1\<lparr>db_meta := m\<rparr> else db\<lparr>db_meta := m\<rparr>)
      = (if succeeded r then db1 else db)\<lparr>db_meta := m\<rparr>"
    by simp
  show ?case
    by (simp add: dispatch_meta d step Cons.IH split: prod.splits)
qed simp

lemma serial_meta_kept: "serial u config cmds counter db = (rs, c, db') \<Longrightarrow> db_meta db' = db_meta db"
  using serial_meta[of u config cmds counter "db_meta db" db] by (cases db') (auto dest: arg_cong[where f = db_meta])

lemma serial_flush:
  assumes "serial u config cmds counter db = (rs, c, db')"
  shows "serial u config cmds counter (flush_counter c0 db) = (rs, c, flush_counter c0 db')"
    "flush_counter c (flush_counter c0 db') = flush_counter c db'"
  using serial_meta[of u config cmds counter _ db] assms serial_meta_kept[OF assms]
  by (simp_all add: flush_counter_def option.map_comp comp_def)

lemma batch_loop_serial:
  assumes "\<forall>i. se_savepoint env i"
  shows "tree_inv (u_blake3 u) (unat counter) db \<Longrightarrow> list_all cmd_valid batch \<Longrightarrow>
    unat counter + length batch < 2 ^ 64 \<Longrightarrow> serial u config batch counter db = (rs, c, db') \<Longrightarrow>
    batch_loop u env config i batch counter db = Ok (rs, c, db', batch \<noteq> [])"
proof (induction batch arbitrary: i counter db rs)
  case (Cons cmd batch)
  have b: "unat counter + Suc (length batch) < 2 ^ 64"
    using Cons.prems by simp
  obtain r db1 where d: "dispatch_cmd u config cmd counter db = (r, db1)"
    by fastforce
  let ?db = "if succeeded r then db1 else db"
  have inv1: "tree_inv (u_blake3 u) (unat (counter + 1)) ?db"
    using dispatch_inv[OF Cons.prems(1) refl, of cmd config] tree_inv_mono[OF Cons.prems(1), of "Suc (unat counter)"]
      d Cons.prems(2) by (simp add: unat_counter_Suc[OF b])
  have np: "\<not> panicked r"
    using dispatch_no_panic[OF Cons.prems(1) refl, of cmd config] d Cons.prems(2) by simp
  obtain rs' where s: "serial u config batch (counter + 1) ?db = (rs', c, db')"
    "rs = send_result cmd r # rs'"
    using Cons.prems(4) d by (auto split: prod.splits)
  have "batch_loop u env config (Suc i) batch (counter + 1) ?db = Ok (rs', c, db', batch \<noteq> [])"
    using Cons.IH[OF inv1 _ _ s(1)] Cons.prems(2) b unat_counter_Suc[OF b] by simp
  then show ?case
    using assms d np s(2) by simp
qed simp

lemma execute_batch_serial:
  assumes env: "env_fine env" and inv: "tree_inv (u_blake3 u) (unat (wa_counter a)) (wa_db a)"
    and valid: "list_all cmd_valid (cmd # batch)"
    and bound: "unat (wa_counter a) + length (cmd # batch) < 2 ^ 64"
    and s: "serial u (wa_config a) (cmd # batch) (wa_counter a) (wa_db a) = (rs, c, db)"
  shows "execute_batch u env (cmd # batch) a
    = (Ok rs, a\<lparr>wa_counter := c, wa_db := flush_counter c db\<rparr>)"
proof -
  have "batch_loop u env (wa_config a) 0 (cmd # batch) (wa_counter a) (wa_db a) = Ok (rs, c, db, True)"
    using batch_loop_serial[OF _ inv valid bound s, of env 0] env by (simp add: env_fine_def del: batch_loop.simps)
  then show ?thesis
    using env by (simp add: execute_batch_def env_fine_def Let_def del: batch_loop.simps)
qed

text \<open>C30: As long as SQLite does what it is asked, the batches of the actor cannot be observed:
  whatever the sizes into which the waiting commands happen to fall, the replies, the counter
  and the tables are those of the commands run one after the other, each with a counter of its
  own, where a command that fails changes nothing.\<close>

theorem run_is_serial:
  assumes "\<forall>i. env_fine (envs i)" "tree_inv (u_blake3 u) (unat (wa_counter a)) (wa_db a)"
    "list_all cmd_valid q" "unat (wa_counter a) + length q < 2 ^ 64"
    "serial u (wa_config a) (taken q) (wa_counter a) (wa_db a) = (rs, c, db)"
  shows "run u envs ready i q a =
    (Ok rs, a\<lparr>wa_counter := c, wa_db := (if taken q = [] then wa_db a else flush_counter c db)\<rparr>)"
  using assms
proof (induction u envs ready i q a arbitrary: rs c db rule: run.induct)
  case (1 u envs ready i a)
  then show ?case
    by (simp add: run.simps)
next
  case (2 u envs ready i first q a)
  show ?case
  proof (cases "first = Shutdown")
    case True
    then show ?thesis
      using 2(6) by (simp add: run.simps)
  next
    case False
    obtain b s r where d: "drain (min (ready i) (wa_batch_max a - 1)) q = (b, s, r)"
      by (cases "drain (min (ready i) (wa_batch_max a - 1)) q") auto
    have len: "length b + length r \<le> length q" "list_all cmd_valid (first # b)" "list_all cmd_valid r"
      using drain_parts[OF d] 2(4) by (auto simp: list_all_iff)
    have bound: "unat (wa_counter a) + length (first # b) < 2 ^ 64"
      using len(1) 2(5) by simp
    obtain rs1 c1 db1 where s1: "serial u (wa_config a) (first # b) (wa_counter a) (wa_db a) = (rs1, c1, db1)"
      by (cases "serial u (wa_config a) (first # b) (wa_counter a) (wa_db a)") auto
    define a1 where "a1 = a\<lparr>wa_counter := c1, wa_db := flush_counter c1 db1\<rparr>"
    have e: "execute_batch u (envs i) (first # b) a = (Ok rs1, a1)"
      using execute_batch_serial[OF _ 2(3) len(2) bound s1] 2(2) by (simp add: a1_def)
    have g: "grown (u_blake3 u) (Suc (length b)) (wa_counter a) (wa_counter a1) (wa_db a1)"
      using execute_batch_inv[OF 2(3) len(2) bound, of "envs i"] e by auto
    have all: "serial u (wa_config a) ((first # b) @ (if s then [] else taken r)) (wa_counter a) (wa_db a)
        = (rs, c, db)"
      using 2(6) False drain_taken[OF d] by simp
    obtain rs2 db2 where s2: "serial u (wa_config a) (if s then [] else taken r) c1 db1 = (rs2, c, db2)"
      "rs = rs1 @ rs2" "db = db2"
      using all unfolding serial_append s1 by (auto split: prod.splits)
    show ?thesis
    proof (cases s)
      case True
      then show ?thesis
        using False d e s2 by (simp add: run.simps sbind_def sreturn_def a1_def)
    next
      case nosh: False
      have flushed: "serial u (wa_config a1) (taken r) (wa_counter a1) (wa_db a1)
          = (rs2, c, flush_counter c1 db)"
        using serial_flush(1) s2 nosh by (simp add: a1_def)
      have "run u envs ready (Suc i) r a1 = (Ok rs2, a1\<lparr>wa_counter := c, wa_db :=
          (if taken r = [] then wa_db a1 else flush_counter c (flush_counter c1 db))\<rparr>)"
        using 2(1)[OF False d[symmetric] refl nosh, of a1, OF 2(2) _ len(3) _ flushed] g len(1) 2(5)
        by (simp add: grown_def)
      moreover have "taken r = [] \<Longrightarrow> c = c1 \<and> db = db1"
        using s2 nosh by simp
      ultimately show ?thesis
        using False nosh d e s2 serial_flush(2)[OF s2(1)]
        by (auto simp: run.simps sbind_def sreturn_def a1_def)
    qed
  qed
qed

theorem run_is_serial_witness:
  "run demo_uses (\<lambda>_. fine_env) (\<lambda>_. 3) 0 demo_cmds demo_actor
    = run demo_uses (\<lambda>_. fine_env) (\<lambda>_. 0) 0 demo_cmds demo_actor"
proof -
  obtain rs c db where s: "serial demo_uses (wa_config demo_actor) (taken demo_cmds) (wa_counter demo_actor)
      (wa_db demo_actor) = (rs, c, db)"
    by (metis prod_cases3)
  have inv: "tree_inv (u_blake3 demo_uses) (unat (wa_counter demo_actor)) (wa_db demo_actor)"
    using demo_inv by (simp add: demo_actor_def)
  have env: "\<forall>i::nat. env_fine fine_env"
    by (simp add: env_fine_def fine_env_def)
  show ?thesis
    using run_is_serial[OF env inv demo_valid demo_length s] by simp
qed

section \<open>A failed commit\<close>

text \<open>C31: When the commit of a batch fails, the transaction is rolled back and the tables are
  those before the batch, but every caller still receives the reply that its command produced
  inside the transaction: success is acknowledged and nothing is stored.\<close>

theorem failed_commit_is_acknowledged:
  assumes env: "se_begin env" "\<forall>i. se_savepoint env i" "\<not> se_commit env"
    and inv: "tree_inv (u_blake3 u) (unat (wa_counter a)) (wa_db a)"
    and valid: "list_all cmd_valid batch" and bound: "unat (wa_counter a) + length batch < 2 ^ 64"
    and s: "serial u (wa_config a) batch (wa_counter a) (wa_db a) = (rs, c, db)"
  shows "execute_batch u env batch a = (Ok rs, a\<lparr>wa_counter := c\<rparr>)"
  using batch_loop_serial[OF env(2) inv valid bound s, of 0] env
  by (simp add: execute_batch_def Let_def)

definition failing_env :: sqlite_env where
  "failing_env = \<lparr>se_begin = True, se_savepoint = (\<lambda>_. True), se_flush = True, se_commit = False\<rparr>"

theorem failed_commit_is_acknowledged_witness:
  "execute_batch demo_uses failing_env [PinCmd (SnapshotRef 7) None] demo_actor
     = (Ok [Some (RUnit (Ok ()))], demo_actor\<lparr>wa_counter := 2\<rparr>)"
proof -
  have s: "serial demo_uses (wa_config demo_actor) [PinCmd (SnapshotRef 7) None] (wa_counter demo_actor)
      (wa_db demo_actor) = ([Some (RUnit (Ok ()))], 2, snd (pin_impl (SnapshotRef 7) None 1 demo_db))"
    by (simp add: dispatch_cmd_def pin_impl_def send_result_def succeeded_def demo_actor_def apfst_def
        map_prod_def split: prod.splits)
  have "execute_batch demo_uses failing_env [PinCmd (SnapshotRef 7) None] demo_actor
      = (Ok [Some (RUnit (Ok ()))], demo_actor\<lparr>wa_counter := 2\<rparr>)"
    by (rule failed_commit_is_acknowledged[OF _ _ _ _ _ _ s])
      (simp_all add: failing_env_def cmd_valid_def demo_inv, simp_all add: demo_actor_def demo_inv)
  then show ?thesis .
qed

end
