(* ===== verification/Meta_Reap.thy ===== *)
theory Meta_Reap
  imports Meta_Serial
begin

text \<open>
  Pruning and reaping: a prune marks exactly the descendants of its node, the reap of that
  tombstone removes exactly them, and a reap never removes a row that is not pruned.  A
  tombstone can outlive its node: then the reap of a new node with the same id is refused.
\<close>

section \<open>Pruning, then reaping\<close>

lemma prune_exact:
  assumes inv: "tree_inv blake3 c db" and ex: "node_exists (experiment_str e) (node_id_to_sql n) db"
    and root: "is_root n \<longrightarrow> allow_root"
  defines "hit \<equiv> below (db_nodes db) (experiment_str e, node_id_to_sql n)"
  shows "prune_subtree_impl e n allow_root counter db =
    (Ok (of_nat (length (filter hit (db_nodes db)))),
     insert_tombstone \<lparr>t_experiment_id = experiment_str e, t_node_id = node_id_to_sql n, t_created_at = counter\<rparr>
       (update_where hit (\<lambda>r. r\<lparr>c_status := status_to_sql Pruned, c_updated_at := counter\<rparr>) db))"
proof -
  obtain keys where keys: "subtree db (experiment_str e) (node_id_to_sql n) = Some keys"
    "\<And>r. r \<in> set (db_nodes db) \<Longrightarrow> node_key r \<in> set keys \<longleftrightarrow> hit r"
    using subtree_ends[OF tree_inv_nodes[OF inv] ex] unfolding hit_def by blast
  have f: "filter (\<lambda>r. node_key r \<in> set keys) (db_nodes db) = filter hit (db_nodes db)"
    by (rule filter_cong) (simp_all add: keys(2))
  have u: "update_where (\<lambda>r. node_key r \<in> set keys) g db = update_where hit g db" for g
    by (simp add: update_where_def keys(2) cong: map_cong)
  show ?thesis
    using ex root by (auto simp: prune_subtree_impl_def Let_def keys(1) f u)
qed

lemma reap_exact:
  assumes inv: "tree_inv blake3 c db" and ex: "node_exists (experiment_str e) (node_id_to_sql n) db"
  defines "hit \<equiv> below (db_nodes db) (experiment_str e, node_id_to_sql n)"
  assumes pruned: "\<And>r. r \<in> set (db_nodes db) \<Longrightarrow> hit r \<Longrightarrow> c_status r = status_to_sql Pruned"
  shows "\<exists>db'. reap_tombstone_impl e n db = (Ok (of_nat (length (filter hit (db_nodes db)))), db')
    \<and> db_nodes db' = filter (\<lambda>r. \<not> hit r) (db_nodes db)
    \<and> db_tombstones db' = filter (\<lambda>t. tombstone_key t \<noteq> (experiment_str e, node_id_to_sql n)) (db_tombstones db)
    \<and> db_pins db' = db_pins db \<and> db_kv_metadata db' = db_kv_metadata db"
proof -
  obtain keys where keys: "subtree db (experiment_str e) (node_id_to_sql n) = Some keys"
    "\<And>r. r \<in> set (db_nodes db) \<Longrightarrow> node_key r \<in> set keys \<longleftrightarrow> hit r"
    using subtree_ends[OF tree_inv_nodes[OF inv] ex] unfolding hit_def by blast
  have f: "filter (\<lambda>r. node_key r \<in> set keys) (db_nodes db) = filter hit (db_nodes db)"
    "filter (\<lambda>r. node_key r \<notin> set keys) (db_nodes db) = filter (\<lambda>r. \<not> hit r) (db_nodes db)"
    by (rule filter_cong, simp_all add: keys(2))+
  have none: "filter (\<lambda>r. node_key r \<in> set keys \<and> c_status r \<noteq> status_to_sql Pruned) (db_nodes db) = []"
    using pruned keys(2) by (auto simp: filter_empty_conv)
  have closed: "node_key r \<in> set keys"
    if "r \<in> set (db_nodes db)" "q \<in> set (db_nodes db)" "parent_row r q" "node_key q \<in> set keys" for r q
    using that below_child keys(2) unfolding hit_def by blast
  show ?thesis
    using ex
    by (simp add: reap_tombstone_impl_def Let_def keys(1) none delete_subtree_inv(1)[OF inv closed] f
        delete_unreferenced_logs_def)
qed

lemma reap_refuses_live:
  assumes inv: "tree_inv blake3 c db" and r: "r \<in> set (db_nodes db)"
    "below (db_nodes db) (experiment_str e, node_id_to_sql n) r" "c_status r \<noteq> status_to_sql Pruned"
    and ex: "node_exists (experiment_str e) (node_id_to_sql n) db"
  shows "\<exists>msg. reap_tombstone_impl e n db = (Err (MeInvalidArgument msg), db)"
proof -
  obtain keys where keys: "subtree db (experiment_str e) (node_id_to_sql n) = Some keys"
    "node_key r \<in> set keys"
    using subtree_ends[OF tree_inv_nodes[OF inv] ex] r(1,2) by blast
  have "filter (\<lambda>r. node_key r \<in> set keys \<and> c_status r \<noteq> status_to_sql Pruned) (db_nodes db) \<noteq> []"
    using keys(2) r by (auto simp: filter_empty_conv)
  then show ?thesis
    using ex keys(1) by (simp add: reap_tombstone_impl_def Let_def)
qed

text \<open>C35: A prune marks the node and its descendants and nothing else, and leaves a tombstone; reaping
  that tombstone removes exactly these rows and returns the same number, removes the tombstone,
  and keeps the invariant, so also every log that a remaining row names.  Both recursive statements end, and the
  foreign key to the parent never makes the deletion fail.\<close>

theorem prune_then_reap_is_exact:
  assumes inv: "tree_inv blake3 (unat counter) db"
    and ex: "node_exists (experiment_str e) (node_id_to_sql n) db" and root: "is_root n \<longrightarrow> allow_root"
  defines "key \<equiv> (experiment_str e, node_id_to_sql n)" and "ns \<equiv> db_nodes db"
  shows "\<exists>db1 db2. prune_subtree_impl e n allow_root counter db
      = (Ok (of_nat (length (filter (below ns key) ns))), db1)
    \<and> db_nodes db1 = map (\<lambda>r. if below ns key r
        then r\<lparr>c_status := status_to_sql Pruned, c_updated_at := counter\<rparr> else r) ns
    \<and> key \<in> tombstone_key ` set (db_tombstones db1)
    \<and> reap_tombstone_impl e n db1 = (Ok (of_nat (length (filter (below ns key) ns))), db2)
    \<and> db_nodes db2 = filter (\<lambda>r. \<not> below ns key r) ns
    \<and> key \<notin> tombstone_key ` set (db_tombstones db2)
    \<and> tree_inv blake3 (Suc (unat counter)) db2"
proof -
  let ?hit = "below ns key"
  define f where "f = (\<lambda>r. if ?hit r then r\<lparr>c_status := status_to_sql Pruned, c_updated_at := counter\<rparr> else r)"
  define db1 where "db1 = insert_tombstone
    \<lparr>t_experiment_id = experiment_str e, t_node_id = node_id_to_sql n, t_created_at = counter\<rparr>
    (update_where ?hit (\<lambda>r. r\<lparr>c_status := status_to_sql Pruned, c_updated_at := counter\<rparr>) db)"
  have prune: "prune_subtree_impl e n allow_root counter db = (Ok (of_nat (length (filter ?hit ns))), db1)"
    unfolding db1_def ns_def key_def by (rule prune_exact[OF inv ex root])
  have inv1: "tree_inv blake3 (Suc (unat counter)) db1"
    by (rule prune_subtree_inv[OF inv refl prune])
  have nodes: "db_nodes db1 = map f ns"
    by (simp add: db1_def insert_tombstone_def update_where_def ns_def f_def)
  have place: "same_place r (f r)" for r
    by (simp add: same_place_def f_def)
  have same: "below (db_nodes db1) key (f r) \<longleftrightarrow> ?hit r" for r
    unfolding below_def nodes child_rel_map[OF place] same_place_key[OF place] ..
  have ex1: "node_exists (experiment_str e) (node_id_to_sql n) db1"
    using ex same_place_key[OF place] unfolding node_exists_iff nodes ns_def by (auto simp: image_iff)
  have pruned: "c_status r = status_to_sql Pruned" if "r \<in> set (db_nodes db1)" "below (db_nodes db1) key r" for r
    using that same by (auto simp: nodes) (simp add: f_def)
  have keep: "filter (\<lambda>r. \<not> below (db_nodes db1) key r) (db_nodes db1) = filter (\<lambda>r. \<not> ?hit r) ns"
    "length (filter (below (db_nodes db1) key) (db_nodes db1)) = length (filter ?hit ns)"
    using same by (auto simp: nodes filter_map comp_def f_def intro!: map_idI)
  obtain db2 where reap: "reap_tombstone_impl e n db1 = (Ok (of_nat (length (filter ?hit ns))), db2)"
    "db_nodes db2 = filter (\<lambda>r. \<not> ?hit r) ns"
    "db_tombstones db2 = filter (\<lambda>t. tombstone_key t \<noteq> key) (db_tombstones db1)"
    using reap_exact[OF inv1 ex1] pruned keep unfolding key_def by auto
  have "key \<in> tombstone_key ` set (db_tombstones db1)"
    by (auto simp: db1_def insert_tombstone_def update_where_def tombstone_key_def key_def)
  moreover have "key \<notin> tombstone_key ` set (db_tombstones db2)"
    by (auto simp: reap(3))
  ultimately show ?thesis
    using prune nodes[unfolded f_def] reap(1,2) reap_tombstone_inv[OF inv1 reap(1)] by blast
qed

theorem prune_then_reap_is_exact_witness:
  "\<exists>db1 db2. prune_subtree_impl (ExperimentId ''e'') (NodeId 1) False 3 demo_tree = (Ok 1, db1)
    \<and> reap_tombstone_impl (ExperimentId ''e'') (NodeId 1) db1 = (Ok 1, db2)
    \<and> map c_node_id (db_nodes db2) = [0]"
proof -
  have ex: "node_exists (experiment_str (ExperimentId ''e'')) (node_id_to_sql (NodeId 1)) demo_tree"
    by (simp add: demo_tree_def new_node_sql_def demo_params_def node_exists_iff node_key_def node_id_to_sql_def)
  have rel: "child_rel (db_nodes demo_tree) = {((''e'', 0), (''e'', 1))}"
  proof -
    define r0 r1 where "r0 = new_node_sql (demo_params 0 None) 0 1"
      and "r1 = new_node_sql (demo_params 1 (Some 0)) 1 2"
    have r: "node_key r0 = (''e'', 0)" "node_key r1 = (''e'', 1)" "parent_row r1 r0"
      "\<not> parent_row r0 r0" "\<not> parent_row r1 r1" "\<not> parent_row r0 r1"
      by (simp_all add: r0_def r1_def new_node_sql_def demo_params_def node_key_def parent_row_def
          node_id_to_sql_def)
    have "db_nodes demo_tree = [r0, r1]"
      by (simp add: demo_tree_def r0_def r1_def)
    then have "child_rel (db_nodes demo_tree) = {(node_key r0, node_key r1)}"
      using r(3-) by (auto simp: child_rel_def)
    then show ?thesis
      by (simp add: r)
  qed
  have "\<not> ((''e'', 1 :: i64), (''e'', 0)) \<in> {((''e'', 0), (''e'', 1))}\<^sup>*"
    by (auto elim: converse_rtranclE)
  then have hit: "filter (below (db_nodes demo_tree) (''e'', 1)) (db_nodes demo_tree)
      = [new_node_sql (demo_params 1 (Some 0)) 1 2]"
    "filter (\<lambda>r. \<not> below (db_nodes demo_tree) (''e'', 1) r) (db_nodes demo_tree)
      = [new_node_sql (demo_params 0 None) 0 1]"
    unfolding below_def rel
    by (simp_all add: demo_tree_def new_node_sql_def demo_params_def node_key_def node_id_to_sql_def)
  have "tree_inv (\<lambda>_. 0) (unat (3 :: u64)) demo_tree"
    using demo_tree_inv by simp
  from prune_then_reap_is_exact[OF this ex, of False] show ?thesis
    using hit by (auto simp: is_root_def node_id_to_sql_def new_node_sql_def demo_params_def)
qed

section \<open>A tombstone without its node\<close>

text \<open>
  Node 1 is pruned, then its child 2, and the tombstone of 1 is reaped.  The tombstone of 2
  stays although its node is gone, and reaping it does not remove it.  A new node 2 under the
  root then makes every reap of that tombstone fail.
\<close>

definition stale_cmds :: "actor_cmd list" where
  "stale_cmds = [demo_create 0 None, demo_create 1 (Some 0), demo_create 2 (Some 1),
     PruneSubtree (ExperimentId ''e'') (NodeId 1) False,
     PruneSubtree (ExperimentId ''e'') (NodeId 2) False,
     ReapTombstone (ExperimentId ''e'') (NodeId 1), ReapTombstone (ExperimentId ''e'') (NodeId 2),
     demo_create 2 (Some 0), ReapTombstone (ExperimentId ''e'') (NodeId 2)]"

text \<open>Everything that the evaluation of commands on nodes unfolds.\<close>

lemmas node_commands = dispatch_cmd_def create_node_impl_def check_root_rule_def node_depth_def
  fetch_node_def select_node_def store_inline_log_def insert_or_existing_def insert_node_def
  new_node_sql_def row_to_node_def experiment_id_new_def EXPERIMENT_ID_MAX_BYTES_def node_key_def
  fk_ok_def sbind_def slift_def Let_def is_root_def node_id_to_sql_def bind_f64_def slice_def
  prune_subtree_impl_def reap_tombstone_impl_def node_exists_def subtree_def rec_cte.simps
  child_keys_def update_where_def insert_tombstone_def tombstone_key_def delete_nodes_def
  delete_unreferenced_logs_def List.map_filter_def status_to_sql_def node_status_from_u8_def
  send_result_def succeeded_def

theorem reap_of_stale_tombstone_fails:
  "case serial demo_uses meta_config_default stale_cmds 1 demo_db of (replies, counter, db) \<Rightarrow>
     map tombstone_key (db_tombstones db) = [(''e'', 2)]
     \<and> map (\<lambda>r. (c_node_id r, c_status r)) (db_nodes db) = [(0, 0), (2, 0)]
     \<and> drop 5 (map (map_option succeeded) replies) = [Some True, Some True, Some True, Some False]"
  by (simp add: stale_cmds_def demo_create_def demo_params_def demo_db_def node_commands)

end
