(* ===== verification/Meta_Query.thy ===== *)
theory Meta_Query
  imports Meta_Invariant "HOL-Library.List_Lexorder" "HOL-Library.Multiset"
begin

text \<open>
  The reads of \<^verbatim>\<open>crates/snapstore-meta/src/pool.rs\<close> and of \<open>MetaDb\<close>, each on the tables
  of one committed state.  \<open>ORDER BY\<close> is a stable sort of the rows in table order.  The
  invariant of \<^verbatim>\<open>Meta_Tree\<close> makes the walk of \<open>get_path\<close> end, and paging by creation time
  visit every row once; paging by update time can lose rows.
\<close>

section \<open>Reads\<close>

text \<open>\<open>ReadPool::with\<close>: the connection of a read, by a counter that goes round.\<close>

definition read_pool_index :: "u64 \<Rightarrow> nat \<Rightarrow> nat" where
  "read_pool_index i n = unat i mod n"

definition get_node :: "tree_db \<Rightarrow> experiment_id \<Rightarrow> node_id \<Rightarrow> (meta_error, node_row option) outcome" where
  "get_node db experiment_id node_id = map_err MeSqlite (fetch_node db experiment_id node_id)"

definition get_children :: "tree_db \<Rightarrow> experiment_id \<Rightarrow> node_id \<Rightarrow> (meta_error, node_row list) outcome" where
  "get_children db experiment_id node_id =
     map_err MeSqlite (collect_rows row_to_node
       (sort_key (\<lambda>r. sint (c_node_id r))
         (filter (\<lambda>r. c_experiment_id r = experiment_str experiment_id
                    \<and> c_parent_node_id r = Some (node_id_to_sql node_id)) (db_nodes db))))"

definition get_input_log :: "tree_db \<Rightarrow> log_id \<Rightarrow> (meta_error, bytes option) outcome" where
  "get_input_log db log_id = Ok (map_option l_content (select_log (log_id_to_sql log_id) db))"

text \<open>The recursive part of \<open>path_cte\<close>: the parents of the nodes with the given ids.\<close>

definition parent_ids :: "tree_db \<Rightarrow> string \<Rightarrow> i64 list \<Rightarrow> i64 list" where
  "parent_ids db e ns =
     concat (map (\<lambda>n. List.map_filter c_parent_node_id
                        (filter (\<lambda>r. node_key r = (e, n)) (db_nodes db))) ns)"

fun attach_logs ::
  "tree_db \<Rightarrow> node_row list \<Rightarrow> (meta_error, (node_row \<times> bytes option) list) outcome" where
  "attach_logs db [] = Ok []"
| "attach_logs db (node # nodes) =
     obind (case nr_input_log_id node of
              Some lid \<Rightarrow> get_input_log db lid
            | None \<Rightarrow> Ok None) (\<lambda>log_bytes.
     obind (attach_logs db nodes) (\<lambda>result. Ok ((node, log_bytes) # result)))"

definition get_path ::
  "tree_db \<Rightarrow> experiment_id \<Rightarrow> node_id \<Rightarrow> bool
     \<Rightarrow> (meta_error, (node_row \<times> bytes option) list) outcome" where
  "get_path db experiment_id node_id include_logs =
     (let e = experiment_str experiment_id in
      obind (unwrap (rec_cte (parent_ids db e)
               (map c_node_id (filter (\<lambda>r. node_key r = (e, node_id_to_sql node_id)) (db_nodes db)))))
        (\<lambda>nids.
      obind (map_err MeSqlite (collect_rows row_to_node
               (sort_key (\<lambda>r. sint (c_depth r))
                 (filter (\<lambda>r. c_experiment_id r = e \<and> c_node_id r \<in> set nids) (db_nodes db)))))
        (\<lambda>nodes.
      if \<not> include_logs then Ok (map (\<lambda>n. (n, None)) nodes)
      else attach_logs db nodes)))"

primrec order_col :: "query_order \<Rightarrow> node_sql \<Rightarrow> i64" where
  "order_col ByCreatedAt = c_created_at"
| "order_col ByUpdatedAt = c_updated_at"
| "order_col ByNodeId = c_node_id"

text \<open>\<open>?N IS NULL OR ...\<close>.\<close>

definition opt_cond :: "'a option \<Rightarrow> ('a \<Rightarrow> bool) \<Rightarrow> bool" where
  "opt_cond v p = (case v of None \<Rightarrow> True | Some x \<Rightarrow> p x)"

definition query_hit :: "query_filter \<Rightarrow> node_sql \<Rightarrow> bool" where
  "query_hit f r \<longleftrightarrow>
     c_experiment_id r = experiment_str (qf_experiment_id f)
     \<and> opt_cond (qf_status f) (\<lambda>s. c_status r = status_to_sql s)
     \<and> opt_cond (qf_parent_node_id f) (\<lambda>p. c_parent_node_id r = Some (node_id_to_sql p))
     \<and> opt_cond (qf_min_depth f) (\<lambda>d. sint (c_depth r) \<ge> sint (ucast d :: i64))
     \<and> opt_cond (qf_max_depth f) (\<lambda>d. sint (c_depth r) \<le> sint (ucast d :: i64))
     \<and> opt_cond (qf_created_after f) (\<lambda>v. sint (c_created_at r) > sint v)
     \<and> opt_cond (qf_updated_after f) (\<lambda>v. sint (c_updated_at r) > sint v)"

definition query_rows :: "tree_db \<Rightarrow> query_filter \<Rightarrow> node_sql list" where
  "query_rows db f =
     take (unat (effective_limit f))
       (sort_key (\<lambda>r. sint (order_col (qf_order f) r)) (filter (query_hit f) (db_nodes db)))"

definition query_nodes :: "tree_db \<Rightarrow> query_filter \<Rightarrow> (meta_error, node_row list) outcome" where
  "query_nodes db f = map_err MeSqlite (collect_rows row_to_node (query_rows db f))"

definition get_metadata :: "tree_db \<Rightarrow> bytes \<Rightarrow> (meta_error, (bytes \<times> u64) option) outcome" where
  "get_metadata db key =
     (case select_kv key db of
        None \<Rightarrow> Ok None
      | Some r \<Rightarrow> obind (map_err MeSqlite (get_i64 1 (k_generation r))) (\<lambda>g. Ok (Some (k_value r, g))))"

definition list_pins :: "tree_db \<Rightarrow> (meta_error, pin_row list) outcome" where
  "list_pins db =
     map_err MeSqlite (collect_rows (\<lambda>r.
       obind (slice 0 32 (p_snapshot_ref r)) (\<lambda>arr.
       Ok \<lparr>pin_snapshot_ref = snapshot_ref_from_bytes arr, pin_note = p_note r,
           pin_created_at = p_created_at r\<rparr>))
       (sort_key (\<lambda>r. sint (p_created_at r)) (db_pins db)))"

definition gc_root_refs :: "tree_db \<Rightarrow> (meta_error, snapshot_ref list) outcome" where
  "gc_root_refs db =
     map_err MeSqlite (collect_rows (\<lambda>blob.
       obind (slice 0 32 blob) (\<lambda>arr. Ok (snapshot_ref_from_bytes arr)))
       (remdups (map c_snapshot_ref (db_nodes db) @ map p_snapshot_ref (db_pins db))))"

definition list_tombstones :: "tree_db \<Rightarrow> u64 \<Rightarrow> (meta_error, tombstone_row list) outcome" where
  "list_tombstones db horizon =
     (let horizon_i64 = min horizon (2 ^ 63 - 1) in
      map_err MeSqlite (collect_rows (\<lambda>t.
        obind (map_err (\<lambda>_. InvalidColumnType 0) (experiment_id_new (t_experiment_id t))) (\<lambda>e.
        Ok \<lparr>ts_experiment_id = e, ts_node_id = NodeId (t_node_id t), ts_created_at = t_created_at t\<rparr>))
        (sort_key (\<lambda>t. sint (t_created_at t))
          (filter (\<lambda>t. sint (t_created_at t) \<le> sint horizon_i64) (db_tombstones db)))))"

definition read_gc_state :: "tree_db \<Rightarrow> (meta_error, gc_state_row) outcome" where
  "read_gc_state db =
     (case db_gc_state db of
        None \<Rightarrow> Err (MeSqlite QueryReturnedNoRows)
      | Some g \<Rightarrow> Ok \<lparr>gs_cycles_total = g_cycles_total g,
          gs_last_fence_counter = g_last_fence_counter g,
          gs_last_finished_at = g_last_finished_at g,
          gs_last_freed_bytes = g_last_freed_bytes g\<rparr>)"

definition count_status :: "tree_db \<Rightarrow> string \<Rightarrow> node_status \<Rightarrow> u64" where
  "count_status db e s =
     of_nat (length (filter (\<lambda>r. c_experiment_id r = e \<and> c_status r = status_to_sql s) (db_nodes db)))"

text \<open>\<open>COALESCE(MAX(depth), 0)\<close>.\<close>

definition max_signed :: "i64 list \<Rightarrow> i64" where
  "max_signed vs = (case vs of [] \<Rightarrow> 0 | v # vs \<Rightarrow> fold (\<lambda>x m. if sint m < sint x then x else m) vs v)"

definition meta_stats :: "tree_db \<Rightarrow> experiment_id option \<Rightarrow> (meta_error, stats_row) outcome" where
  "meta_stats db experiment_id =
     (case db_meta db of
        None \<Rightarrow> Err (MeSqlite QueryReturnedNoRows)
      | Some m \<Rightarrow>
          let ns = db_nodes db;
              row = \<lparr>st_experiments_count = of_nat (length (remdups (map c_experiment_id ns))),
                st_total_nodes = of_nat (length ns),
                st_pins_count = of_nat (length (db_pins db)),
                st_tombstones_count = of_nat (length (db_tombstones db)),
                st_logical_counter = m_logical_counter m,
                st_kv_count = of_nat (length (db_kv_metadata db)),
                st_input_logs_count = of_nat (length (db_input_logs db)),
                st_input_logs_bytes = of_nat (sum_list (map (length \<circ> l_content) (db_input_logs db))),
                st_exp_nodes_frontier = 0, st_exp_nodes_expanded = 0, st_exp_nodes_pruned = 0,
                st_exp_nodes_goal = 0, st_exp_max_depth = 0, st_exp_input_log_count = 0\<rparr>
          in case experiment_id of
              None \<Rightarrow> Ok row
            | Some ex \<Rightarrow>
                let e = experiment_str ex; es = filter (\<lambda>r. c_experiment_id r = e) ns in
                Ok (row\<lparr>st_exp_nodes_frontier := count_status db e Frontier,
                        st_exp_nodes_expanded := count_status db e Expanded,
                        st_exp_nodes_pruned := count_status db e Pruned,
                        st_exp_nodes_goal := count_status db e Goal,
                        st_exp_max_depth := ucast (max_signed (map c_depth es)),
                        st_exp_input_log_count :=
                          of_nat (length (remdups (List.map_filter c_input_log_id es)))\<rparr>))"

definition list_experiments :: "tree_db \<Rightarrow> (meta_error, experiment_id list) outcome" where
  "list_experiments db =
     collect_rows (\<lambda>s. map_err (\<lambda>_. MeIo ''invalid experiment_id'') (experiment_id_new s))
       (sort_key (map (of_char :: char \<Rightarrow> nat)) (remdups (map c_experiment_id (db_nodes db))))"

section \<open>Paging\<close>

text \<open>A client that asks for the next page from the creation time of the last row it has seen.\<close>

fun page_all :: "tree_db \<Rightarrow> query_filter \<Rightarrow> nat \<Rightarrow> u64 option \<Rightarrow> node_sql list" where
  "page_all db f 0 cursor = []"
| "page_all db f (Suc n) cursor =
     (let rows = query_rows db (f\<lparr>qf_created_after := cursor\<rparr>) in
      if rows = [] then [] else rows @ page_all db f n (Some (c_created_at (last rows))))"

lemma sint_eq_iff: "sint a = sint b \<longleftrightarrow> a = (b :: i64)"
  by (auto intro: signed_word_eqI)

lemma sint_small:
  assumes "unat (v :: i64) < 2 ^ 63"
  shows "sint v = int (unat v)"
proof -
  have "int (unat v) < int (2 ^ 63)"
    using assms by (simp only: of_nat_less_iff)
  then have u: "uint v < 2 ^ 63"
    by simp
  have "- (2 ^ 63) \<le> uint v"
    by (rule order_trans[of _ 0]) simp_all
  with u have "signed_take_bit 63 (uint v) = uint v"
    by (intro signed_take_bit_int_eq_self)
  then show ?thesis
    by (simp add: sint_uint)
qed

text \<open>The rows after the last of a prefix of a strictly increasing list are the rest of it.\<close>

lemma filter_after_take:
  fixes key :: "'a \<Rightarrow> int"
  assumes inc: "sorted_wrt (\<lambda>a b. key a < key b) xs" and L: "0 < L" "take L xs \<noteq> []"
  shows "filter (\<lambda>x. key x > key (last (take L xs))) xs = drop L xs"
proof -
  have split: "xs = take L xs @ drop L xs"
    by simp
  have inc': "sorted_wrt (\<lambda>a b. key a < key b) (take L xs @ drop L xs)"
    using inc by simp
  have "key x \<le> key (last (take L xs))" if "x \<in> set (take L xs)" for x
  proof -
    have "take L xs = butlast (take L xs) @ [last (take L xs)]"
      using L(2) by simp
    then have "sorted_wrt (\<lambda>a b. key a < key b) (butlast (take L xs) @ [last (take L xs)])"
      using inc' by (metis sorted_wrt_append)
    then show ?thesis
      using that \<open>take L xs = butlast (take L xs) @ [last (take L xs)]\<close>
      by (metis (no_types, lifting) Un_iff less_imp_le list.set_intros(1) order_refl set_append set_ConsD
          sorted_wrt_append empty_iff list.set(1))
  qed
  moreover have "key x > key (last (take L xs))" if "x \<in> set (drop L xs)" for x
    using inc' that L(2) last_in_set[OF L(2)] unfolding sorted_wrt_append by blast
  ultimately have "filter (\<lambda>x. key x > key (last (take L xs))) (take L xs @ drop L xs) = drop L xs"
    by (simp only: filter_append) (fastforce simp: filter_empty_conv filter_id_conv)
  then show ?thesis
    by simp
qed

lemma sorted_wrt_less_iff:
  fixes key :: "'a \<Rightarrow> int"
  shows "sorted (map key xs) \<Longrightarrow> distinct (map key xs) \<Longrightarrow> sorted_wrt (\<lambda>a b. key a < key b) xs"
  by (induction xs) (auto simp: order.strict_iff_order image_iff)

text \<open>All rows that a filter selects, by creation time.\<close>

definition hits_by_creation :: "tree_db \<Rightarrow> query_filter \<Rightarrow> node_sql list" where
  "hits_by_creation db f =
     sort_key (\<lambda>r. sint (c_created_at r)) (filter (query_hit (f\<lparr>qf_created_after := None\<rparr>)) (db_nodes db))"

lemma hits_increasing:
  assumes inv: "nodes_inv c (db_nodes db)"
  shows "sorted_wrt (\<lambda>a b. sint (c_created_at a) < sint (c_created_at b)) (hits_by_creation db f)"
proof (rule sorted_wrt_less_iff)
  have "inj_on (\<lambda>r. sint (c_created_at r)) (set (db_nodes db))"
    using inv by (auto simp: nodes_inv_def distinct_map inj_on_def sint_eq_iff)
  moreover have "distinct (db_nodes db)"
    using inv by (auto simp: nodes_inv_def distinct_map)
  ultimately show "distinct (map (\<lambda>r. sint (c_created_at r)) (hits_by_creation db f))"
    unfolding hits_by_creation_def distinct_map
    by (auto intro: inj_on_subset)
qed (simp add: hits_by_creation_def)

lemma query_rows_after:
  assumes "qf_order f = ByCreatedAt"
  shows "query_rows db (f\<lparr>qf_created_after := Some v\<rparr>)
      = take (unat (effective_limit f)) (filter (\<lambda>r. sint (c_created_at r) > sint v) (hits_by_creation db f))"
    "query_rows db (f\<lparr>qf_created_after := None\<rparr>) = take (unat (effective_limit f)) (hits_by_creation db f)"
proof -
  have "filter (query_hit (f\<lparr>qf_created_after := Some v\<rparr>)) ns
      = filter (\<lambda>r. sint (c_created_at r) > sint v) (filter (query_hit (f\<lparr>qf_created_after := None\<rparr>)) ns)"
    for ns
    by (auto simp: query_hit_def opt_cond_def intro!: filter_cong)
  then show "query_rows db (f\<lparr>qf_created_after := Some v\<rparr>)
      = take (unat (effective_limit f)) (filter (\<lambda>r. sint (c_created_at r) > sint v) (hits_by_creation db f))"
    using assms by (simp add: query_rows_def hits_by_creation_def effective_limit_def filter_sort)
  show "query_rows db (f\<lparr>qf_created_after := None\<rparr>) = take (unat (effective_limit f)) (hits_by_creation db f)"
    using assms by (simp add: query_rows_def hits_by_creation_def effective_limit_def)
qed

lemma page_all_rest:
  fixes xs ys :: "node_sql list"
  assumes ord: "qf_order f = ByCreatedAt" and L: "0 < unat (effective_limit f)"
    and inc: "sorted_wrt (\<lambda>a b. sint (c_created_at a) < sint (c_created_at b)) (hits_by_creation db f)"
    and rest: "\<And>v. cursor = Some v \<Longrightarrow> filter (\<lambda>r. sint (c_created_at r) > sint v) (hits_by_creation db f) = ys"
      "cursor = None \<Longrightarrow> hits_by_creation db f = ys"
    and n: "length ys < n"
  shows "page_all db f n cursor = ys"
  using rest n
proof (induction n arbitrary: cursor ys)
  case (Suc n)
  let ?L = "unat (effective_limit f)"
  have rows: "query_rows db (f\<lparr>qf_created_after := cursor\<rparr>) = take ?L ys"
    using Suc.prems(1,2) query_rows_after[OF ord] by (cases cursor) simp_all
  show ?case
  proof (cases "ys = []")
    case True
    then show ?thesis
      using rows by simp
  next
    case False
    then have ne: "take ?L ys \<noteq> []"
      using L by (cases ?L) auto
    let ?v = "c_created_at (last (take ?L ys))"
    have inc_ys: "sorted_wrt (\<lambda>a b. sint (c_created_at a) < sint (c_created_at b)) ys"
      using Suc.prems(1,2) inc by (cases cursor) (auto intro: sorted_wrt_filter)
    have "last (take ?L ys) \<in> set ys"
      using last_in_set[OF ne] by (meson in_set_takeD)
    then have v: "sint w < sint ?v" if "cursor = Some w" for w
      using Suc.prems(1)[OF that] by auto
    have "filter (\<lambda>r. sint (c_created_at r) > sint ?v) (hits_by_creation db f)
        = filter (\<lambda>r. sint (c_created_at r) > sint ?v) ys"
    proof (cases cursor)
      case (Some w)
      have "filter (\<lambda>r. sint (c_created_at r) > u) (hits_by_creation db f)
          = filter (\<lambda>r. sint (c_created_at r) > u)
              (filter (\<lambda>r. sint (c_created_at r) > sint w) (hits_by_creation db f))"
        if "sint w < u" for u
        unfolding filter_filter using that by (intro filter_cong) auto
      from this[OF v[OF Some]] show ?thesis
        by (simp only: Suc.prems(1)[OF Some])
    qed (use Suc.prems(2) in simp)
    also have "\<dots> = drop ?L ys"
      by (rule filter_after_take[OF inc_ys L ne])
    finally have "page_all db f n (Some ?v) = drop ?L ys"
      using Suc.IH[of "Some ?v" "drop ?L ys"] Suc.prems(3) L False by (cases ys) auto
    then show ?thesis
      using rows ne by simp
  qed
qed simp

text \<open>C32: A client that pages through a query by creation time, each time from the last row of the
  page before, sees every matching row exactly once, in order of creation, whatever the page
  size: no row is skipped and none is repeated, because no two nodes share a creation stamp.\<close>

theorem paging_by_creation_is_complete:
  assumes inv: "tree_inv blake3 c db" and ord: "qf_order f = ByCreatedAt" and lim: "qf_limit f \<noteq> Some 0"
    and n: "length (db_nodes db) < n"
  shows "page_all db f n None = hits_by_creation db f
    \<and> set (hits_by_creation db f) = {r \<in> set (db_nodes db). query_hit (f\<lparr>qf_created_after := None\<rparr>) r}
    \<and> distinct (map c_created_at (hits_by_creation db f))"
proof (intro conjI)
  have L: "0 < unat (effective_limit f)"
    using lim by (auto simp: effective_limit_def min_def unat_gt_0 split: option.splits)
  have inc: "sorted_wrt (\<lambda>a b. sint (c_created_at a) < sint (c_created_at b)) (hits_by_creation db f)"
    using inv by (intro hits_increasing[of c]) (simp add: tree_inv_def)
  have len: "length (hits_by_creation db f) < n"
    using n by (simp add: hits_by_creation_def le_less_trans[OF length_filter_le])
  show "page_all db f n None = hits_by_creation db f"
    by (rule page_all_rest[OF ord L inc]) (use len in auto)
  show "set (hits_by_creation db f) = {r \<in> set (db_nodes db). query_hit (f\<lparr>qf_created_after := None\<rparr>) r}"
    by (auto simp: hits_by_creation_def)
  have "distinct (map c_created_at (db_nodes db))"
    using inv by (simp add: tree_inv_def nodes_inv_def)
  then show "distinct (map c_created_at (hits_by_creation db f))"
    by (auto simp: hits_by_creation_def distinct_map intro: inj_on_subset)
qed

theorem paging_by_creation_is_complete_witness:
  "page_all demo_tree (query_filter_new (ExperimentId ''e'')\<lparr>qf_limit := Some 1\<rparr>) 3 None
    = db_nodes demo_tree"
proof -
  let ?f = "query_filter_new (ExperimentId ''e'')\<lparr>qf_limit := Some 1\<rparr>"
  have "page_all demo_tree ?f 3 None = hits_by_creation demo_tree ?f"
    using paging_by_creation_is_complete[OF demo_tree_inv[of "\<lambda>_. 0"], of ?f 3]
    by (simp add: query_filter_new_def demo_tree_def)
  also have "\<dots> = db_nodes demo_tree"
    by (simp add: hits_by_creation_def demo_tree_def demo_params_def new_node_sql_def query_hit_def
        query_filter_new_def opt_cond_def)
  finally show ?thesis .
qed

text \<open>
  Paging by update time is another matter: the rows that one command updates share its stamp,
  and the next page starts after that stamp.
\<close>

theorem paging_by_update_loses_rows:
  defines "both \<equiv> update_where (\<lambda>_. True) (\<lambda>r. r\<lparr>c_updated_at := 9\<rparr>) demo_tree"
    and "f \<equiv> query_filter_new (ExperimentId ''e'')\<lparr>qf_limit := Some 1, qf_order := ByUpdatedAt\<rparr>"
  shows "map c_node_id (query_rows both f) = [0] \<and> query_rows both (f\<lparr>qf_updated_after := Some 9\<rparr>) = []
    \<and> length (filter (query_hit f) (db_nodes both)) = 2"
  by (simp add: both_def f_def update_where_def query_rows_def demo_tree_def demo_params_def
      new_node_sql_def query_hit_def query_filter_new_def opt_cond_def effective_limit_def node_id_to_sql_def)

end
