(* ===== verification/Meta_Path.thy ===== *)
theory Meta_Path
  imports Meta_Query
begin

text \<open>
  \<open>get_path\<close> on tables that satisfy the invariant: the walk to the root ends and returns the
  lineage of the node, root first, with the logs that the rows name.
\<close>

section \<open>Lineages\<close>

definition lineage :: "node_sql list \<Rightarrow> node_sql list \<Rightarrow> node_sql \<Rightarrow> bool" where
  "lineage ns xs r \<longleftrightarrow>
     xs \<noteq> [] \<and> last xs = r \<and> c_parent_node_id (hd xs) = None \<and> set xs \<subseteq> set ns \<and> distinct xs
     \<and> (\<forall>i. Suc i < length xs \<longrightarrow> parent_row (xs ! Suc i) (xs ! i))
     \<and> (\<forall>i < length xs. unat (c_depth (xs ! i)) = i)
     \<and> (\<forall>x \<in> set xs. c_experiment_id x = c_experiment_id r)
     \<and> (\<forall>x \<in> set xs. unat (c_created_at x) \<le> unat (c_created_at r))"

lemma unat_child_depth:
  assumes "unat (c_depth q) = n" "Suc n < 2 ^ 32"
  shows "unat (child_depth q) = Suc n"
proof -
  define y :: u32 where "y = ucast (c_depth q)"
  have "unat y = take_bit 32 n"
    by (simp add: y_def unsigned_ucast_eq assms(1))
  then have y: "unat y = n"
    using assms(2) by (simp add: take_bit_nat_eq_self)
  have "unat (y + 1) = (unat y + unat (1 :: u32)) mod 2 ^ LENGTH(32)"
    by (rule unat_word_ariths(1))
  then have z: "unat (y + 1) = Suc n"
    using assms(2) y by simp
  define w where "w = y + 1"
  have "unat (ucast w :: i64) = take_bit 64 (unat w)"
    by (simp add: unsigned_ucast_eq)
  then have "unat (ucast w :: i64) = Suc n"
    using assms(2) z by (simp add: w_def take_bit_nat_eq_self)
  then show ?thesis
    unfolding child_depth_def w_def y_def .
qed

lemma lineageD:
  assumes "lineage ns xs r"
  shows "xs \<noteq> []" "last xs = r" "c_parent_node_id (hd xs) = None" "set xs \<subseteq> set ns" "distinct xs"
    "\<And>i. Suc i < length xs \<Longrightarrow> parent_row (xs ! Suc i) (xs ! i)"
    "\<And>i. i < length xs \<Longrightarrow> unat (c_depth (xs ! i)) = i"
    "\<And>x. x \<in> set xs \<Longrightarrow> c_experiment_id x = c_experiment_id r"
    "\<And>x. x \<in> set xs \<Longrightarrow> unat (c_created_at x) \<le> unat (c_created_at r)"
  using assms unfolding lineage_def by blast+

lemma lineage_length:
  assumes "distinct xs" "set xs \<subseteq> set ns"
  shows "length xs \<le> length ns"
proof -
  have "length xs = card (set xs)"
    using distinct_card[OF assms(1)] by simp
  also have "\<dots> \<le> card (set ns)"
    by (rule card_mono[OF finite_set assms(2)])
  also have "\<dots> \<le> length ns"
    by (rule card_length)
  finally show ?thesis .
qed

lemma lineage_snoc:
  assumes lin: "lineage ns xs q" and r: "r \<in> set ns" "parent_row r q"
    and late: "unat (c_created_at q) < unat (c_created_at r)"
    and depth: "c_depth r = child_depth q" and len: "length ns \<le> 2 ^ 32"
  shows "lineage ns (xs @ [r]) r"
  unfolding lineage_def
proof (intro conjI allI impI ballI)
  have ne: "xs \<noteq> []" and lq: "xs ! (length xs - 1) = q"
    using lineageD(1,2)[OF lin] by (simp_all add: last_conv_nth)
  have "r \<notin> set xs"
    using lineageD(9)[OF lin, of r] late by linarith
  then show new: "distinct (xs @ [r])"
    using lineageD(5)[OF lin] by simp
  show sub: "set (xs @ [r]) \<subseteq> set ns"
    using lineageD(4)[OF lin] r(1) by simp
  have "length xs < 2 ^ 32"
    using lineage_length[OF new sub] len by simp
  moreover have "unat (c_depth q) = length xs - 1" "Suc (length xs - 1) = length xs"
    using lineageD(7)[OF lin, of "length xs - 1"] lq ne by simp_all
  ultimately have d: "unat (c_depth r) = length xs"
    using unat_child_depth[of q "length xs - 1"] depth by metis
  show "unat (c_depth ((xs @ [r]) ! i)) = i" if "i < length (xs @ [r])" for i
    using that d lineageD(7)[OF lin, of i] by (cases "i < length xs") (simp_all add: nth_append less_Suc_eq)
  show "parent_row ((xs @ [r]) ! Suc i) ((xs @ [r]) ! i)" if "Suc i < length (xs @ [r])" for i
  proof (cases "Suc i < length xs")
    case True
    then show ?thesis
      using lineageD(6)[OF lin True] by (simp add: nth_append)
  next
    case False
    with that have i: "i = length xs - 1" "Suc i = length xs"
      by simp_all
    then show ?thesis
      using r(2) lq ne by (simp add: nth_append)
  qed
  show "c_experiment_id x = c_experiment_id r" if "x \<in> set (xs @ [r])" for x
    using that lineageD(8)[OF lin, of x] r(2) by (auto simp: parent_row_def)
  show "unat (c_created_at x) \<le> unat (c_created_at r)" if "x \<in> set (xs @ [r])" for x
    using that lineageD(9)[OF lin, of x] late by auto
  show "c_parent_node_id (hd (xs @ [r])) = None"
    using lineageD(3)[OF lin] ne by simp
qed simp_all

lemma lineage_exists:
  assumes inv: "nodes_inv c ns" and len: "length ns \<le> 2 ^ 32"
  shows "r \<in> set ns \<Longrightarrow> \<exists>xs. lineage ns xs r"
proof (induction "unat (c_created_at r)" arbitrary: r rule: less_induct)
  case less
  have placed: "placed ns r"
    using inv less.prems by (simp add: nodes_inv_def)
  show ?case
  proof (cases "c_parent_node_id r")
    case None
    then have "lineage ns [r] r"
      using placed less.prems by (simp add: lineage_def placed_def)
    then show ?thesis ..
  next
    case (Some p)
    then obtain q where q: "q \<in> set ns" "parent_row r q" "unat (c_created_at q) < unat (c_created_at r)"
      "c_depth r = child_depth q"
      using placed by (auto simp: placed_def)
    then show ?thesis
      using less.hyps[OF q(3,1)] lineage_snoc[OF _ less.prems q(2-4) len] by blast
  qed
qed

section \<open>The walk to the root\<close>

definition parent_rel :: "node_sql list \<Rightarrow> string \<Rightarrow> (i64 \<times> i64) set" where
  "parent_rel ns e = {(c_node_id r, p) | r p. r \<in> set ns \<and> c_experiment_id r = e \<and> c_parent_node_id r = Some p}"

lemma parent_ids_set: "set (parent_ids db e ks) = parent_rel (db_nodes db) e `` set ks"
  by (force simp: parent_ids_def parent_rel_def node_key_def List.map_filter_def)

lemma parent_rel_rank:
  assumes inv: "nodes_inv c ns" and k: "(n, p) \<in> parent_rel ns e"
  shows "c - key_rank ns (e, n) < c - key_rank ns (e, p) \<and> c - key_rank ns (e, p) < Suc c"
proof -
  obtain r where r: "r \<in> set ns" "node_key r = (e, n)" "c_experiment_id r = e" "c_parent_node_id r = Some p"
    using k by (auto simp: parent_rel_def node_key_def)
  obtain q where q: "q \<in> set ns" "node_key q = (e, p)" "unat (c_created_at q) < unat (c_created_at r)"
    using nodes_inv_row(4)[OF inv r(1,4)] r(3) by blast
  have "key_rank ns (e, n) = unat (c_created_at r)" "key_rank ns (e, p) = unat (c_created_at q)"
    using key_rank_node[OF inv r(1)] key_rank_node[OF inv q(1)] r(2) q(2) by simp_all
  then show ?thesis
    using nodes_inv_row(2)[OF inv r(1)] q(3) by linarith
qed

lemma lineage_ids:
  assumes inv: "nodes_inv c ns" and lin: "lineage ns xs r"
  shows "(parent_rel ns (c_experiment_id r))\<^sup>* `` {c_node_id r} = c_node_id ` set xs"
proof -
  let ?R = "parent_rel ns (c_experiment_id r)"
  have up: "?R `` {c_node_id x} = (case c_parent_node_id x of Some p \<Rightarrow> {p} | None \<Rightarrow> {})"
    if x: "x \<in> set xs" for x
  proof -
    have in_ns: "x \<in> set ns" "c_experiment_id x = c_experiment_id r"
      using lineageD(4)[OF lin] lineageD(8)[OF lin x] x by blast+
    have "c_parent_node_id x = Some p" if k: "(c_node_id x, p) \<in> ?R" for p
    proof -
      obtain y where y: "y \<in> set ns" "c_experiment_id y = c_experiment_id r" "c_node_id y = c_node_id x"
        "c_parent_node_id y = Some p"
        using k unfolding parent_rel_def by auto
      then have "y = x"
        by (intro nodes_inv_key[OF inv y(1) in_ns(1)]) (simp add: node_key_def in_ns)
      with y show ?thesis
        by simp
    qed
    moreover have "(c_node_id x, p) \<in> ?R" if "c_parent_node_id x = Some p" for p
      using that in_ns unfolding parent_rel_def by blast
    ultimately have "(c_node_id x, p) \<in> ?R \<longleftrightarrow> c_parent_node_id x = Some p" for p
      by blast
    then show ?thesis
      by (cases "c_parent_node_id x") (simp_all add: Image_singleton)
  qed
  have "?R\<^sup>* `` {c_node_id (xs ! i)} = c_node_id ` set (take (Suc i) xs)" if "i < length xs" for i
    using that
  proof (induction i)
    case 0
    then have "c_parent_node_id (xs ! 0) = None"
      using lin by (simp add: lineage_def hd_conv_nth)
    then have "?R `` {c_node_id (xs ! 0)} = {}"
      using up[OF nth_mem[OF 0]] by simp
    then have "?R\<^sup>* `` {c_node_id (xs ! 0)} = {c_node_id (xs ! 0)}"
      using rtrancl_Image_unfold[of ?R "{c_node_id (xs ! 0)}"] by simp
    then show ?case
      using 0 by (simp add: take_Suc_conv_app_nth)
  next
    case (Suc i)
    have "c_parent_node_id (xs ! Suc i) = Some (c_node_id (xs ! i))"
      using lin Suc.prems by (simp add: lineage_def parent_row_def)
    then have "?R `` {c_node_id (xs ! Suc i)} = {c_node_id (xs ! i)}"
      using up[OF nth_mem[OF Suc.prems]] by simp
    then have "?R\<^sup>* `` {c_node_id (xs ! Suc i)} = insert (c_node_id (xs ! Suc i)) (?R\<^sup>* `` {c_node_id (xs ! i)})"
      using rtrancl_Image_unfold[of ?R "{c_node_id (xs ! Suc i)}"] by simp
    then show ?case
      using Suc by (simp add: take_Suc_conv_app_nth insert_commute)
  qed
  moreover have "xs ! (length xs - 1) = r" "xs \<noteq> []"
    using lineageD(1,2)[OF lin] by (simp_all add: last_conv_nth)
  ultimately show ?thesis
    by (metis Suc_pred' diff_less length_greater_0_conv order_refl take_all zero_less_one)
qed

lemma path_rows:
  assumes inv: "nodes_inv c (db_nodes db)" and lin: "lineage (db_nodes db) xs r" and r: "r \<in> set (db_nodes db)"
    and e: "c_experiment_id r = e" and len: "length (db_nodes db) \<le> 2 ^ 32"
  obtains nids where
    "rec_cte (parent_ids db e) (map c_node_id (filter (\<lambda>q. node_key q = (e, c_node_id r)) (db_nodes db))) = Some nids"
    "sort_key (\<lambda>q. sint (c_depth q)) (filter (\<lambda>q. c_experiment_id q = e \<and> c_node_id q \<in> set nids) (db_nodes db)) = xs"
proof -
  let ?ns = "db_nodes db"
  let ?f = "map c_node_id (filter (\<lambda>q. node_key q = (e, c_node_id r)) ?ns)"
  have f: "set ?f = {c_node_id r}"
    using r e by (auto simp: node_key_def)
  have "\<forall>k \<in> set ?f. c - key_rank ?ns (e, k) < Suc c \<and> Suc c - (c - key_rank ?ns (e, k)) \<le> Suc c"
    unfolding f by simp
  from rec_cte_reaches[OF parent_ids_set[of db e] parent_rel_rank[OF inv, of _ _ e] this]
  obtain nids where "rec_cte (parent_ids db e) ?f = Some nids"
    "set nids = (parent_rel ?ns e)\<^sup>* `` set ?f"
    by blast
  then have nids: "rec_cte (parent_ids db e) ?f = Some nids" "set nids = c_node_id ` set xs"
    using lineage_ids[OF inv lin] e unfolding f by simp_all
  let ?g = "filter (\<lambda>q. c_experiment_id q = e \<and> c_node_id q \<in> set nids) ?ns"
  have same: "q = x" if "q \<in> set ?ns" "c_experiment_id q = e" "c_node_id q = c_node_id x" "x \<in> set xs" for q x
  proof (rule nodes_inv_key[OF inv that(1)])
    show "x \<in> set ?ns" "node_key q = node_key x"
      using lineageD(4)[OF lin] lineageD(8)[OF lin that(4)] that e by (auto simp: node_key_def)
  qed
  have g: "set ?g = set xs"
  proof
    show "set ?g \<subseteq> set xs"
      using same nids(2) by auto
    show "set xs \<subseteq> set ?g"
      using lineageD(4,8)[OF lin] e nids(2) by auto
  qed
  have "distinct ?g"
    using inv by (simp add: nodes_inv_def distinct_map)
  from iffD1[OF set_eq_iff_mset_eq_distinct[OF this lineageD(5)[OF lin]] g]
  have m: "mset ?g = mset xs" .
  have d: "sint (c_depth (xs ! i)) = int i" if "i < length xs" for i
    using sint_small[of "c_depth (xs ! i)"] lineageD(7)[OF lin that] that len
      lineage_length[OF lineageD(5,4)[OF lin]] by simp
  have sorted: "sorted (map (\<lambda>q. sint (c_depth q)) xs)"
    by (simp add: sorted_iff_nth_mono d)
  have "inj_on (\<lambda>q. sint (c_depth q)) (set xs)"
  proof (rule inj_onI)
    fix x y
    assume "x \<in> set xs" "y \<in> set xs" and eq: "sint (c_depth x) = sint (c_depth y)"
    then obtain i j where "i < length xs" "x = xs ! i" "j < length xs" "y = xs ! j"
      by (metis in_set_conv_nth)
    with eq d show "x = y"
      by simp
  qed
  then have "inj_on (\<lambda>q. sint (c_depth q)) (set ?g)"
    by (simp only: g)
  from sort_key_inj_key_eq[OF m this sorted] show thesis
    by (rule that[OF nids(1)])
qed

section \<open>What \<open>get_path\<close> returns\<close>

text \<open>No visit counter has left the integers.\<close>

definition visits_ok :: "tree_db \<Rightarrow> bool" where
  "visits_ok db \<longleftrightarrow> (\<forall>r \<in> set (db_nodes db). \<exists>v. c_visit_count r = SqlInt v)"

definition node_at :: "node_sql \<Rightarrow> node_row" where
  "node_at r = node_of r (case c_visit_count r of SqlInt v \<Rightarrow> v | SqlReal _ \<Rightarrow> 0)"

lemma rows_decode:
  assumes inv: "nodes_inv c (db_nodes db)" and visits: "visits_ok db" and rs: "set rs \<subseteq> set (db_nodes db)"
  shows "collect_rows row_to_node rs = Ok (map node_at rs)"
proof (rule collect_rows_Ok)
  fix r
  assume "r \<in> set rs"
  then have r: "r \<in> set (db_nodes db)"
    using rs by blast
  then obtain v where "c_visit_count r = SqlInt v"
    using visits by (auto simp: visits_ok_def)
  then show "row_to_node r = Ok (node_at r)"
    using nodes_inv_row(1)[OF inv r] by (simp add: row_to_node_wf node_at_def)
qed

definition log_at :: "tree_db \<Rightarrow> node_row \<Rightarrow> bytes option" where
  "log_at db n = (case nr_input_log_id n of
     Some l \<Rightarrow> map_option l_content (select_log (log_id_to_sql l) db) | None \<Rightarrow> None)"

lemma attach_logs_eq: "attach_logs db ns = Ok (map (\<lambda>n. (n, log_at db n)) ns)"
  by (induction ns) (auto simp: log_at_def get_input_log_def split: option.splits)

lemma get_path_lineage:
  assumes inv: "tree_inv blake3 c db" and len: "length (db_nodes db) \<le> 2 ^ 32" and visits: "visits_ok db"
    and r: "select_node (experiment_str e) (node_id_to_sql n) db = Some r"
  obtains xs where "lineage (db_nodes db) xs r"
    "get_path db e n True = Ok (map (\<lambda>x. (node_at x, log_at db (node_at x))) xs)"
proof -
  have ns: "nodes_inv c (db_nodes db)"
    using inv by (rule tree_inv_nodes)
  have r': "r \<in> set (db_nodes db)" "c_experiment_id r = experiment_str e" "c_node_id r = node_id_to_sql n"
    using select_node_in[OF r] by (simp_all add: node_key_def)
  obtain xs where lin: "lineage (db_nodes db) xs r"
    using lineage_exists[OF ns len r'(1)] by blast
  obtain nids where "rec_cte (parent_ids db (experiment_str e)) (map c_node_id
      (filter (\<lambda>q. node_key q = (experiment_str e, c_node_id r)) (db_nodes db))) = Some nids"
    "sort_key (\<lambda>q. sint (c_depth q))
      (filter (\<lambda>q. c_experiment_id q = experiment_str e \<and> c_node_id q \<in> set nids) (db_nodes db)) = xs"
    using path_rows[OF ns lin r'(1,2) len] by blast
  note nids = this[unfolded r'(3)]
  have "collect_rows row_to_node xs = Ok (map node_at xs)"
    by (rule rows_decode[OF ns visits lineageD(4)[OF lin]])
  then have "get_path db e n True = Ok (map (\<lambda>x. (node_at x, log_at db (node_at x))) xs)"
    by (simp add: get_path_def nids attach_logs_eq)
  with lin show thesis
    by (rule that)
qed

lemma log_at_stored:
  assumes inv: "tree_inv blake3 c db" and r: "r \<in> set (db_nodes db)"
    and l: "nr_input_log_id (node_at r) = Some l"
  shows "\<exists>b. log_at db (node_at r) = Some b \<and> log_id_of blake3 b = l"
proof -
  obtain lb where lb: "c_input_log_id r = Some lb" "l = log_id_from_bytes lb"
    using l by (auto simp: node_at_def node_of_def)
  have "length lb = 32"
    using nodes_inv_row(1)[OF tree_inv_nodes[OF inv] r] lb(1) by (simp add: row_wf_def)
  then have sql: "log_id_to_sql l = lb"
    by (simp add: lb(2) log_id_to_sql_def log_id_from_bytes_def le_codec)
  have "lb \<in> l_log_id ` set (db_input_logs db)"
    using inv r lb(1) by (simp add: tree_inv_def)
  then obtain q where q: "select_log lb db = Some q"
    using select_log_None[of lb db] by (cases "select_log lb db") auto
  then have "q \<in> set (db_input_logs db)" "l_log_id q = lb"
    by (auto simp: select_log_def find_Some_iff)
  then have "log_id_to_sql (log_id_of blake3 (l_content q)) = lb"
    using inv by (simp add: tree_inv_def log_wf_def)
  then have "log_id_of blake3 (l_content q) = l"
    using sql by (metis log_id_to_sql_inject)
  then show ?thesis
    using q sql l by (simp add: log_at_def)
qed

text \<open>C33: The path of a node is its lineage: the recursive walk to the root ends, the list starts at
  a node without parent, each next node names the one before it as its parent, depths count
  from zero, the last entry is the node asked for, and every log that a row names is there and
  hashes to its id.\<close>

theorem get_path_is_lineage:
  assumes inv: "tree_inv blake3 c db" and len: "length (db_nodes db) \<le> 2 ^ 32" and visits: "visits_ok db"
    and ex: "node_exists (experiment_str e) (node_id_to_sql n) db"
  shows "\<exists>path. get_path db e n True = Ok path \<and> path \<noteq> []
    \<and> nr_parent_node_id (fst (hd path)) = None \<and> nr_node_id (fst (last path)) = n
    \<and> (\<forall>i. Suc i < length path \<longrightarrow>
         nr_parent_node_id (fst (path ! Suc i)) = Some (nr_node_id (fst (path ! i))))
    \<and> (\<forall>i < length path. unat (nr_depth (fst (path ! i))) = i)
    \<and> (\<forall>(node, log) \<in> set path. \<forall>l. nr_input_log_id node = Some l
         \<longrightarrow> (\<exists>b. log = Some b \<and> log_id_of blake3 b = l))"
proof -
  have "select_node (experiment_str e) (node_id_to_sql n) db \<noteq> None"
    using ex unfolding select_node_def find_key_None node_exists_iff by simp
  then obtain r where r: "select_node (experiment_str e) (node_id_to_sql n) db = Some r"
    by blast
  obtain xs where lin: "lineage (db_nodes db) xs r"
    and path: "get_path db e n True = Ok (map (\<lambda>x. (node_at x, log_at db (node_at x))) xs)"
    using get_path_lineage[OF inv len visits r] by blast
  let ?path = "map (\<lambda>x. (node_at x, log_at db (node_at x))) xs"
  have ne: "xs \<noteq> []" "hd xs \<in> set xs"
    using lineageD(1)[OF lin] by simp_all
  have rn: "c_node_id r = node_id_to_sql n"
    using select_node_in[OF r] by (simp add: node_key_def)
  have "unat (nr_depth (node_at (xs ! i))) = i" if "i < length xs" for i
  proof -
    have "unat (ucast (c_depth (xs ! i)) :: u32) = take_bit 32 i"
      using lineageD(7)[OF lin that] by (simp add: unsigned_ucast_eq)
    moreover have "i < 2 ^ 32"
      using lineage_length[OF lineageD(5,4)[OF lin]] that len by simp
    ultimately show ?thesis
      by (simp add: node_at_def node_of_def take_bit_nat_eq_self)
  qed
  moreover have "nr_parent_node_id (node_at (xs ! Suc i)) = Some (nr_node_id (node_at (xs ! i)))"
    if "Suc i < length xs" for i
    using lineageD(6)[OF lin that] by (simp add: node_at_def node_of_def parent_row_def)
  moreover have "nr_parent_node_id (fst (hd ?path)) = None" "nr_node_id (fst (last ?path)) = n"
    using lineageD(2,3)[OF lin] ne rn by (simp_all add: hd_map last_map node_at_def node_of_def)
  moreover have "\<exists>b. log_at db (node_at x) = Some b \<and> log_id_of blake3 b = l"
    if "x \<in> set xs" "nr_input_log_id (node_at x) = Some l" for x l
    using log_at_stored[OF inv _ that(2)] lineageD(4)[OF lin] that(1) by blast
  ultimately show ?thesis
    using path ne(1) by (intro exI[of _ ?path]) auto
qed

theorem get_path_is_lineage_witness:
  "\<exists>path. get_path demo_tree (ExperimentId ''e'') (NodeId 1) True = Ok path
    \<and> nr_parent_node_id (fst (hd path)) = None \<and> nr_node_id (fst (last path)) = NodeId 1"
proof -
  have "length (db_nodes demo_tree) \<le> 2 ^ 32" "visits_ok demo_tree"
    "node_exists (experiment_str (ExperimentId ''e'')) (node_id_to_sql (NodeId 1)) demo_tree"
    by (simp_all add: demo_tree_def visits_ok_def new_node_sql_def demo_params_def node_exists_iff
        node_key_def node_id_to_sql_def)
  from get_path_is_lineage[OF demo_tree_inv[of "\<lambda>_. 0"] this] show ?thesis
    by blast
qed

section \<open>Every stored row decodes\<close>

text \<open>The roots of a collection: the snapshots of all nodes, whatever their status, and all pins.\<close>

definition root_refs :: "tree_db \<Rightarrow> snapshot_ref set" where
  "root_refs db = (snapshot_ref_from_bytes \<circ> c_snapshot_ref) ` set (db_nodes db)
     \<union> (snapshot_ref_from_bytes \<circ> p_snapshot_ref) ` set (db_pins db)"

lemma gc_root_refs_exact:
  assumes inv: "tree_inv blake3 c db"
  shows "\<exists>roots. gc_root_refs db = Ok roots \<and> set roots = root_refs db"
proof -
  let ?blobs = "remdups (map c_snapshot_ref (db_nodes db) @ map p_snapshot_ref (db_pins db))"
  have "length b = 32" if "b \<in> set ?blobs" for b
    using that inv nodes_inv_row(1)[OF tree_inv_nodes[OF inv]] by (auto simp: tree_inv_def row_wf_def)
  then have "collect_rows (\<lambda>blob. obind (slice 0 32 blob) (\<lambda>arr. Ok (snapshot_ref_from_bytes arr))) ?blobs
      = (Ok (map snapshot_ref_from_bytes ?blobs) :: (sqlite_error, snapshot_ref list) outcome)"
    by (intro collect_rows_Ok) (simp add: slice_def)
  then show ?thesis
    by (simp add: gc_root_refs_def root_refs_def image_Un image_image)
qed

lemma list_tombstones_exact:
  assumes inv: "tree_inv blake3 c db"
  shows "\<exists>ts. list_tombstones db horizon = Ok ts \<and>
    set (map (\<lambda>t. (experiment_str (ts_experiment_id t), node_id_to_sql (ts_node_id t))) ts)
      \<subseteq> tombstone_key ` set (db_tombstones db)"
proof -
  let ?row = "\<lambda>t. \<lparr>ts_experiment_id = ExperimentId (t_experiment_id t), ts_node_id = NodeId (t_node_id t),
    ts_created_at = t_created_at t\<rparr>"
  let ?rows = "sort_key (\<lambda>t. sint (t_created_at t))
    (filter (\<lambda>t. sint (t_created_at t) \<le> sint (min horizon (2 ^ 63 - 1))) (db_tombstones db))"
  have "exp_str_ok (t_experiment_id t)" if "t \<in> set ?rows" for t
    using that inv by (auto simp: tree_inv_def)
  then have "collect_rows (\<lambda>t. obind (map_err (\<lambda>_. InvalidColumnType 0) (experiment_id_new (t_experiment_id t)))
      (\<lambda>e. Ok \<lparr>ts_experiment_id = e, ts_node_id = NodeId (t_node_id t), ts_created_at = t_created_at t\<rparr>)) ?rows
      = Ok (map ?row ?rows)"
    by (intro collect_rows_Ok) (simp add: experiment_id_new_ok)
  then show ?thesis
    by (auto simp: list_tombstones_def Let_def tombstone_key_def node_id_to_sql_def)
qed

lemma list_pins_ok:
  assumes inv: "tree_inv blake3 c db"
  shows "\<exists>ps. list_pins db = Ok ps"
proof -
  have "collect_rows (\<lambda>r. obind (slice 0 32 (p_snapshot_ref r)) (\<lambda>arr.
        Ok \<lparr>pin_snapshot_ref = snapshot_ref_from_bytes arr, pin_note = p_note r, pin_created_at = p_created_at r\<rparr>)) rs
      = (Ok (map (\<lambda>r. \<lparr>pin_snapshot_ref = snapshot_ref_from_bytes (p_snapshot_ref r), pin_note = p_note r,
          pin_created_at = p_created_at r\<rparr>) rs) :: (sqlite_error, pin_row list) outcome)"
    if "set rs \<subseteq> set (db_pins db)" for rs
    using that inv by (intro collect_rows_Ok) (auto simp: tree_inv_def slice_def)
  then show ?thesis
    by (simp add: list_pins_def)
qed



end
