(* ===== verification/Meta_Db.thy ===== *)
theory Meta_Db
  imports Meta_Reap Meta_Path
begin

text \<open>
  The write methods of \<open>MetaDb\<close> in \<^verbatim>\<open>crates/snapstore-meta/src/lib.rs\<close>, as a caller sees them:
  a method sends one command to the writer actor and waits for its reply.  And what a command can
  do to the references that nodes and pins hold: only \<open>CreateNode\<close> and \<open>Pin\<close> add one, and a reap
  takes none from a row that is not pruned.
\<close>

section \<open>The methods\<close>

text \<open>
  Send a command and receive the reply.  A caller cannot see where its batch begins and ends, so
  its command is a batch; \<open>recv\<close> fails when the actor has died.
\<close>

definition ask :: "uses \<Rightarrow> sqlite_env \<Rightarrow> actor_cmd \<Rightarrow> (writer_actor, meta_error, cmd_result) op" where
  "ask u env cmd a =
     (case execute_batch u env [cmd] a of
        (Ok [Some r], a) \<Rightarrow> (Ok r, a)
      | (_, a) \<Rightarrow> (Err MeActorDead, a))"

definition ask_node :: "uses \<Rightarrow> sqlite_env \<Rightarrow> actor_cmd \<Rightarrow> (writer_actor, meta_error, node_row) op" where
  "ask_node u env cmd =
     sbind (ask u env cmd) (\<lambda>r. slift (case r of RNodeRow r \<Rightarrow> r | _ \<Rightarrow> Err MeActorDead))"

definition ask_u64 :: "uses \<Rightarrow> sqlite_env \<Rightarrow> actor_cmd \<Rightarrow> (writer_actor, meta_error, u64) op" where
  "ask_u64 u env cmd =
     sbind (ask u env cmd) (\<lambda>r. slift (case r of RU64 r \<Rightarrow> r | _ \<Rightarrow> Err MeActorDead))"

definition ask_bool :: "uses \<Rightarrow> sqlite_env \<Rightarrow> actor_cmd \<Rightarrow> (writer_actor, meta_error, bool) op" where
  "ask_bool u env cmd =
     sbind (ask u env cmd) (\<lambda>r. slift (case r of RBool r \<Rightarrow> r | _ \<Rightarrow> Err MeActorDead))"

definition ask_unit :: "uses \<Rightarrow> sqlite_env \<Rightarrow> actor_cmd \<Rightarrow> (writer_actor, meta_error, unit) op" where
  "ask_unit u env cmd =
     sbind (ask u env cmd) (\<lambda>r. slift (case r of RUnit r \<Rightarrow> r | _ \<Rightarrow> Err MeActorDead))"

lemmas ask_defs = ask_node_def ask_u64_def ask_bool_def ask_unit_def

definition meta_create_node :: "uses \<Rightarrow> sqlite_env \<Rightarrow> create_node_params \<Rightarrow> (writer_actor, meta_error, node_row) op" where
  "meta_create_node u env params = ask_node u env (CreateNode params)"

definition meta_update_nodes ::
  "uses \<Rightarrow> sqlite_env \<Rightarrow> experiment_id \<Rightarrow> node_update list \<Rightarrow> (writer_actor, meta_error, u64) op" where
  "meta_update_nodes u env experiment_id updates = ask_u64 u env (UpdateNodes experiment_id updates)"

definition meta_put_input_log :: "uses \<Rightarrow> sqlite_env \<Rightarrow> log_id \<Rightarrow> bytes \<Rightarrow> (writer_actor, meta_error, bool) op" where
  "meta_put_input_log u env log_id container = ask_bool u env (PutInputLog log_id container)"

definition meta_put_metadata ::
  "uses \<Rightarrow> sqlite_env \<Rightarrow> bytes \<Rightarrow> bytes \<Rightarrow> u64 option \<Rightarrow> (writer_actor, meta_error, u64) op" where
  "meta_put_metadata u env key value expected_generation =
     ask_u64 u env (PutMetadata key value expected_generation)"

definition meta_delete_metadata ::
  "uses \<Rightarrow> sqlite_env \<Rightarrow> bytes \<Rightarrow> u64 option \<Rightarrow> (writer_actor, meta_error, bool) op" where
  "meta_delete_metadata u env key expected_generation =
     ask_bool u env (DeleteMetadata key expected_generation)"

definition meta_pin :: "uses \<Rightarrow> sqlite_env \<Rightarrow> snapshot_ref \<Rightarrow> string option \<Rightarrow> (writer_actor, meta_error, unit) op" where
  "meta_pin u env snapshot_ref note = ask_unit u env (PinCmd snapshot_ref note)"

definition meta_unpin :: "uses \<Rightarrow> sqlite_env \<Rightarrow> snapshot_ref \<Rightarrow> (writer_actor, meta_error, bool) op" where
  "meta_unpin u env snapshot_ref = ask_bool u env (UnpinCmd snapshot_ref)"

definition meta_prune_subtree ::
  "uses \<Rightarrow> sqlite_env \<Rightarrow> experiment_id \<Rightarrow> node_id \<Rightarrow> bool \<Rightarrow> (writer_actor, meta_error, u64) op" where
  "meta_prune_subtree u env experiment_id node_id allow_root =
     ask_u64 u env (PruneSubtree experiment_id node_id allow_root)"

definition meta_reap_tombstone ::
  "uses \<Rightarrow> sqlite_env \<Rightarrow> experiment_id \<Rightarrow> node_id \<Rightarrow> (writer_actor, meta_error, u64) op" where
  "meta_reap_tombstone u env experiment_id node_id = ask_u64 u env (ReapTombstone experiment_id node_id)"

definition meta_set_gc_state :: "uses \<Rightarrow> sqlite_env \<Rightarrow> gc_state_row \<Rightarrow> (writer_actor, meta_error, unit) op" where
  "meta_set_gc_state u env s = ask_unit u env (SetGcState s)"

lemmas meta_calls = meta_create_node_def meta_update_nodes_def meta_put_input_log_def
  meta_put_metadata_def meta_delete_metadata_def meta_pin_def meta_unpin_def
  meta_prune_subtree_def meta_reap_tombstone_def meta_set_gc_state_def

section \<open>One call\<close>

lemma send_result_dispatch:
  "cmd \<noteq> Shutdown \<Longrightarrow> send_result cmd (fst (dispatch_cmd u config cmd counter db)) = Some (fst (dispatch_cmd u config cmd counter db))"
  by (cases cmd) (simp_all add: dispatch_cmd_def send_result_def)

lemma is_panic_iff [simp]: "is_panic r \<longleftrightarrow> r = Panic"
  by (cases r) simp_all

text \<open>A reply of the right kind, from a command that returned.\<close>

definition reply_of :: "actor_cmd \<Rightarrow> cmd_result \<Rightarrow> bool" where
  "reply_of cmd r \<longleftrightarrow> send_result cmd r = Some r \<and> \<not> panicked r"

text \<open>
  What a call leaves behind: the tables it found or those of its command, apart from the row that
  keeps the counter.
\<close>

lemma ask_ok:
  assumes inv: "tree_inv (u_blake3 u) (unat (wa_counter a)) (wa_db a)" and cmd: "cmd_valid cmd" "cmd \<noteq> Shutdown"
    and bound: "unat (wa_counter a) + 1 < 2 ^ 64"
  obtains r a' where "ask u env cmd a = (Ok r, a')" "reply_of cmd r"
    "grown (u_blake3 u) 1 (wa_counter a) (wa_counter a') (wa_db a')"
    "wa_config a' = wa_config a" "wa_batch_max a' = wa_batch_max a"
    "(\<exists>m. wa_db a' = (wa_db a)\<lparr>db_meta := m\<rparr>) \<or>
     (r = fst (dispatch_cmd u (wa_config a) cmd (wa_counter a) (wa_db a)) \<and> succeeded r \<and>
      (\<exists>m. wa_db a' = (snd (dispatch_cmd u (wa_config a) cmd (wa_counter a) (wa_db a)))\<lparr>db_meta := m\<rparr>))"
proof -
  obtain replies a' where e: "execute_batch u env [cmd] a = (Ok replies, a')"
    and g: "grown (u_blake3 u) 1 (wa_counter a) (wa_counter a') (wa_db a')"
    "wa_config a' = wa_config a" "wa_batch_max a' = wa_batch_max a"
    using execute_batch_inv[OF inv, of "[cmd]" env] cmd(1) bound by auto
  let ?d = "dispatch_cmd u (wa_config a) cmd (wa_counter a) (wa_db a)"
  have same: "\<exists>m. (d :: tree_db) = d\<lparr>db_meta := m\<rparr>" for d
    by (rule exI[of _ "db_meta d"]) simp
  have err: "\<exists>r. send_error cmd x = Some r \<and> reply_of cmd r" for x
    using cmd(2) by (cases cmd) (simp_all add: send_error_def reply_of_def send_result_def panicked_def)
  have np: "\<not> panicked (fst ?d)"
    using dispatch_no_panic[OF inv refl cmd(1), of "wa_config a"] by simp
  show thesis
  proof (cases "se_begin env \<and> se_savepoint env 0")
    case False
    then obtain x where x: "replies = [send_error cmd x]" "wa_db a' = wa_db a"
      using e by (auto simp: execute_batch_def Let_def split: if_splits)
    then show thesis
      using that[of _ a'] err[of x] e g same[of "wa_db a"] by (auto simp: ask_def)
  next
    case True
    obtain x db1 where d: "?d = (x, db1)"
      by fastforce
    have sr: "send_result cmd x = Some x" "\<not> panicked x"
      using send_result_dispatch[OF cmd(2), of u "wa_config a" "wa_counter a" "wa_db a"] np d by simp_all
    have rep: "replies = [Some x]"
      using e True sr by (auto simp: execute_batch_def Let_def d)
    have "(\<exists>m. wa_db a' = (wa_db a)\<lparr>db_meta := m\<rparr>) \<or>
        (succeeded x \<and> (\<exists>m. wa_db a' = db1\<lparr>db_meta := m\<rparr>))"
      using e True sr same by (auto simp: execute_batch_def Let_def flush_counter_def d split: if_splits)
    then show thesis
      using that[of x a'] e g rep sr d by (auto simp: ask_def reply_of_def)
  qed
qed

section \<open>References and live rows\<close>

text \<open>The references that a command may add.\<close>

definition new_refs :: "actor_cmd \<Rightarrow> snapshot_ref set" where
  "new_refs cmd = (case cmd of CreateNode p \<Rightarrow> {cp_snapshot_ref p} | PinCmd r _ \<Rightarrow> {r} | _ \<Rightarrow> {})"

lemma root_refs_meta [simp]: "root_refs (db\<lparr>db_meta := m\<rparr>) = root_refs db"
  by (simp add: root_refs_def)

lemma root_refs_cong:
  "map c_snapshot_ref (db_nodes db') = map c_snapshot_ref (db_nodes db) \<Longrightarrow> db_pins db' = db_pins db \<Longrightarrow>
     root_refs db' = root_refs db"
  by (metis (no_types) root_refs_def image_comp list.set_map)

lemma root_refs_mono:
  "set (db_nodes db') \<subseteq> set (db_nodes db) \<Longrightarrow> set (db_pins db') \<subseteq> set (db_pins db) \<Longrightarrow>
     root_refs db' \<subseteq> root_refs db"
  by (auto simp: root_refs_def)

lemma apply_update_ref [simp]: "c_snapshot_ref (apply_update sql_add counter up r) = c_snapshot_ref r"
  by (simp add: apply_update_def Let_def set_opt_def split: option.splits)

lemma update_where_refs:
  "(\<And>r. c_snapshot_ref (f r) = c_snapshot_ref r) \<Longrightarrow> root_refs (update_where hit f db) = root_refs db"
  by (rule root_refs_cong) (simp_all add: update_where_def if_distrib cong: if_cong)

lemma update_nodes_refs: "root_refs (snd (update_nodes_impl sql_add e ups counter db)) = root_refs db"
proof -
  have "root_refs (fold (update_one sql_add s counter) ups db) = root_refs db" for s
    by (induction ups arbitrary: db) (simp_all add: update_one_def update_where_refs)
  then show ?thesis
    by (simp add: update_nodes_impl_def Let_def)
qed

lemma put_input_log_refs: "root_refs (snd (put_input_log_impl blake3 config l c counter db)) = root_refs db"
  by (rule root_refs_cong) (simp_all add: put_input_log_impl_def Let_def)

lemma kv_refs:
  "root_refs (snd (put_metadata_impl sql_add k v g counter db)) = root_refs db"
  "root_refs (snd (delete_metadata_impl k g db)) = root_refs db"
  by (rule root_refs_cong; simp add: put_metadata_impl_def delete_metadata_impl_def sbind_def slift_def Let_def
      upsert_kv_def split: outcome.split option.split)+

lemma store_inline_log_refs: "root_refs (snd (store_inline_log blake3 config p counter db)) = root_refs db"
proof -
  have "root_refs (snd (sbind (put_input_log_impl blake3 config l c counter) (\<lambda>_. sreturn ()) db)) = root_refs db" for l c
    using put_input_log_refs[of blake3 config l c counter db]
    by (cases "put_input_log_impl blake3 config l c counter db") (simp add: sbind_def sreturn_def split: outcome.split)
  then show ?thesis
    by (simp add: store_inline_log_def split: option.split)
qed

lemma insert_or_existing_refs:
  "root_refs (snd (insert_or_existing p depth counter db)) \<subseteq> insert (cp_snapshot_ref p) (root_refs db)"
  by (auto simp: insert_or_existing_def insert_node_def Let_def root_refs_def new_node_sql_def snapshot_ref_to_sql_def)

lemma create_node_refs:
  "root_refs (snd (create_node_impl blake3 config p counter db)) \<subseteq> insert (cp_snapshot_ref p) (root_refs db)"
proof -
  have "root_refs (snd (insert_or_existing p depth counter (snd (store_inline_log blake3 config p counter db))))
      \<subseteq> insert (cp_snapshot_ref p) (root_refs db)" for depth
    using insert_or_existing_refs[of p depth counter "snd (store_inline_log blake3 config p counter db)"]
    by (simp add: store_inline_log_refs)
  moreover obtain x db1 where "store_inline_log blake3 config p counter db = (x, db1)"
    by fastforce
  moreover from this have "root_refs db1 = root_refs db"
    using store_inline_log_refs[of blake3 config p counter db] by simp
  ultimately show ?thesis
    by (auto simp: create_node_impl_def sbind_def slift_def split: outcome.split)
qed

lemma prune_refs: "root_refs (snd (prune_subtree_impl e n allow counter db)) = root_refs db"
proof -
  have "root_refs (insert_tombstone t d) = root_refs d" for t d
    by (rule root_refs_cong) (simp_all add: insert_tombstone_def)
  then show ?thesis
    by (simp add: prune_subtree_impl_def Let_def update_where_refs split: option.split)
qed

lemma reap_rows:
  "set (db_nodes (snd (reap_tombstone_impl e n db))) \<subseteq> set (db_nodes db)"
  "db_pins (snd (reap_tombstone_impl e n db)) = db_pins db"
  by (auto simp: reap_tombstone_impl_def Let_def delete_nodes_def delete_unreferenced_logs_def
      split: option.split if_splits prod.split outcome.split)

lemma reap_refs: "root_refs (snd (reap_tombstone_impl e n db)) \<subseteq> root_refs db"
  by (rule root_refs_mono) (simp_all add: reap_rows)

lemma pin_refs:
  "root_refs (snd (pin_impl r note counter db)) \<subseteq> insert r (root_refs db)"
  "root_refs (snd (unpin_impl r db)) \<subseteq> root_refs db"
  "root_refs (snd (set_gc_state_impl s db)) = root_refs db"
  by (auto simp: pin_impl_def unpin_impl_def set_gc_state_impl_def root_refs_def snapshot_ref_to_sql_def Let_def)

lemma dispatch_refs:
  "root_refs (snd (dispatch_cmd u config cmd counter db)) \<subseteq> root_refs db \<union> new_refs cmd"
  using create_node_refs[of "u_blake3 u" config _ counter db] pin_refs(1)[of _ _ counter db]
  by (cases cmd) (auto simp: dispatch_cmd_def new_refs_def update_nodes_refs put_input_log_refs kv_refs prune_refs
      pin_refs(3) dest!: subsetD[OF pin_refs(2)] subsetD[OF reap_refs])

text \<open>The references of the rows that are not pruned, and of the pins.\<close>

definition live_refs :: "tree_db \<Rightarrow> snapshot_ref set" where
  "live_refs db = (snapshot_ref_from_bytes \<circ> c_snapshot_ref) ` {r \<in> set (db_nodes db). c_status r \<noteq> status_to_sql Pruned}
     \<union> (snapshot_ref_from_bytes \<circ> p_snapshot_ref) ` set (db_pins db)"

lemma live_refs_meta [simp]: "live_refs (db\<lparr>db_meta := m\<rparr>) = live_refs db"
  by (simp add: live_refs_def)

lemma live_refs_root: "live_refs db \<subseteq> root_refs db"
  by (auto simp: live_refs_def root_refs_def)

lemma reap_keeps_live_rows:
  assumes "r \<in> set (db_nodes db)" "c_status r \<noteq> status_to_sql Pruned"
  shows "r \<in> set (db_nodes (snd (reap_tombstone_impl e n db)))"
  using assms
  by (auto simp: reap_tombstone_impl_def Let_def delete_nodes_def delete_unreferenced_logs_def filter_empty_conv
      split: option.split prod.split outcome.split)

section \<open>What a collection relies on\<close>

text \<open>
  A collection reaps tombstones and then reads its roots.  \<open>inv n\<close> is the invariant with room for
  \<open>n\<close> more commands; a reap never fails to return and takes no reference that is live.
\<close>

locale reaper =
  fixes inv :: "nat \<Rightarrow> 'm \<Rightarrow> bool"
    and reap :: "nat \<Rightarrow> tombstone_row \<Rightarrow> ('m, 'e, u64) op"
    and live :: "'m \<Rightarrow> 'l"
    and rows :: "'m \<Rightarrow> 'r set"
  assumes inv_less: "inv (Suc n) m \<Longrightarrow> inv n m"
    and reap_inv: "inv (Suc n) m \<Longrightarrow> inv n (snd (reap i t m))"
    and reap_returns: "inv (Suc n) m \<Longrightarrow> fst (reap i t m) \<noteq> Panic"
    and reap_live: "inv (Suc n) m \<Longrightarrow> live (snd (reap i t m)) = live m"
    and reap_shrinks: "inv (Suc n) m \<Longrightarrow> rows (snd (reap i t m)) \<subseteq> rows m"

text \<open>The rows that are not pruned, and with them all that a reap may not touch.\<close>

definition live_rows :: "tree_db \<Rightarrow> node_sql set" where
  "live_rows db = {r \<in> set (db_nodes db). c_status r \<noteq> status_to_sql Pruned}"

definition live_part :: "tree_db \<Rightarrow> node_sql set \<times> pin_sql list \<times> kv_sql list" where
  "live_part db = (live_rows db, db_pins db, db_kv_metadata db)"

lemma live_part_meta [simp]: "live_part (db\<lparr>db_meta := m\<rparr>) = live_part db"
  by (simp add: live_part_def live_rows_def)

lemma live_part_refs: "live_part db' = live_part db \<Longrightarrow> live_refs db' = live_refs db"
  by (simp add: live_part_def live_rows_def live_refs_def)

lemma reap_live_part: "live_part (snd (reap_tombstone_impl e n db)) = live_part db"
proof -
  have "db_kv_metadata (snd (reap_tombstone_impl e n db)) = db_kv_metadata db"
    by (auto simp: reap_tombstone_impl_def Let_def delete_nodes_def delete_unreferenced_logs_def
        split: option.split if_splits prod.split outcome.split)
  then show ?thesis
    using reap_keeps_live_rows[of _ db e n] reap_rows[of e n db] by (auto simp: live_part_def live_rows_def)
qed

definition actor_inv :: "(bytes \<Rightarrow> hash32) \<Rightarrow> nat \<Rightarrow> writer_actor \<Rightarrow> bool" where
  "actor_inv blake3 n a \<longleftrightarrow> tree_inv blake3 (unat (wa_counter a)) (wa_db a) \<and> unat (wa_counter a) + n < 2 ^ 64"

lemma actor_inv_step:
  assumes "actor_inv blake3 (Suc n) a" "grown blake3 1 (wa_counter a) (wa_counter a') (wa_db a')"
  shows "actor_inv blake3 n a'"
  using assms by (simp add: actor_inv_def grown_def)

lemma actor_inv_less: "actor_inv blake3 m a \<Longrightarrow> n \<le> m \<Longrightarrow> actor_inv blake3 n a"
  by (simp add: actor_inv_def)

lemma ask_inv:
  assumes inv: "actor_inv (u_blake3 u) (Suc n) a" and cmd: "cmd_valid cmd" "cmd \<noteq> Shutdown"
  obtains r a' where "ask u env cmd a = (Ok r, a')" "reply_of cmd r" "actor_inv (u_blake3 u) n a'"
    "wa_config a' = wa_config a"
    "(\<exists>m. wa_db a' = (wa_db a)\<lparr>db_meta := m\<rparr>) \<or>
     (r = fst (dispatch_cmd u (wa_config a) cmd (wa_counter a) (wa_db a)) \<and> succeeded r \<and>
      (\<exists>m. wa_db a' = (snd (dispatch_cmd u (wa_config a) cmd (wa_counter a) (wa_db a)))\<lparr>db_meta := m\<rparr>))"
proof -
  have parts: "tree_inv (u_blake3 u) (unat (wa_counter a)) (wa_db a)" "unat (wa_counter a) + 1 < 2 ^ 64"
    using inv by (simp_all add: actor_inv_def)
  show thesis
    by (rule ask_ok[OF parts(1) cmd parts(2), where env = env]) (rule that, assumption, assumption, erule actor_inv_step[OF inv], assumption+)
qed

lemma meta_reap_ok:
  assumes inv: "actor_inv (u_blake3 u) (Suc n) a"
  obtains res a' where "meta_reap_tombstone u env e k a = (res, a')" "res \<noteq> Panic" "actor_inv (u_blake3 u) n a'"
    "live_part (wa_db a') = live_part (wa_db a)" "set (db_nodes (wa_db a')) \<subseteq> set (db_nodes (wa_db a))"
proof -
  obtain r a' where r: "ask u env (ReapTombstone e k) a = (Ok r, a')" "reply_of (ReapTombstone e k) r" "actor_inv (u_blake3 u) n a'"
    "(\<exists>m. wa_db a' = (wa_db a)\<lparr>db_meta := m\<rparr>) \<or>
      (\<exists>m. wa_db a' = (snd (reap_tombstone_impl e k (wa_db a)))\<lparr>db_meta := m\<rparr>)"
    by (rule ask_inv[OF inv, of "ReapTombstone e k" env]) (auto simp: cmd_valid_def dispatch_cmd_def)
  obtain x where "r = RU64 x" "x \<noteq> Panic"
    using r(2) by (cases r) (auto simp: reply_of_def send_result_def panicked_def split: if_splits)
  with r show thesis
    using that[of x a'] reap_rows(1)[of e k "wa_db a"] reap_live_part[of e k "wa_db a"]
    by (auto simp: meta_reap_tombstone_def ask_u64_def sbind_def slift_def)
qed

interpretation actor: reaper "actor_inv (u_blake3 u)" "\<lambda>i t. meta_reap_tombstone u (envs i) (ts_experiment_id t) (ts_node_id t)"
  "live_part \<circ> wa_db" "set \<circ> db_nodes \<circ> wa_db"
  for u envs
proof
  fix n :: nat and m
  assume "actor_inv (u_blake3 u) (Suc n) m"
  then show "actor_inv (u_blake3 u) n m"
    by (rule actor_inv_less) simp
next
  fix n m i t
  assume inv: "actor_inv (u_blake3 u) (Suc n) m"
  obtain res a' where "meta_reap_tombstone u (envs i) (ts_experiment_id t) (ts_node_id t) m = (res, a')" "res \<noteq> Panic"
    "actor_inv (u_blake3 u) n a'" "live_part (wa_db a') = live_part (wa_db m)" "set (db_nodes (wa_db a')) \<subseteq> set (db_nodes (wa_db m))"
    by (rule meta_reap_ok[OF inv, of "envs i" "ts_experiment_id t" "ts_node_id t"])
  then show "actor_inv (u_blake3 u) n (snd (meta_reap_tombstone u (envs i) (ts_experiment_id t) (ts_node_id t) m))"
    "fst (meta_reap_tombstone u (envs i) (ts_experiment_id t) (ts_node_id t) m) \<noteq> Panic"
    "(live_part \<circ> wa_db) (snd (meta_reap_tombstone u (envs i) (ts_experiment_id t) (ts_node_id t) m)) = (live_part \<circ> wa_db) m"
    "(set \<circ> db_nodes \<circ> wa_db) (snd (meta_reap_tombstone u (envs i) (ts_experiment_id t) (ts_node_id t) m)) \<subseteq> (set \<circ> db_nodes \<circ> wa_db) m"
    by simp_all
qed

end
