(* ===== verification/Gc_Cycle.thy ===== *)
theory Gc_Cycle
  imports Gc_Complete Meta_Db
begin

text \<open>
  The collector of the server, \<^verbatim>\<open>crates/snapstore-server/src/gc.rs\<close>: a cycle reaps tombstones in
  the metadata, opens an epoch in the snapshot store with the references of the remaining rows as
  roots, marks, sweeps, and writes its state back.  It composes the metadata database with the
  collector of the snapshot store.
\<close>

section \<open>Options, report, errors\<close>

record gc_opts =
  go_compact_threshold :: rat
  go_rotate_active_first :: bool
  go_tombstone_grace_cycles :: u32

definition gc_opts_default :: gc_opts where
  "gc_opts_default = \<lparr>go_compact_threshold = 1 / 2, go_rotate_active_first = False, go_tombstone_grace_cycles = 1\<rparr>"

record gc_report =
  gr_nodes_reaped :: u64
  gr_manifests_deleted :: u64
  gr_pages_reclaimed :: u64
  gr_bytes_reclaimed :: u64
  gr_packs_compacted :: u64
  gr_packs_deleted :: u64
  gr_missing_root_manifests :: u64
  gr_duration_ms :: u64
  gr_reaped_subtrees :: "(string \<times> u64) list"

definition gc_report_default :: gc_report where
  "gc_report_default = \<lparr>gr_nodes_reaped = 0, gr_manifests_deleted = 0, gr_pages_reclaimed = 0, gr_bytes_reclaimed = 0,
     gr_packs_compacted = 0, gr_packs_deleted = 0, gr_missing_root_manifests = 0, gr_duration_ms = 0,
     gr_reaped_subtrees = []\<rparr>"

datatype gc_error = GcAlreadyRunning | GcStore snap_error | GcMeta meta_error

text \<open>The two halves of an open server, \<open>ServerState\<close>.\<close>

record server_state =
  sv_store :: snapshot_store
  sv_meta :: writer_actor

type_synonym 'a cycle_op = "(server_state, gc_error, 'a) op"

definition read_meta :: "(tree_db \<Rightarrow> (meta_error, 'a) outcome) \<Rightarrow> 'a cycle_op" where
  "read_meta f s = (map_err GcMeta (f (wa_db (sv_meta s))), s)"

definition write_meta :: "(writer_actor, meta_error, 'a) op \<Rightarrow> 'a cycle_op" where
  "write_meta f s = (case f (sv_meta s) of (res, m) \<Rightarrow> (map_err GcMeta res, s\<lparr>sv_meta := m\<rparr>))"

section \<open>Reaping\<close>

definition reap_horizon :: "gc_opts \<Rightarrow> gc_state_row \<Rightarrow> u64" where
  "reap_horizon opts prior_state =
     (if go_tombstone_grace_cycles opts = 0 then - 1 else gs_last_fence_counter prior_state)"

definition count_reaped :: "tombstone_row \<Rightarrow> u64 \<Rightarrow> gc_report \<Rightarrow> gc_report" where
  "count_reaped t n report =
     (let report = (if n > 0 then report\<lparr>gr_reaped_subtrees := gr_reaped_subtrees report @
                      [(experiment_str (ts_experiment_id t), node_num (ts_node_id t))]\<rparr> else report)
      in report\<lparr>gr_nodes_reaped := gr_nodes_reaped report + n\<rparr>)"

text \<open>The loop over the tombstones, \<open>reap i\<close> being call number \<open>i\<close> of \<open>reap_tombstone\<close>.\<close>

fun reap_each ::
  "(nat \<Rightarrow> tombstone_row \<Rightarrow> ('m, 'e, u64) op) \<Rightarrow> nat \<Rightarrow> tombstone_row list \<Rightarrow> gc_report \<Rightarrow> ('m, 'e, gc_report) op" where
  "reap_each reap i [] report = sreturn report"
| "reap_each reap i (t # ts) report =
     sbind (reap i t) (\<lambda>n. reap_each reap (Suc i) ts (count_reaped t n report))"

section \<open>The fence\<close>

text \<open>
  The roots of a cycle.  \<open>DropPinsFromRoots\<close> can only be set in the tests of the repository.
\<close>

definition roots_at_fence :: "gc_hooks \<Rightarrow> tree_db \<Rightarrow> (meta_error, snapshot_ref list) outcome" where
  "roots_at_fence hooks db =
     obind (gc_root_refs db) (\<lambda>roots.
     if is_sabotage hooks DropPinsFromRoots then
       obind (list_pins db) (\<lambda>pins.
       Ok (filter (\<lambda>r. r \<notin> set (map pin_snapshot_ref pins)) roots))
     else Ok roots)"

definition rotate_first :: "(bytes \<Rightarrow> hash32) \<Rightarrow> (bytes \<Rightarrow> u32) \<Rightarrow> u64 \<Rightarrow> gc_opts \<Rightarrow> unit cycle_op" where
  "rotate_first blake3 crc32 now opts s =
     (if go_rotate_active_first opts then
        case rotate_active blake3 crc32 now (ss_pages (sv_store s)) of (res, ps) \<Rightarrow>
          (obind (map_err (GcStore \<circ> SnPageStore) res) (\<lambda>_. Ok ()),
           s\<lparr>sv_store := (sv_store s)\<lparr>ss_pages := ps\<rparr>\<rparr>)
      else (Ok (), s))"

definition fence_and_roots :: "gc_hooks \<Rightarrow> (pack_id \<times> snapshot_ref list) cycle_op" where
  "fence_and_roots hooks s =
     (case begin_gc_epoch (roots_at_fence hooks (wa_db (sv_meta s))) (sv_store s) of (res, st) \<Rightarrow>
        (map_err (\<lambda>e. case e of AlreadyRunning \<Rightarrow> GcAlreadyRunning | Roots me \<Rightarrow> GcMeta me) res,
         s\<lparr>sv_store := st\<rparr>))"

section \<open>The cycle\<close>

text \<open>Mark and sweep on the store of the server.\<close>

definition collect ::
  "uses \<Rightarrow> (bytes \<Rightarrow> bytes option) \<Rightarrow> (bytes \<Rightarrow> u32) \<Rightarrow> u64 \<Rightarrow> gc_opts \<Rightarrow> gc_hooks \<Rightarrow> pack_id \<Rightarrow> snapshot_ref list \<Rightarrow>
     sweep_report cycle_op" where
  "collect u zstd crc32 now opts hooks fence_pack roots s =
     (case mark_and_sweep (u_blake3 u) zstd crc32 now hooks (go_compact_threshold opts) fence_pack roots
             \<lparr>cy_store = sv_store s, cy_live = live_empty, cy_report = report_empty\<rparr> of (res, cy) \<Rightarrow>
        (obind (map_err GcStore res) (\<lambda>_. Ok (cy_report cy)), s\<lparr>sv_store := cy_store cy\<rparr>))"

definition fill_report :: "gc_report \<Rightarrow> sweep_report \<Rightarrow> u64 \<Rightarrow> gc_report" where
  "fill_report report sweep duration_ms =
     report\<lparr>gr_manifests_deleted := sr_manifests_deleted sweep,
            gr_pages_reclaimed := sr_pages_reclaimed sweep,
            gr_bytes_reclaimed := sr_bytes_reclaimed sweep,
            gr_packs_compacted := sr_packs_compacted sweep,
            gr_packs_deleted := sr_packs_deleted sweep,
            gr_missing_root_manifests := sr_missing_root_manifests sweep,
            gr_duration_ms := duration_ms\<rparr>"

text \<open>What runs while the guard of the epoch exists.\<close>

definition under_epoch ::
  "uses \<Rightarrow> sqlite_env \<Rightarrow> (bytes \<Rightarrow> bytes option) \<Rightarrow> (bytes \<Rightarrow> u32) \<Rightarrow> u64 \<Rightarrow> u64 \<Rightarrow> gc_opts \<Rightarrow> gc_hooks \<Rightarrow> gc_state_row \<Rightarrow>
     gc_report \<Rightarrow> pack_id \<Rightarrow> snapshot_ref list \<Rightarrow> gc_report cycle_op" where
  "under_epoch u env zstd crc32 now duration_ms opts hooks prior_state report fence_pack roots =
     sbind (read_meta (\<lambda>db. meta_stats db None)) (\<lambda>fence.
     sbind (collect u zstd crc32 now opts hooks fence_pack roots) (\<lambda>sweep.
     sbind (read_meta (\<lambda>db. meta_stats db None)) (\<lambda>finished.
     sbind (write_meta (meta_set_gc_state u env
       \<lparr>gs_cycles_total = gs_cycles_total prior_state + 1,
        gs_last_fence_counter = st_logical_counter fence,
        gs_last_finished_at = st_logical_counter finished,
        gs_last_freed_bytes = sr_bytes_reclaimed sweep\<rparr>)) (\<lambda>_.
     sreturn (fill_report report sweep duration_ms)))))"

text \<open>\<open>EpochGuard\<close>: the epoch ends however the rest of the cycle returns, also by a panic.\<close>

definition epoch_guard :: "'a cycle_op \<Rightarrow> 'a cycle_op" where
  "epoch_guard body s = (case body s of (res, s) \<Rightarrow> (res, s\<lparr>sv_store := end_gc_epoch (sv_store s)\<rparr>))"

definition reap_tombstones :: "uses \<Rightarrow> (nat \<Rightarrow> sqlite_env) \<Rightarrow> gc_opts \<Rightarrow> gc_state_row \<Rightarrow> (nat \<times> gc_report) cycle_op" where
  "reap_tombstones u envs opts prior_state =
     sbind (read_meta (\<lambda>db. list_tombstones db (reap_horizon opts prior_state))) (\<lambda>ts.
     sbind (write_meta (reap_each (\<lambda>i t. meta_reap_tombstone u (envs i) (ts_experiment_id t) (ts_node_id t)) 0 ts
       gc_report_default)) (\<lambda>report.
     sreturn (length ts, report)))"

definition run_gc_cycle ::
  "uses \<Rightarrow> (nat \<Rightarrow> sqlite_env) \<Rightarrow> (bytes \<Rightarrow> bytes option) \<Rightarrow> (bytes \<Rightarrow> u32) \<Rightarrow> u64 \<Rightarrow> u64 \<Rightarrow> gc_opts \<Rightarrow> gc_hooks \<Rightarrow>
     gc_report cycle_op" where
  "run_gc_cycle u envs zstd crc32 now duration_ms opts hooks =
     sbind (read_meta read_gc_state) (\<lambda>prior_state.
     sbind (reap_tombstones u envs opts prior_state) (\<lambda>(calls, report).
     sbind (rotate_first (u_blake3 u) crc32 now opts) (\<lambda>_.
     sbind (fence_and_roots hooks) (\<lambda>(fence_pack, roots).
     epoch_guard (under_epoch u (envs calls) zstd crc32 now duration_ms opts hooks prior_state report fence_pack roots)))))"

section \<open>The latch and the metrics\<close>

text \<open>The counters of \<open>Metrics\<close> that a cycle moves.\<close>

record gc_metrics =
  mt_gc_cycles_total :: u64
  mt_gc_pages_reclaimed_total :: u64
  mt_gc_bytes_reclaimed_total :: u64
  mt_gc_manifests_deleted_total :: u64
  mt_gc_nodes_reaped_total :: u64
  mt_gc_packs_compacted_total :: u64
  mt_gc_running :: i64

definition record_gc_cycle :: "gc_report \<Rightarrow> gc_metrics \<Rightarrow> gc_metrics" where
  "record_gc_cycle report m =
     m\<lparr>mt_gc_cycles_total := mt_gc_cycles_total m + 1,
       mt_gc_pages_reclaimed_total := mt_gc_pages_reclaimed_total m + gr_pages_reclaimed report,
       mt_gc_bytes_reclaimed_total := mt_gc_bytes_reclaimed_total m + gr_bytes_reclaimed report,
       mt_gc_manifests_deleted_total := mt_gc_manifests_deleted_total m + gr_manifests_deleted report,
       mt_gc_nodes_reaped_total := mt_gc_nodes_reaped_total m + gr_nodes_reaped report,
       mt_gc_packs_compacted_total := mt_gc_packs_compacted_total m + gr_packs_compacted report\<rparr>"

text \<open>
  \<open>GcRunner::run\<close> and \<open>run_and_record\<close>: \<open>locked\<close> says that another cycle holds the latch; the guard
  gives it back when the call returns.
\<close>

definition runner_run :: "bool \<Rightarrow> gc_report cycle_op \<Rightarrow> gc_report cycle_op" where
  "runner_run locked cycle = (if locked then slift (Err GcAlreadyRunning) else cycle)"

definition run_and_record ::
  "bool \<Rightarrow> gc_report cycle_op \<Rightarrow> (server_state \<times> gc_metrics, gc_error, gc_report) op" where
  "run_and_record locked cycle = (\<lambda>(s, m).
     if locked then (Err GcAlreadyRunning, s, m)
     else let m = m\<lparr>mt_gc_running := 1\<rparr> in
       case cycle s of
         (Ok report, s) \<Rightarrow> (Ok report, s, record_gc_cycle report (m\<lparr>mt_gc_running := 0\<rparr>))
       | (Err e, s) \<Rightarrow> (Err e, s, m\<lparr>mt_gc_running := 0\<rparr>)
       | (Panic, s) \<Rightarrow> (Panic, s, m))"

section \<open>Every step of a cycle\<close>

context reaper
begin

lemma reap_each_ok:
  "inv (length ts + n) m \<Longrightarrow>
     fst (reap_each reap i ts report m) \<noteq> Panic \<and> inv n (snd (reap_each reap i ts report m)) \<and>
     live (snd (reap_each reap i ts report m)) = live m \<and> rows (snd (reap_each reap i ts report m)) \<subseteq> rows m"
proof (induction ts arbitrary: i report m)
  case (Cons t ts)
  have less: "inv (k + n) m \<Longrightarrow> inv n m" for k m
    by (induction k) (auto dest: inv_less)
  obtain res m1 where r: "reap i t m = (res, m1)"
    by fastforce
  have m1: "inv (length ts + n) m1" "res \<noteq> Panic" "live m1 = live m" "rows m1 \<subseteq> rows m"
    using reap_inv[of "length ts + n" m i t] reap_returns[of "length ts + n" m i t] reap_live[of "length ts + n" m i t]
      reap_shrinks[of "length ts + n" m i t] Cons.prems r by simp_all
  show ?case
  proof (cases res)
    case (Ok k)
    then show ?thesis
      using Cons.IH[OF m1(1), of "Suc i" "count_reaped t k report"] m1 r by (auto simp: sbind_def)
  next
    case (Err e)
    then show ?thesis
      using m1 r less[OF m1(1)] by (simp add: sbind_def)
  qed (use m1 in simp)
qed (simp add: sreturn_def)

end

lemma rotate_active_ok:
  assumes inv: "store_inv blake3 ps" "dirty_ok ps" and ids: "ids_left 1 ps" and cap: "ps_max_pack_bytes ps < 2 ^ 44"
  obtains p ps' where "rotate_active blake3 crc32 now ps = (Ok p, ps')" "store_inv blake3 ps'" "dirty_ok ps'" "grows ps ps'"
proof (cases "pw_record_count (ps_writer ps) = 0 \<and> next_id (ps_pack_id ps) = ps_next_pack_id ps")
  case True
  then show thesis
    using that[of _ ps] inv by (simp add: rotate_active_def)
next
  case False
  obtain ps' where "rotate_locked blake3 crc32 now ps = (Ok (ps_next_pack_id ps), ps')" "store_inv blake3 ps'" "grows ps ps'"
    using rotate_locked_ok[OF inv(1), of crc32 now] ids cap by (auto simp: usize_limit_def)
  then show thesis
    using that[of _ ps'] False rotate_dirty_ok[OF inv(2), of blake3 crc32 now] by (auto simp: rotate_active_def)
qed

text \<open>A change of the store that keeps manifests and pages keeps every complete snapshot.\<close>

definition settles :: "(bytes \<Rightarrow> hash32) \<Rightarrow> (bytes \<Rightarrow> bytes option) \<Rightarrow> snapshot_ref set \<Rightarrow> snapshot_store \<Rightarrow> snapshot_store \<Rightarrow> bool" where
  "settles blake3 zstd R st st' \<longleftrightarrow>
     base_inv blake3 st' \<and>
     (\<forall>r \<in> R. validate_closure blake3 zstd st r = Ok () \<longrightarrow> kept blake3 zstd st st' r)"

lemma settles_trans:
  assumes "settles blake3 zstd R a b" "settles blake3 zstd R b c"
  shows "settles blake3 zstd R a c"
  using assms kept_valid kept_trans unfolding settles_def by metis

lemma settles_pages:
  assumes "base_inv blake3 st" "store_inv blake3 ps" "dirty_ok ps" "grows (ss_pages st) ps"
  shows "settles blake3 zstd R st (st\<lparr>ss_pages := ps\<rparr>)"
  using assms grows_stored_page[OF assms(4)] by (auto simp: settles_def base_inv_def barrier_inv_def intro: kept_grow)

lemma settles_epoch:
  assumes "base_inv blake3 st"
  shows "settles blake3 zstd R st (st\<lparr>ss_epoch := ep\<rparr>)"
  using assms by (auto simp: settles_def base_inv_def barrier_inv_def intro: kept_grow)

text \<open>The metadata after some calls of a cycle.\<close>

definition spares :: "(bytes \<Rightarrow> hash32) \<Rightarrow> nat \<Rightarrow> writer_actor \<Rightarrow> writer_actor \<Rightarrow> bool" where
  "spares blake3 n m m' \<longleftrightarrow>
     actor_inv blake3 n m' \<and> live_part (wa_db m') = live_part (wa_db m) \<and>
     set (db_nodes (wa_db m')) \<subseteq> set (db_nodes (wa_db m))"

lemma spares_refl [simp]: "spares blake3 n m m \<longleftrightarrow> actor_inv blake3 n m"
  by (simp add: spares_def)

lemma spares_trans: "spares blake3 k a b \<Longrightarrow> spares blake3 n b c \<Longrightarrow> spares blake3 n a c"
  by (auto simp: spares_def)

lemma spares_less: "spares blake3 k a b \<Longrightarrow> n \<le> k \<Longrightarrow> spares blake3 n a b"
  by (auto simp: spares_def intro: actor_inv_less)

lemma collect_rows_length: "collect_rows f rs = Ok xs \<Longrightarrow> length xs = length rs"
  by (induction rs arbitrary: xs) (auto simp: obind_eq_Ok)

lemma list_tombstones_length: "list_tombstones db h = Ok ts \<Longrightarrow> length ts \<le> length (db_tombstones db)"
  by (auto simp: list_tombstones_def Let_def dest!: collect_rows_length)

lemma reap_tombstones_ok:
  assumes inv: "actor_inv (u_blake3 u) (length (db_tombstones (wa_db (sv_meta s))) + n) (sv_meta s)"
  obtains res m where "reap_tombstones u envs opts prior s = (res, s\<lparr>sv_meta := m\<rparr>)" "res \<noteq> Panic"
    "spares (u_blake3 u) n (sv_meta s) m"
proof -
  have tree: "tree_inv (u_blake3 u) (unat (wa_counter (sv_meta s))) (wa_db (sv_meta s))"
    using inv by (simp add: actor_inv_def)
  obtain ts where ts: "list_tombstones (wa_db (sv_meta s)) (reap_horizon opts prior) = Ok ts"
    using list_tombstones_exact[OF tree] by blast
  have len: "length ts + n \<le> length (db_tombstones (wa_db (sv_meta s))) + n"
    using list_tombstones_length[OF ts] by simp
  let ?loop = "reap_each (\<lambda>i t. meta_reap_tombstone u (envs i) (ts_experiment_id t) (ts_node_id t)) 0 ts gc_report_default"
  obtain r m where r: "?loop (sv_meta s) = (r, m)"
    by fastforce
  have "r \<noteq> Panic" "spares (u_blake3 u) n (sv_meta s) m"
    using actor.reap_each_ok[OF actor_inv_less[OF inv len], of envs 0 gc_report_default] r by (auto simp: spares_def)
  then show thesis
    using that[of "obind (map_err GcMeta r) (\<lambda>rep. Ok (length ts, rep))" m] ts r
    by (cases r) (simp_all add: reap_tombstones_def read_meta_def write_meta_def sbind_def sreturn_def)
qed

lemma meta_set_gc_state_ok:
  assumes inv: "actor_inv (u_blake3 u) (Suc n) a"
  obtains res a' where "meta_set_gc_state u env g a = (res, a')" "res \<noteq> Panic" "spares (u_blake3 u) n a a'"
proof -
  obtain r a' where r: "ask u env (SetGcState g) a = (Ok r, a')" "reply_of (SetGcState g) r" "actor_inv (u_blake3 u) n a'"
    "(\<exists>m. wa_db a' = (wa_db a)\<lparr>db_meta := m\<rparr>) \<or>
      (\<exists>m. wa_db a' = (snd (set_gc_state_impl g (wa_db a)))\<lparr>db_meta := m\<rparr>)"
    by (rule ask_inv[OF inv, of "SetGcState g" env]) (auto simp: cmd_valid_def dispatch_cmd_def)
  obtain x where x: "r = RUnit x" "x \<noteq> Panic"
    using r(2) by (cases r) (auto simp: reply_of_def send_result_def panicked_def split: if_splits)
  have "spares (u_blake3 u) n a a'"
    using r(3,4) by (auto simp: spares_def set_gc_state_impl_def live_part_def live_rows_def split: if_splits)
  then show thesis
    using that[of x a'] r(1) x by (simp add: meta_set_gc_state_def ask_unit_def sbind_def slift_def)
qed

text \<open>The store at the fence, and that its pack ids suffice for the cycle when a hook uses at most \<open>c\<close>.\<close>

definition fence_store :: "(bytes \<Rightarrow> hash32) \<Rightarrow> (bytes \<Rightarrow> u32) \<Rightarrow> u64 \<Rightarrow> gc_opts \<Rightarrow> snapshot_store \<Rightarrow> snapshot_store" where
  "fence_store blake3 crc32 now opts st =
     (if go_rotate_active_first opts
      then st\<lparr>ss_pages := snd (rotate_active blake3 crc32 now (ss_pages st)), ss_epoch := Some []\<rparr>
      else st\<lparr>ss_epoch := Some []\<rparr>)"

definition ids_suffice ::
  "uses \<Rightarrow> (bytes \<Rightarrow> bytes option) \<Rightarrow> (bytes \<Rightarrow> u32) \<Rightarrow> u64 \<Rightarrow> gc_opts \<Rightarrow> gc_hooks \<Rightarrow> nat \<Rightarrow> snapshot_store \<Rightarrow> bool" where
  "ids_suffice u zstd crc32 now opts hooks c st \<longleftrightarrow>
     ids_left 1 (ss_pages st) \<and>
     (let st1 = fence_store (u_blake3 u) crc32 now opts st in
      \<forall>roots. ids_of st1 + cycle_cost (u_blake3 u) zstd crc32 now hooks (go_compact_threshold opts)
        (ps_pack_id (ss_pages st1)) roots c \<lparr>cy_store = st1, cy_live = live_empty, cy_report = report_empty\<rparr> < 2 ^ 32)"

lemma collect_ok:
  assumes hooks: "hooks_ok (u_blake3 u) zstd crc32 c hooks" and base: "base_inv (u_blake3 u) (sv_store s)"
    and epoch: "ss_epoch (sv_store s) = Some []" and cap: "ps_max_pack_bytes (ss_pages (sv_store s)) < 2 ^ 44"
    and ids: "ids_of (sv_store s) + cycle_cost (u_blake3 u) zstd crc32 now hooks (go_compact_threshold opts) fence roots c
        \<lparr>cy_store = sv_store s, cy_live = live_empty, cy_report = report_empty\<rparr> < 2 ^ 32"
  obtains res st where "collect u zstd crc32 now opts hooks fence roots s = (res, s\<lparr>sv_store := st\<rparr>)"
    "settles (u_blake3 u) zstd (set roots) (sv_store s) st"
proof -
  let ?st = "sv_store s"
  let ?cy = "\<lparr>cy_store = ?st, cy_live = live_empty, cy_report = report_empty\<rparr>" and ?w = "gc_start (u_blake3 u) zstd roots ?st"
  obtain res cy where run: "mark_and_sweep (u_blake3 u) zstd crc32 now hooks (go_compact_threshold opts) fence roots ?cy = (res, cy)"
    by fastforce
  have st: "?st\<lparr>ss_epoch := Some []\<rparr> = ?st"
    using epoch by simp
  have "synced roots ?w ?cy"
    unfolding synced_def gc_start_def st by simp
  from mark_and_sweep_steps[OF hooks gc_start_inv[OF base] this, where now = now and fence = fence and
      thr = "go_compact_threshold opts"] ids cap run
  obtain w where w: "(gc_step (u_blake3 u) zstd crc32)\<^sup>*\<^sup>* ?w w" "wd_store w = cy_store cy"
    by auto
  have "settles (u_blake3 u) zstd (set roots) ?st (cy_store cy)"
    using gc_steps_inv[OF w(1) gc_start_inv[OF base]] w(2)
    unfolding gc_start_def st by (auto simp: settles_def world_inv_def)
  then show thesis
    using that[of _ "cy_store cy"] run by (simp add: collect_def)
qed

lemma under_epoch_ok:
  assumes hooks: "hooks_ok (u_blake3 u) zstd crc32 c hooks" and base: "base_inv (u_blake3 u) (sv_store s)"
    and epoch: "ss_epoch (sv_store s) = Some []" and cap: "ps_max_pack_bytes (ss_pages (sv_store s)) < 2 ^ 44"
    and ids: "ids_of (sv_store s) + cycle_cost (u_blake3 u) zstd crc32 now hooks (go_compact_threshold opts) fence roots c
        \<lparr>cy_store = sv_store s, cy_live = live_empty, cy_report = report_empty\<rparr> < 2 ^ 32"
    and inv: "actor_inv (u_blake3 u) (Suc n) (sv_meta s)"
  obtains res st m where "under_epoch u env zstd crc32 now ms opts hooks prior report fence roots s
      = (res, \<lparr>sv_store = st, sv_meta = m\<rparr>)"
    "settles (u_blake3 u) zstd (set roots) (sv_store s) st" "spares (u_blake3 u) n (sv_meta s) m"
proof -
  obtain res st where c: "collect u zstd crc32 now opts hooks fence roots s = (res, s\<lparr>sv_store := st\<rparr>)"
    "settles (u_blake3 u) zstd (set roots) (sv_store s) st"
    by (rule collect_ok[OF hooks base epoch cap ids])
  have s: "s\<lparr>sv_store := st\<rparr> = \<lparr>sv_store = st, sv_meta = sv_meta s\<rparr>"
    by simp
  obtain row where stats: "meta_stats (wa_db (sv_meta s)) None = Ok row"
    using inv by (auto simp: actor_inv_def tree_inv_def meta_stats_def Let_def)
  let ?g = "\<lambda>sw. \<lparr>gs_cycles_total = gs_cycles_total prior + 1, gs_last_fence_counter = st_logical_counter row,
    gs_last_finished_at = st_logical_counter row, gs_last_freed_bytes = sr_bytes_reclaimed sw\<rparr>"
  have inv0: "spares (u_blake3 u) n (sv_meta s) (sv_meta s)"
    using inv by (auto intro: actor_inv_less)
  show thesis
  proof (cases res)
    case (Ok sw)
    obtain r m where "meta_set_gc_state u env (?g sw) (sv_meta s) = (r, m)" "spares (u_blake3 u) n (sv_meta s) m"
      by (rule meta_set_gc_state_ok[OF inv, of env "?g sw"])
    then show thesis
      using that[of _ st m] c stats Ok
      by (cases r) (simp_all add: under_epoch_def read_meta_def write_meta_def sbind_def sreturn_def s)
  qed (use that[of _ st "sv_meta s"] c stats inv0 in \<open>simp_all add: under_epoch_def read_meta_def sbind_def s\<close>)
qed

section \<open>The whole cycle\<close>

lemma rotate_first_ok:
  assumes base: "base_inv blake3 (sv_store s)" and ids: "ids_left 1 (ss_pages (sv_store s))"
    and cap: "ps_max_pack_bytes (ss_pages (sv_store s)) < 2 ^ 44"
  obtains st where "rotate_first blake3 crc32 now opts s = (Ok (), s\<lparr>sv_store := st\<rparr>)"
    "st\<lparr>ss_epoch := Some []\<rparr> = fence_store blake3 crc32 now opts (sv_store s)" "ss_epoch st = ss_epoch (sv_store s)"
    "settles blake3 zstd R (sv_store s) st" "ps_max_pack_bytes (ss_pages st) < 2 ^ 44"
proof (cases "go_rotate_active_first opts")
  case False
  then show thesis
    using that[of "sv_store s"] settles_epoch[OF base, of zstd R "ss_epoch (sv_store s)"] cap
    by (simp add: rotate_first_def fence_store_def)
next
  case True
  have "store_inv blake3 (ss_pages (sv_store s))" "dirty_ok (ss_pages (sv_store s))"
    using base by (simp_all add: base_inv_def)
  then obtain p ps where "rotate_active blake3 crc32 now (ss_pages (sv_store s)) = (Ok p, ps)" "store_inv blake3 ps"
    "dirty_ok ps" "grows (ss_pages (sv_store s)) ps"
    using rotate_active_ok[OF _ _ ids cap] by blast
  then show thesis
    using that[of "(sv_store s)\<lparr>ss_pages := ps\<rparr>"] True settles_pages[OF base] cap
    by (simp add: rotate_first_def fence_store_def grows_def)
qed

lemma fence_and_roots_ok:
  assumes "hk_sabotage hooks = None" "ss_epoch (sv_store s) = None"
    and inv: "actor_inv blake3 n (sv_meta s)"
  obtains roots where "fence_and_roots hooks s =
      (Ok (ps_pack_id (ss_pages (sv_store s)), roots), s\<lparr>sv_store := (sv_store s)\<lparr>ss_epoch := Some []\<rparr>\<rparr>)"
    "set roots = root_refs (wa_db (sv_meta s))"
proof -
  obtain roots where "gc_root_refs (wa_db (sv_meta s)) = Ok roots" "set roots = root_refs (wa_db (sv_meta s))"
    using gc_root_refs_exact inv unfolding actor_inv_def by blast
  then show thesis
    using that[of roots] assms(1,2)
    by (simp add: fence_and_roots_def roots_at_fence_def is_sabotage_def begin_gc_epoch_def Let_def)
qed

lemma cycle_tail:
  assumes hooks: "hooks_ok (u_blake3 u) zstd crc32 c hooks" and base: "base_inv (u_blake3 u) (sv_store s)"
    and epoch: "ss_epoch (sv_store s) = None" and cap: "ps_max_pack_bytes (ss_pages (sv_store s)) < 2 ^ 44"
    and ids: "ids_suffice u zstd crc32 now opts hooks c (sv_store s)"
    and inv: "actor_inv (u_blake3 u) (Suc n) (sv_meta s)"
  obtains res st m where
    "sbind (rotate_first (u_blake3 u) crc32 now opts) (\<lambda>_. sbind (fence_and_roots hooks) (\<lambda>(fence, roots).
       epoch_guard (under_epoch u env zstd crc32 now ms opts hooks prior report fence roots))) s = (res, \<lparr>sv_store = st, sv_meta = m\<rparr>)"
    "ss_epoch st = None" "settles (u_blake3 u) zstd (root_refs (wa_db (sv_meta s))) (sv_store s) st"
    "spares (u_blake3 u) n (sv_meta s) m"
proof -
  let ?R = "root_refs (wa_db (sv_meta s))" and ?b = "u_blake3 u"
  have "ids_left 1 (ss_pages (sv_store s))"
    using ids by (simp add: ids_suffice_def Let_def)
  from rotate_first_ok[OF base this cap] obtain st where rot: "rotate_first ?b crc32 now opts s = (Ok (), s\<lparr>sv_store := st\<rparr>)"
    "st\<lparr>ss_epoch := Some []\<rparr> = fence_store ?b crc32 now opts (sv_store s)" "ss_epoch st = None"
    "settles ?b zstd ?R (sv_store s) st" "ps_max_pack_bytes (ss_pages st) < 2 ^ 44"
    using epoch by metis
  let ?s1 = "s\<lparr>sv_store := st\<rparr>" and ?s2 = "s\<lparr>sv_store := st\<lparr>ss_epoch := Some []\<rparr>\<rparr>"
  from fence_and_roots_ok[of hooks ?s1 ?b "Suc n"] hooks rot(3) inv obtain roots where
    fence: "fence_and_roots hooks ?s1 = (Ok (ps_pack_id (ss_pages st), roots), ?s2)" "set roots = ?R"
    by (auto simp: hooks_ok_def)
  have b: "base_inv ?b st"
    using rot(4) by (simp add: settles_def)
  have open_epoch: "settles ?b zstd ?R st (st\<lparr>ss_epoch := Some []\<rparr>)"
    by (rule settles_epoch[OF b])
  have cost: "ids_of (sv_store ?s2) + cycle_cost ?b zstd crc32 now hooks (go_compact_threshold opts) (ps_pack_id (ss_pages st)) roots c
      \<lparr>cy_store = sv_store ?s2, cy_live = live_empty, cy_report = report_empty\<rparr> < 2 ^ 32"
    using ids rot(2)[symmetric] by (simp add: ids_suffice_def)
  have pre: "base_inv ?b (sv_store ?s2)" "ss_epoch (sv_store ?s2) = Some []"
    "ps_max_pack_bytes (ss_pages (sv_store ?s2)) < 2 ^ 44" "actor_inv ?b (Suc n) (sv_meta ?s2)"
    using open_epoch rot(5) inv by (simp_all add: settles_def)
  obtain res st2 m where run: "under_epoch u env zstd crc32 now ms opts hooks prior report (ps_pack_id (ss_pages st)) roots ?s2
      = (res, \<lparr>sv_store = st2, sv_meta = m\<rparr>)"
    and st2: "settles ?b zstd (set roots) (sv_store ?s2) st2" and m: "spares ?b n (sv_meta ?s2) m"
    by (rule under_epoch_ok[OF hooks pre(1-3) cost pre(4), where env = env and ms = ms and prior = prior and report = report])
  have "settles ?b zstd ?R (st\<lparr>ss_epoch := Some []\<rparr>) st2" "base_inv ?b st2"
    using st2 fence(2) by (simp_all add: settles_def)
  then have all: "settles ?b zstd ?R (sv_store s) (end_gc_epoch st2)"
    using settles_trans[OF settles_trans[OF settles_trans[OF rot(4) open_epoch]] settles_epoch, of st2 None]
    by (simp add: end_gc_epoch_def)
  show thesis
  proof (rule that[of res "end_gc_epoch st2" m])
    show "sbind (rotate_first ?b crc32 now opts) (\<lambda>_. sbind (fence_and_roots hooks) (\<lambda>(fence, roots).
       epoch_guard (under_epoch u env zstd crc32 now ms opts hooks prior report fence roots))) s
       = (res, \<lparr>sv_store = end_gc_epoch st2, sv_meta = m\<rparr>)"
      by (simp add: sbind_def rot(1) fence(1) epoch_guard_def run)
  qed (use all m in \<open>simp_all add: end_gc_epoch_def\<close>)
qed

text \<open>C37: A collection cycle of the server, with clients at every hook, whatever SQLite answers to its
  commands and wherever it stops with an error: the epoch is closed, the store and the tables keep
  their invariants, no row goes that is not pruned, no pin and no metadata changes, and every
  snapshot that a row which is not pruned or a pin names, and that was complete, still has its
  chain and the bytes of all its pages.\<close>

theorem gc_cycle_keeps_live:
  assumes hooks: "hooks_ok (u_blake3 u) zstd crc32 c hooks" and base: "base_inv (u_blake3 u) (sv_store s)"
    and epoch: "ss_epoch (sv_store s) = None" and cap: "ps_max_pack_bytes (ss_pages (sv_store s)) < 2 ^ 44"
    and ids: "ids_suffice u zstd crc32 now opts hooks c (sv_store s)"
    and inv: "actor_inv (u_blake3 u) (length (db_tombstones (wa_db (sv_meta s))) + 1) (sv_meta s)"
    and run: "run_gc_cycle u envs zstd crc32 now ms opts hooks s = (res, s')"
  shows "ss_epoch (sv_store s') = None \<and> base_inv (u_blake3 u) (sv_store s')
    \<and> tree_inv (u_blake3 u) (unat (wa_counter (sv_meta s'))) (wa_db (sv_meta s'))
    \<and> live_part (wa_db (sv_meta s')) = live_part (wa_db (sv_meta s))
    \<and> set (db_nodes (wa_db (sv_meta s'))) \<subseteq> set (db_nodes (wa_db (sv_meta s)))
    \<and> (\<forall>r \<in> live_refs (wa_db (sv_meta s)). validate_closure (u_blake3 u) zstd (sv_store s) r = Ok () \<longrightarrow>
          kept (u_blake3 u) zstd (sv_store s) (sv_store s') r)"
proof -
  let ?b = "u_blake3 u" and ?live = "live_refs (wa_db (sv_meta s))"
  have same: "settles ?b zstd ?live (sv_store s) (sv_store s)"
    using settles_epoch[OF base, of zstd ?live "ss_epoch (sv_store s)"] by simp
  have "ss_epoch (sv_store s') = None \<and> settles ?b zstd ?live (sv_store s) (sv_store s') \<and> spares ?b 0 (sv_meta s) (sv_meta s')"
  proof (cases "read_gc_state (wa_db (sv_meta s))")
    case (Ok prior)
    obtain r m where reap: "reap_tombstones u envs opts prior s = (r, s\<lparr>sv_meta := m\<rparr>)" "r \<noteq> Panic" "spares ?b 1 (sv_meta s) m"
      by (rule reap_tombstones_ok[OF inv])
    have live: "?live \<subseteq> root_refs (wa_db m)"
      using reap(3) live_part_refs[of "wa_db m" "wa_db (sv_meta s)"] live_refs_root[of "wa_db m"] by (simp add: spares_def)
    show ?thesis
    proof (cases r)
      case (Ok cr)
      obtain calls report where cr: "cr = (calls, report)"
        by fastforce
      let ?s1 = "s\<lparr>sv_meta := m\<rparr>"
      have pre: "base_inv ?b (sv_store ?s1)" "ss_epoch (sv_store ?s1) = None" "ps_max_pack_bytes (ss_pages (sv_store ?s1)) < 2 ^ 44"
        "ids_suffice u zstd crc32 now opts hooks c (sv_store ?s1)" "actor_inv ?b (Suc 0) (sv_meta ?s1)"
        using base epoch cap ids reap(3) by (simp_all add: spares_def)
      obtain st m2 where tail: "s' = \<lparr>sv_store = st, sv_meta = m2\<rparr>" "ss_epoch st = None"
        "settles ?b zstd (root_refs (wa_db m)) (sv_store s) st" "spares ?b 0 m m2"
        using cycle_tail[OF hooks pre, where env = "envs calls" and ms = ms and prior = prior and report = report] run
          \<open>read_gc_state _ = Ok prior\<close> reap(1) Ok cr
        by (simp add: run_gc_cycle_def sbind_def read_meta_def) blast
      then show ?thesis
        using spares_trans[OF reap(3) tail(4)] live by (auto simp: settles_def)
    next
      case (Err e)
      then show ?thesis
        using run reap(1,3) \<open>read_gc_state _ = Ok prior\<close> same epoch spares_less[OF reap(3)]
        by (auto simp: run_gc_cycle_def sbind_def read_meta_def)
    qed (use reap in simp)
  qed (use run same epoch inv in \<open>auto simp: run_gc_cycle_def sbind_def read_meta_def intro: actor_inv_less\<close>)
  then show ?thesis
    by (simp add: settles_def spares_def actor_inv_def)
qed

text \<open>A page store with one page in its first pack.\<close>

lemma demo_one_pack:
  "\<exists>ps. store_inv len_hash ps \<and> dirty_ok ps \<and> dom (index_get (ps_index ps)) = {PageHash 4096} \<and>
     ps_max_pack_bytes ps = 10000 \<and> ps_files ps = [] \<and> ps_pack_id ps = PackId 0 \<and> ps_next_pack_id ps = PackId 1"
proof -
  obtain st where st: "store_inv len_hash st" "dom (index_get (ps_index st)) = {}" "room_for 2 st"
    "open_store len_hash (\<lambda>_. 7) 0 demo_opts [] [] = Ok st"
    using demo_store by blast
  then have "room_for (length [zero_page]) st"
    by (simp add: room_for_def)
  then obtain outs ps where ps: "ingest len_hash (\<lambda>_. 7) id 0 [zero_page] st = (Ok outs, ps)"
    "store_inv len_hash ps" "ingest_done len_hash [zero_page] st ps outs" "grows st ps"
    using ingest_ok[OF st(1), of "[zero_page]" id "\<lambda>_. 7" 0] by (auto simp: zero_page_def)
  have dirty: "dirty_ok ps"
    using ingest_dirty_ok[OF open_store_dirty_ok[OF st(4)]] ps(1) by (metis snd_conv)
  have opn: "ps_max_pack_bytes st = 10000" "ps_files st = []" "ps_pack_id st = PackId 0" "ps_next_pack_id st = PackId 1"
    "\<not> would_exceed_cap (ps_writer st)"
    using st(4)
    by (auto simp: open_store_def remove_runts_def Let_def sbind_def open_active_def create_with_max_bytes_def
        would_exceed_cap_def pack_consts PAGE_SIZE_def next_id_def)
  have "index_get (ps_index st) h = None" for h
    using st(2) by (metis domIff empty_iff)
  then have "ps_files ps = [] \<and> ps_pack_id ps = PackId 0 \<and> ps_next_pack_id ps = PackId 1"
    using ps(1) opn by (auto simp: ingest_def ensure_room_def sbind_def Let_def split: outcome.splits prod.splits)
  then show ?thesis
    using ps st(2) opn(1) dirty by (auto simp: ingest_done_def grows_def len_hash_def zero_page_def PAGE_SIZE_def)
qed

text \<open>A server with a live node, a pruned node with its tombstone, and a file that is no manifest.\<close>

definition cycle_uses :: uses where
  "cycle_uses = demo_uses\<lparr>u_blake3 := len_hash\<rparr>"

definition cycle_db :: tree_db where
  "cycle_db = demo_db\<lparr>db_nodes :=
       [new_node_sql ((demo_params 0 None)\<lparr>cp_snapshot_ref := SnapshotRef 136\<rparr>) 0 1,
        new_node_sql ((demo_params 1 (Some 0))\<lparr>cp_snapshot_ref := SnapshotRef 5, cp_status := Pruned\<rparr>) 1 2],
     db_tombstones := [\<lparr>t_experiment_id = ''e'', t_node_id = 1, t_created_at = 3\<rparr>]\<rparr>"

definition cycle_server :: "page_store \<Rightarrow> server_state" where
  "cycle_server ps = \<lparr>sv_store = snap_with ps demo_trash,
     sv_meta = \<lparr>wa_db = cycle_db, wa_counter = 4, wa_batch_max = WRITE_BATCH_MAX, wa_config = meta_config_default\<rparr>\<rparr>"

lemma cycle_db_inv: "tree_inv blake3 4 cycle_db"
  by (simp add: tree_inv_def cycle_db_def demo_db_def demo_params_def new_node_sql_def nodes_inv_def
      row_wf_def exp_str_ok_def placed_def parent_row_def child_depth_def node_key_def node_id_to_sql_def tombstone_key_def
      EXPERIMENT_ID_MAX_BYTES_def)

lemma hooks_none_ok: "hooks_ok blake3 zstd crc32 0 hooks_none"
  by (auto simp: hooks_ok_def hooks_none_def env_ok_def intro: clients_none)

lemma gc_mark_store: "cy_store (snd (gc_mark blake3 zstd roots cy)) = cy_store cy"
  using gc_mark_frame[of blake3 zstd roots cy] by simp

theorem gc_cycle_keeps_live_witness:
  "\<exists>ps res s'. run_gc_cycle cycle_uses (\<lambda>_. fine_env) Some (\<lambda>_. 7) 0 0 gc_opts_default hooks_none (cycle_server ps) = (res, s')
     \<and> ss_epoch (sv_store s') = None \<and> SnapshotRef 136 \<in> live_refs (wa_db (sv_meta s'))
     \<and> kept len_hash Some (sv_store (cycle_server ps)) (sv_store s') (SnapshotRef 136)"
proof -
  obtain ps where ps: "store_inv len_hash ps" "dirty_ok ps" "dom (index_get (ps_index ps)) = {PageHash 4096}"
    "ps_max_pack_bytes ps = 10000" "ps_files ps = []" "ps_pack_id ps = PackId 0" "ps_next_pack_id ps = PackId 1"
    using demo_one_pack by blast
  let ?st = "snap_with ps demo_trash"
  have b: "u_blake3 cycle_uses = len_hash"
    by (simp add: cycle_uses_def)
  have inv: "base_inv len_hash ?st"
    using ps(1,2) by (simp add: base_inv_def demo_trash_def)
  have v: "validate_closure len_hash Some ?st (SnapshotRef 136) = Ok ()"
    by (rule demo_closed) (use ps(3) in \<open>simp_all add: demo_trash_def\<close>)
  have ids: "ids_suffice cycle_uses Some (\<lambda>_. 7) 0 gc_opts_default hooks_none 0 ?st"
    using ps(5-7) by (simp add: ids_suffice_def fence_store_def gc_opts_default_def Let_def cycle_cost_def gc_mark_store
        fire_def hooks_none_def snap_with_def sealed_pack_ids_def discover_packs_def)
  obtain res s' where run: "run_gc_cycle cycle_uses (\<lambda>_. fine_env) Some (\<lambda>_. 7) 0 0 gc_opts_default hooks_none (cycle_server ps) = (res, s')"
    by fastforce
  let ?row = "new_node_sql ((demo_params 0 None)\<lparr>cp_snapshot_ref := SnapshotRef 136\<rparr>) 0 1"
  have "?row \<in> {r \<in> set (db_nodes cycle_db). c_status r \<noteq> status_to_sql Pruned}"
    by (simp add: cycle_db_def) (simp add: new_node_sql_def demo_params_def)
  then have "(snapshot_ref_from_bytes \<circ> c_snapshot_ref) ?row \<in> live_refs cycle_db"
    unfolding live_refs_def by blast
  then have live: "SnapshotRef 136 \<in> live_refs cycle_db"
    by (simp add: new_node_sql_def snapshot_ref_to_sql_def del: snapshot_ref_to_bytes.simps)
  have pre: "base_inv (u_blake3 cycle_uses) (sv_store (cycle_server ps))" "ss_epoch (sv_store (cycle_server ps)) = None"
    "ps_max_pack_bytes (ss_pages (sv_store (cycle_server ps))) < 2 ^ 44"
    "ids_suffice cycle_uses Some (\<lambda>_. 7) 0 gc_opts_default hooks_none 0 (sv_store (cycle_server ps))"
    "actor_inv (u_blake3 cycle_uses) (length (db_tombstones (wa_db (sv_meta (cycle_server ps)))) + 1) (sv_meta (cycle_server ps))"
    using inv ids ps(4) cycle_db_inv[of len_hash] by (simp_all add: b cycle_server_def snap_with_def actor_inv_def cycle_db_def)
  have "live_refs (wa_db (sv_meta s')) = live_refs cycle_db" "ss_epoch (sv_store s') = None"
    "kept len_hash Some (sv_store (cycle_server ps)) (sv_store s') (SnapshotRef 136)"
    using gc_cycle_keeps_live[OF hooks_none_ok pre run] live v live_part_refs[of "wa_db (sv_meta s')" cycle_db]
    by (simp_all add: b cycle_server_def)
  then show ?thesis
    using run live by (intro exI[of _ ps] exI[of _ res] exI[of _ s']) simp
qed

end
