(* ===== verification/Rpc_Types.thy ===== *)
theory Rpc_Types
  imports Rpc_Errors Gc_Cycle
begin

text \<open>
  What the handlers of the gRPC service (\<^verbatim>\<open>crates/snapstore-server/src/service.rs\<close>) share: the messages
  of \<^verbatim>\<open>proto/snapshot_store.proto\<close> (one with a single field is that field), conversions and
  validation.  A handler is an operation on the snapshot store and the metadata
  with a status as its error.  A blocking task that panics is a status with code \<open>Internal\<close>, except in
  the tasks that feed a stream, which then ends.  The library functions and the clock that handlers
  use are packed in \<open>host\<close>; the histograms and the counters outside the collector are left out.
\<close>

section \<open>Messages\<close>

record node_meta =
  nm_experiment_id :: string
  nm_node_id :: u64
  nm_parent_node_id :: "u64 option"
  nm_depth :: u64
  nm_snapshot_ref :: bytes
  nm_input_log_id :: bytes
  nm_status :: u32
  nm_score :: "f64 option"
  nm_visit_count :: u64
  nm_icount :: u64
  nm_virtual_ns :: u64
  nm_created_at :: u64
  nm_updated_at :: u64
  nm_last_visited_at :: u64
  nm_attrs :: bytes

record put_pages_response =
  ppr_pages_new :: u64
  ppr_pages_deduped :: u64
  ppr_batch_blake3 :: bytes

record resolve_pages_request =
  rq_snapshot_ref :: bytes
  rq_baseline_ref :: bytes
  rq_hashes_only :: bool

record resolved_page_pb =
  rpb_page_index :: u64
  rpb_page_hash :: bytes
  rpb_payload :: bytes

record create_node_request =
  cr_experiment_id :: string
  cr_node_id :: u64
  cr_parent_node_id :: "u64 option"
  cr_snapshot_ref :: bytes
  cr_input_log_id :: bytes
  cr_inline_input_log :: bytes
  cr_status :: u32
  cr_score :: "f64 option"
  cr_icount :: u64
  cr_virtual_ns :: u64
  cr_attrs :: bytes

record node_update_pb =
  up_node_id :: u64
  up_status :: "u32 option"
  up_score :: "f64 option"
  up_attrs :: "bytes option"
  up_visit_count_delta :: "i64 option"
  up_touch_visited :: bool
  up_icount :: "u64 option"
  up_virtual_ns :: "u64 option"

record query_nodes_request =
  qr_experiment_id :: string
  qr_status :: "u32 option"
  qr_parent_node_id :: "u64 option"
  qr_min_depth :: "u64 option"
  qr_max_depth :: "u64 option"
  qr_created_after :: "u64 option"
  qr_updated_after :: "u64 option"
  qr_order :: u32
  qr_limit :: u32

record experiment_stats =
  es_experiment_id :: string
  es_nodes_total :: u64
  es_nodes_frontier :: u64
  es_nodes_expanded :: u64
  es_nodes_pruned :: u64
  es_nodes_goal :: u64
  es_max_depth :: u64
  es_input_logs_total :: u64
  es_input_log_bytes :: u64

record store_stats =
  sst_unique_pages :: u64
  sst_physical_page_bytes :: u64
  sst_manifests_total :: u64
  sst_logical_page_bytes :: u64
  sst_dedup_ratio :: rat
  sst_experiments_total :: u64
  sst_nodes_total :: u64
  sst_pins_total :: u64
  sst_tombstones_total :: u64
  sst_logical_counter :: u64
  sst_gc_runs_total :: u64
  sst_gc_pages_reclaimed_total :: u64
  sst_gc_bytes_reclaimed_total :: u64
  sst_gc_last_finished_logical_counter :: u64

record trigger_gc_response =
  tg_started :: bool
  tg_already_running :: bool
  tg_nodes_reaped :: u64
  tg_manifests_deleted :: u64
  tg_pages_reclaimed :: u64
  tg_bytes_reclaimed :: u64
  tg_packs_compacted :: u64
  tg_duration_ms :: u64

section \<open>What handlers run on\<close>

record 'w host =
  h_uses :: uses
  h_prost :: "'w prost"
  h_zstd :: "bytes \<Rightarrow> bytes option"
  h_crc32 :: "bytes \<Rightarrow> u32"
  h_order :: "(Snap_Types.page_hash \<times> nat) list \<Rightarrow> (Snap_Types.page_hash \<times> nat) list"
  h_now :: u64
  h_env :: sqlite_env

abbreviation h_blake3 :: "'w host \<Rightarrow> bytes \<Rightarrow> hash32" where
  "h_blake3 h \<equiv> u_blake3 (h_uses h)"

type_synonym ('w, 'a) rpc = "(server_state, 'w status, 'a) op"

definition fail :: "'w host \<Rightarrow> rpc_code \<Rightarrow> string \<Rightarrow> ('w status, 'a) outcome" where
  "fail h code message = Err (status_new (h_prost h) code message)"

text \<open>\<open>spawn_blocking(...).await\<close>: the result of the task, or \<open>Internal\<close> when it panicked.\<close>

definition joined :: "'w host \<Rightarrow> ('w status, 'a) outcome \<Rightarrow> ('w status, 'a) outcome" where
  "joined h r = (case r of Panic \<Rightarrow> fail h CodeInternal ''panicked'' | _ \<Rightarrow> r)"

definition ask_meta :: "'w host \<Rightarrow> (tree_db \<Rightarrow> (meta_error, 'a) outcome) \<Rightarrow> ('w, 'a) rpc" where
  "ask_meta h f s = (joined h (map_err (meta_error_to_status (h_prost h)) (f (wa_db (sv_meta s)))), s)"

definition tell_meta :: "'w host \<Rightarrow> (writer_actor, meta_error, 'a) op \<Rightarrow> ('w, 'a) rpc" where
  "tell_meta h f s =
     (case f (sv_meta s) of (r, m) \<Rightarrow>
        (joined h (map_err (meta_error_to_status (h_prost h)) r), s\<lparr>sv_meta := m\<rparr>))"

definition at_store :: "(snapshot_store, 'e, 'a) op \<Rightarrow> (server_state, 'e, 'a) op" where
  "at_store f s = (case f (sv_store s) of (r, st) \<Rightarrow> (r, s\<lparr>sv_store := st\<rparr>))"

section \<open>Conversions and validation\<close>

definition proto_status_to_types :: "u32 \<Rightarrow> node_status" where
  "proto_status_to_types s =
     (if s = 0 then Frontier else if s = 1 then Frontier else if s = 2 then Expanded
      else if s = 3 then Pruned else if s = 4 then Goal else Frontier)"

fun types_status_to_proto :: "node_status \<Rightarrow> u32" where
  "types_status_to_proto Frontier = 1"
| "types_status_to_proto Expanded = 2"
| "types_status_to_proto Pruned = 3"
| "types_status_to_proto Goal = 4"

definition node_row_to_proto :: "node_row \<Rightarrow> node_meta" where
  "node_row_to_proto row =
     \<lparr>nm_experiment_id = experiment_str (nr_experiment_id row),
      nm_node_id = node_num (nr_node_id row),
      nm_parent_node_id = map_option node_num (nr_parent_node_id row),
      nm_depth = ucast (nr_depth row),
      nm_snapshot_ref = snapshot_ref_to_bytes (nr_snapshot_ref row),
      nm_input_log_id = (case nr_input_log_id row of Some l \<Rightarrow> log_id_to_bytes l | None \<Rightarrow> []),
      nm_status = types_status_to_proto (nr_status row),
      nm_score = nr_score row,
      nm_visit_count = nr_visit_count row,
      nm_icount = nr_icount row,
      nm_virtual_ns = nr_virtual_ns row,
      nm_created_at = nr_created_at row,
      nm_updated_at = nr_updated_at row,
      nm_last_visited_at = nr_last_visited_at row,
      nm_attrs = (case nr_attrs row of Some a \<Rightarrow> a | None \<Rightarrow> [])\<rparr>"

definition validate_hash32 :: "'w host \<Rightarrow> bytes \<Rightarrow> ('w status, bytes) outcome" where
  "validate_hash32 h bytes = (if length bytes \<noteq> 32 then fail h CodeInvalidArgument ''expected 32-byte hash'' else Ok bytes)"

definition validate_experiment_id :: "'w host \<Rightarrow> string \<Rightarrow> ('w status, experiment_id) outcome" where
  "validate_experiment_id h s =
     map_err (\<lambda>_. status_new (h_prost h) CodeInvalidArgument ''experiment_id'') (experiment_id_new s)"

end
