(* ===== verification/Rpc_Service.thy ===== *)
theory Rpc_Service
  imports Rpc_Types
begin

text \<open>
  The handlers of the gRPC service, \<^verbatim>\<open>crates/snapstore-server/src/service.rs\<close>, in the order of the source.
\<close>

section \<open>Pages and snapshots\<close>

text \<open>
  \<open>PutPages\<close>: \<open>None\<close> in the stream is a read error.  A message is checked and then handed to the
  ingest task, so the messages before one that is refused are stored.  The handler may read up to four
  messages ahead of the task; here a message is read when the one before it is stored.
\<close>

definition count_new :: "ingest_outcome list \<Rightarrow> u64" where
  "count_new outcomes = of_nat (length (filter io_newly_written outcomes))"

definition count_deduped :: "ingest_outcome list \<Rightarrow> u64" where
  "count_deduped outcomes = of_nat (length (filter (\<lambda>out. \<not> io_newly_written out) outcomes))"

definition ingest_batch :: "'w host \<Rightarrow> bytes list \<Rightarrow> ('w, ingest_outcome list) rpc" where
  "ingest_batch h pages =
     at_store (\<lambda>st. case on_pages (ingest (h_blake3 h) (h_crc32 h) (h_order h) (h_now h) pages) st of (r, st) \<Rightarrow>
       (joined h (map_err (\<lambda>_. status_new (h_prost h) CodeInternal ''ingest error'') r), st))"

fun put_pages_loop ::
  "'w host \<Rightarrow> bytes list option list \<Rightarrow> u64 \<Rightarrow> u64 \<Rightarrow> bytes \<Rightarrow> ('w, put_pages_response) rpc" where
  "put_pages_loop h [] pages_new pages_deduped hashed =
     sreturn \<lparr>ppr_pages_new = pages_new, ppr_pages_deduped = pages_deduped,
              ppr_batch_blake3 = to_le_bytes 32 (h_blake3 h hashed)\<rparr>"
| "put_pages_loop h (None # msgs) pages_new pages_deduped hashed = slift (fail h CodeInternal ''stream read error'')"
| "put_pages_loop h (Some pages # msgs) pages_new pages_deduped hashed =
     (if length pages > 256 then slift (fail h CodeInvalidArgument ''PutPages: too many pages per message'')
      else if \<not> list_all (\<lambda>p. length p = PAGE_SIZE) pages
      then slift (fail h CodeInvalidArgument ''PutPages: page has the wrong size'')
      else sbind (ingest_batch h pages) (\<lambda>outcomes.
        put_pages_loop h msgs (pages_new + count_new outcomes) (pages_deduped + count_deduped outcomes)
          (hashed @ concat (map (page_hash_as_bytes \<circ> io_hash) outcomes))))"

definition rpc_put_pages :: "'w host \<Rightarrow> bytes list option list \<Rightarrow> ('w, put_pages_response) rpc" where
  "rpc_put_pages h msgs = put_pages_loop h msgs 0 0 []"

definition rpc_put_snapshot :: "'w host \<Rightarrow> bytes \<Rightarrow> ('w, bytes) rpc" where
  "rpc_put_snapshot h container =
     at_store (\<lambda>st. case put_snapshot (h_blake3 h) (h_zstd h) container st of (r, st) \<Rightarrow>
       (joined h (obind (map_err (put_error_to_status (h_prost h)) r) (\<lambda>ref. Ok (snapshot_ref_to_bytes ref))), st))"

definition store_read_error :: "'w host \<Rightarrow> snap_error \<Rightarrow> 'w status" where
  "store_read_error h e =
     (if e = SnNotFound then status_new (h_prost h) CodeNotFound ''snapshot not found''
      else status_new (h_prost h) CodeInternal ''get_snapshot error'')"

definition rpc_get_snapshot :: "'w host \<Rightarrow> bytes \<Rightarrow> ('w, bytes) rpc" where
  "rpc_get_snapshot h snapshot_ref =
     sbind (slift (validate_hash32 h snapshot_ref)) (\<lambda>ref_bytes.
     at_store (\<lambda>st. (joined h (map_err (store_read_error h)
       (get_snapshot (h_blake3 h) st (snapshot_ref_from_bytes ref_bytes))), st)))"

text \<open>
  \<open>ResolvePages\<close>: the task reads the iterator to its end or to its first error and sends what it has
  in messages of 512 pages; the first number bounds the calls of the iterator.
\<close>

definition proto_page :: "resolved_page \<Rightarrow> resolved_page_pb" where
  "proto_page item = (case item of (idx, h, payload) \<Rightarrow>
     \<lparr>rpb_page_index = idx, rpb_page_hash = page_hash_as_bytes h,
      rpb_payload = (case payload of Some b \<Rightarrow> b | None \<Rightarrow> [])\<rparr>)"

type_synonym ('w, 'm) stream = "('w status, 'm list) outcome list"

fun resolve_loop ::
  "nat \<Rightarrow> 'w host \<Rightarrow> resolved_pages \<Rightarrow> resolved_page_pb list \<Rightarrow> page_store \<Rightarrow>
     ('w, resolved_page_pb) stream \<times> page_store" where
  "resolve_loop 0 h rp batch ps = ([], ps)"
| "resolve_loop (Suc n) h rp batch ps =
     (case resolved_next (get_batch (h_blake3 h)) rp ps of
        (None, _, ps) \<Rightarrow> (if batch = [] then [] else [Ok batch], ps)
      | (Some (Err _), _, ps) \<Rightarrow> ([fail h CodeInternal ''resolve error''], ps)
      | (Some Panic, _, ps) \<Rightarrow> ([], ps)
      | (Some (Ok item), rp, ps) \<Rightarrow>
          let batch = batch @ [proto_page item] in
          if length batch \<ge> 512 then apfst (\<lambda>msgs. Ok batch # msgs) (resolve_loop n h rp [] ps)
          else resolve_loop n h rp batch ps)"

definition resolve_error :: "'w host \<Rightarrow> snap_error \<Rightarrow> 'w status" where
  "resolve_error h e =
     (if e = SnNotFound then status_new (h_prost h) CodeNotFound ''snapshot not found''
      else if e = SnBaselineNotAncestor
      then status_new (h_prost h) CodeInvalidArgument ''baseline_ref is not in the parent chain''
      else status_new (h_prost h) CodeInternal ''resolve_pages error'')"

definition resolve_task ::
  "'w host \<Rightarrow> snapshot_ref \<Rightarrow> snapshot_ref option \<Rightarrow> bool \<Rightarrow> snapshot_store \<Rightarrow>
     ('w, resolved_page_pb) stream \<times> snapshot_store" where
  "resolve_task h snap_ref baseline hashes_only st =
     (case resolve_pages (h_blake3 h) (h_zstd h) snap_ref baseline hashes_only st of
        (Err e, st) \<Rightarrow> ([Err (resolve_error h e)], st)
      | (Panic, st) \<Rightarrow> ([], st)
      | (Ok rp, st) \<Rightarrow>
          (case resolve_loop (length (rp_entries rp) + 1) h rp [] (ss_pages st) of (msgs, ps) \<Rightarrow>
             (msgs, st\<lparr>ss_pages := ps\<rparr>)))"

definition rpc_resolve_pages :: "'w host \<Rightarrow> resolve_pages_request \<Rightarrow> ('w, ('w, resolved_page_pb) stream) rpc" where
  "rpc_resolve_pages h r =
     sbind (slift (validate_hash32 h (rq_snapshot_ref r))) (\<lambda>ref_bytes.
     sbind (slift (if rq_baseline_ref r = [] then Ok None
                   else obind (validate_hash32 h (rq_baseline_ref r)) (\<lambda>b. Ok (Some (snapshot_ref_from_bytes b))))) (\<lambda>baseline.
     at_store (\<lambda>st. case resolve_task h (snapshot_ref_from_bytes ref_bytes) baseline (rq_hashes_only r) st of (msgs, st) \<Rightarrow>
       (Ok msgs, st))))"

definition rpc_has_pages :: "'w host \<Rightarrow> bytes list \<Rightarrow> ('w, bool list) rpc" where
  "rpc_has_pages h page_hashes =
     (if length page_hashes > 4096 then slift (fail h CodeInvalidArgument ''HasPages: too many hashes'')
      else sbind (slift (collect_rows (\<lambda>b. obind (validate_hash32 h b) (\<lambda>b. Ok (page_hash_from_bytes b))) page_hashes)) (\<lambda>hashes s.
        (Ok (has_pages (sv_store s) hashes), s)))"

section \<open>Input logs\<close>

definition rpc_put_input_log :: "'w host \<Rightarrow> bytes \<Rightarrow> ('w, bytes \<times> bool) rpc" where
  "rpc_put_input_log h container =
     sbind (slift (map_err (\<lambda>_. status_new (h_prost h) CodeInvalidArgument ''invalid SILG container'')
       (il_decode (h_blake3 h) container))) (\<lambda>_.
     let log_id = LogId (h_blake3 h (take (length container - 32) container)) in
     sbind (tell_meta h (meta_put_input_log (h_uses h) (h_env h) log_id container)) (\<lambda>newly_stored.
     sreturn (log_id_to_bytes log_id, newly_stored)))"

text \<open>\<open>Some\<close>, or \<open>NotFound\<close>.\<close>

definition found :: "'w host \<Rightarrow> string \<Rightarrow> 'a option \<Rightarrow> ('w, 'a) rpc" where
  "found h message r = slift (ok_or (status_new (h_prost h) CodeNotFound message) r)"

definition rpc_get_input_log :: "'w host \<Rightarrow> bytes \<Rightarrow> ('w, bytes) rpc" where
  "rpc_get_input_log h log_id =
     sbind (slift (validate_hash32 h log_id)) (\<lambda>id_bytes.
     sbind (ask_meta h (\<lambda>db. get_input_log db (log_id_from_bytes id_bytes))) (found h ''input log not found''))"

section \<open>The tree\<close>

definition opt_log_id :: "'w host \<Rightarrow> bytes \<Rightarrow> ('w status, log_id option) outcome" where
  "opt_log_id h b = (if b = [] then Ok None else obind (validate_hash32 h b) (\<lambda>b. Ok (Some (log_id_from_bytes b))))"

definition opt_inline_log :: "'w host \<Rightarrow> bytes \<Rightarrow> ('w status, bytes option) outcome" where
  "opt_inline_log h b =
     (if b = [] then Ok None
      else obind (map_err (\<lambda>_. status_new (h_prost h) CodeInvalidArgument ''invalid inline SILG container'')
             (il_decode (h_blake3 h) b)) (\<lambda>_. Ok (Some b)))"

definition create_params ::
  "create_node_request \<Rightarrow> experiment_id \<Rightarrow> snapshot_ref \<Rightarrow> log_id option \<Rightarrow> bytes option \<Rightarrow> create_node_params" where
  "create_params r exp_id snap_ref input_log_id inline_log =
     \<lparr>cp_experiment_id = exp_id, cp_node_id = NodeId (cr_node_id r),
      cp_parent_node_id = map_option NodeId (cr_parent_node_id r),
      cp_snapshot_ref = snap_ref, cp_input_log_id = input_log_id, cp_inline_log_container = inline_log,
      cp_status = proto_status_to_types (cr_status r), cp_score = cr_score r, cp_icount = cr_icount r,
      cp_virtual_ns = cr_virtual_ns r, cp_attrs = (if cr_attrs r = [] then None else Some (cr_attrs r))\<rparr>"

text \<open>
  The task of \<open>CreateNode\<close> and \<open>Pin\<close>: register the reference and, holding the commit gate, write the
  metadata.  No collection can pass between the two.
\<close>

definition register_then ::
  "'w host \<Rightarrow> snapshot_ref \<Rightarrow> rpc_code \<Rightarrow> string \<Rightarrow> (writer_actor, meta_error, 'a) op \<Rightarrow> ('w, 'a) rpc" where
  "register_then h snap_ref code message f =
     sbind (at_store (\<lambda>st. case register_live_ref (h_blake3 h) (h_zstd h) snap_ref st of (r, st) \<Rightarrow>
       (joined h (map_err (\<lambda>_. status_new (h_prost h) code message) r), st))) (\<lambda>_.
     tell_meta h f)"

definition rpc_create_node :: "'w host \<Rightarrow> create_node_request \<Rightarrow> ('w, node_meta) rpc" where
  "rpc_create_node h r =
     sbind (slift (validate_experiment_id h (cr_experiment_id r))) (\<lambda>exp_id.
     sbind (slift (validate_hash32 h (cr_snapshot_ref r))) (\<lambda>snap_ref_bytes.
     sbind (slift (opt_log_id h (cr_input_log_id r))) (\<lambda>input_log_id.
     sbind (slift (opt_inline_log h (cr_inline_input_log r))) (\<lambda>inline_log.
     let snap_ref = snapshot_ref_from_bytes snap_ref_bytes;
         params = create_params r exp_id snap_ref input_log_id inline_log in
     sbind (register_then h snap_ref CodeNotFound ''snapshot_ref not found: PutSnapshot must precede CreateNode''
       (meta_create_node (h_uses h) (h_env h) params)) (\<lambda>row.
     sreturn (node_row_to_proto row))))))"

definition node_update_of :: "node_update_pb \<Rightarrow> node_update" where
  "node_update_of u =
     \<lparr>nu_node_id = NodeId (up_node_id u), nu_status = map_option proto_status_to_types (up_status u),
      nu_score = up_score u,
      nu_attrs = (case up_attrs u of Some a \<Rightarrow> if a = [] then None else Some a | None \<Rightarrow> None),
      nu_visit_count_delta = (case up_visit_count_delta u of Some d \<Rightarrow> d | None \<Rightarrow> 0),
      nu_touch_visited = up_touch_visited u, nu_icount = up_icount u, nu_virtual_ns = up_virtual_ns u\<rparr>"

definition rpc_update_nodes :: "'w host \<Rightarrow> string \<Rightarrow> node_update_pb list \<Rightarrow> ('w, u64) rpc" where
  "rpc_update_nodes h experiment_id updates =
     sbind (slift (validate_experiment_id h experiment_id)) (\<lambda>exp_id.
     tell_meta h (meta_update_nodes (h_uses h) (h_env h) exp_id (map node_update_of updates)))"

definition rpc_get_node :: "'w host \<Rightarrow> string \<Rightarrow> u64 \<Rightarrow> ('w, node_meta) rpc" where
  "rpc_get_node h experiment_id node_id =
     sbind (slift (validate_experiment_id h experiment_id)) (\<lambda>exp_id.
     sbind (ask_meta h (\<lambda>db. get_node db exp_id (NodeId node_id))) (\<lambda>row.
     sbind (found h ''node not found'' row) (\<lambda>r. sreturn (node_row_to_proto r))))"

definition rpc_get_children :: "'w host \<Rightarrow> string \<Rightarrow> u64 \<Rightarrow> ('w, node_meta list) rpc" where
  "rpc_get_children h experiment_id node_id =
     sbind (slift (validate_experiment_id h experiment_id)) (\<lambda>exp_id.
     sbind (ask_meta h (\<lambda>db. get_children db exp_id (NodeId node_id))) (\<lambda>rows.
     sreturn (map node_row_to_proto rows)))"

definition rpc_get_path :: "'w host \<Rightarrow> string \<Rightarrow> u64 \<Rightarrow> bool \<Rightarrow> ('w, (node_meta \<times> bytes) list) rpc" where
  "rpc_get_path h experiment_id node_id include_logs =
     sbind (slift (validate_experiment_id h experiment_id)) (\<lambda>exp_id.
     sbind (ask_meta h (\<lambda>db. get_path db exp_id (NodeId node_id) include_logs)) (\<lambda>path_result.
     sreturn (map (\<lambda>(row, log_bytes). (node_row_to_proto row, case log_bytes of Some b \<Rightarrow> b | None \<Rightarrow> [])) path_result)))"

definition INTERNAL_BATCH :: u32 where
  "INTERNAL_BATCH = 512"

definition order_of_proto :: "u32 \<Rightarrow> query_order" where
  "order_of_proto n = (if n = 1 then ByCreatedAt else if n = 2 then ByUpdatedAt else if n = 3 then ByNodeId else ByCreatedAt)"

definition page_filter :: "query_nodes_request \<Rightarrow> experiment_id \<Rightarrow> u64 option \<Rightarrow> u64 option \<Rightarrow> query_filter" where
  "page_filter r exp_id cursor_created cursor_updated =
     \<lparr>qf_experiment_id = exp_id,
      qf_status = (case qr_status r of Some s \<Rightarrow> if s = 0 then None else Some (proto_status_to_types s) | None \<Rightarrow> None),
      qf_parent_node_id = map_option NodeId (qr_parent_node_id r),
      qf_min_depth = map_option ucast (qr_min_depth r),
      qf_max_depth = map_option ucast (qr_max_depth r),
      qf_order = order_of_proto (qr_order r),
      qf_created_after = cursor_created,
      qf_updated_after = cursor_updated,
      qf_limit = Some INTERNAL_BATCH\<rparr>"

text \<open>
  The task of \<open>QueryNodes\<close>, \<open>dbs i\<close> being the committed tables at its query number \<open>i\<close>; a task that
  never ends has the value \<open>None\<close>.
\<close>

partial_function (option) query_loop ::
  "'w host \<Rightarrow> (nat \<Rightarrow> tree_db) \<Rightarrow> nat \<Rightarrow> query_nodes_request \<Rightarrow> experiment_id \<Rightarrow> u64 option \<Rightarrow> u64 option \<Rightarrow>
     ('w, node_meta) stream option" where
  "query_loop h dbs i r exp_id cursor_created cursor_updated =
     (case query_nodes (dbs i) (page_filter r exp_id cursor_created cursor_updated) of
        Err e \<Rightarrow> Some [Err (meta_error_to_status (h_prost h) e)]
      | Panic \<Rightarrow> Some []
      | Ok rows \<Rightarrow>
          let msgs = map (\<lambda>chunk. Ok (map node_row_to_proto chunk)) (chunks 512 rows) in
          if length rows < unat INTERNAL_BATCH then Some msgs
          else (case order_of_proto (qr_order r) of
              ByCreatedAt \<Rightarrow>
                Option.bind (query_loop h dbs (i + 1) r exp_id (Some (nr_created_at (last rows))) cursor_updated)
                  (\<lambda>rest. Some (msgs @ rest))
            | ByUpdatedAt \<Rightarrow>
                Option.bind (query_loop h dbs (i + 1) r exp_id cursor_created (Some (nr_updated_at (last rows))))
                  (\<lambda>rest. Some (msgs @ rest))
            | ByNodeId \<Rightarrow> Some msgs))"

declare query_loop.simps [code]

definition rpc_query_nodes ::
  "'w host \<Rightarrow> (nat \<Rightarrow> tree_db) \<Rightarrow> query_nodes_request \<Rightarrow> ('w status, ('w, node_meta) stream option) outcome" where
  "rpc_query_nodes h dbs r =
     obind (validate_experiment_id h (qr_experiment_id r)) (\<lambda>exp_id.
     Ok (query_loop h dbs 0 r exp_id (qr_created_after r) (qr_updated_after r)))"

section \<open>Metadata\<close>

definition rpc_put_metadata :: "'w host \<Rightarrow> bytes \<Rightarrow> bytes \<Rightarrow> u64 option \<Rightarrow> ('w, u64) rpc" where
  "rpc_put_metadata h key value expected_generation =
     (if key = [] \<or> length key > 512 then slift (fail h CodeInvalidArgument ''key length not in 1..=512'')
      else if length value > 16 * 1024 * 1024 then slift (fail h CodeInvalidArgument ''value too large'')
      else tell_meta h (meta_put_metadata (h_uses h) (h_env h) key value expected_generation))"

definition rpc_get_metadata :: "'w host \<Rightarrow> bytes \<Rightarrow> ('w, bytes \<times> u64) rpc" where
  "rpc_get_metadata h key = sbind (ask_meta h (\<lambda>db. get_metadata db key)) (found h ''key not found'')"

definition rpc_delete_metadata :: "'w host \<Rightarrow> bytes \<Rightarrow> u64 option \<Rightarrow> ('w, bool) rpc" where
  "rpc_delete_metadata h key expected_generation =
     tell_meta h (meta_delete_metadata (h_uses h) (h_env h) key expected_generation)"

section \<open>Lifecycle\<close>

definition rpc_prune_subtree :: "'w host \<Rightarrow> string \<Rightarrow> u64 \<Rightarrow> bool \<Rightarrow> ('w, u64) rpc" where
  "rpc_prune_subtree h experiment_id node_id allow_root =
     sbind (slift (validate_experiment_id h experiment_id)) (\<lambda>exp_id.
     tell_meta h (meta_prune_subtree (h_uses h) (h_env h) exp_id (NodeId node_id) allow_root))"

definition rpc_pin :: "'w host \<Rightarrow> bytes \<Rightarrow> string \<Rightarrow> ('w, bool) rpc" where
  "rpc_pin h snapshot_ref note =
     sbind (slift (validate_hash32 h snapshot_ref)) (\<lambda>ref_bytes.
     let snap_ref = snapshot_ref_from_bytes ref_bytes; note = (if note = [] then None else Some note) in
     sbind (ask_meta h list_pins) (\<lambda>list_before.
     let already = list_ex (\<lambda>p. pin_snapshot_ref p = snap_ref) list_before in
     sbind (register_then h snap_ref CodeFailedPrecondition
       ''snapshot_ref does not resolve to a stored manifest (or its pages were collected)''
       (meta_pin (h_uses h) (h_env h) snap_ref note)) (\<lambda>_.
     sreturn (\<not> already))))"

definition rpc_unpin :: "'w host \<Rightarrow> bytes \<Rightarrow> ('w, bool) rpc" where
  "rpc_unpin h snapshot_ref =
     sbind (slift (validate_hash32 h snapshot_ref)) (\<lambda>ref_bytes.
     tell_meta h (meta_unpin (h_uses h) (h_env h) (snapshot_ref_from_bytes ref_bytes)))"

definition experiment_stats_of :: "string \<Rightarrow> stats_row \<Rightarrow> experiment_stats" where
  "experiment_stats_of experiment_id row =
     \<lparr>es_experiment_id = experiment_id,
      es_nodes_total = st_exp_nodes_frontier row + st_exp_nodes_expanded row + st_exp_nodes_pruned row + st_exp_nodes_goal row,
      es_nodes_frontier = st_exp_nodes_frontier row, es_nodes_expanded = st_exp_nodes_expanded row,
      es_nodes_pruned = st_exp_nodes_pruned row, es_nodes_goal = st_exp_nodes_goal row,
      es_max_depth = ucast (st_exp_max_depth row),
      es_input_logs_total = st_exp_input_log_count row,
      es_input_log_bytes = st_input_logs_bytes row\<rparr>"

definition store_stats_of :: "snapshot_store \<Rightarrow> stats_row \<Rightarrow> gc_state_row \<Rightarrow> gc_metrics \<Rightarrow> store_stats" where
  "store_stats_of st row gc_state metrics =
     (let (manifests_total, logical_page_bytes) = manifest_count_and_logical_bytes st;
          unique = of_nat (unique_pages (ss_pages st));
          physical_page_bytes = unique * 4133
      in \<lparr>sst_unique_pages = unique, sst_physical_page_bytes = physical_page_bytes,
          sst_manifests_total = manifests_total, sst_logical_page_bytes = logical_page_bytes,
          sst_dedup_ratio = (if physical_page_bytes = 0 then 0
            else of_nat (unat logical_page_bytes) / of_nat (unat physical_page_bytes)),
          sst_experiments_total = st_experiments_count row, sst_nodes_total = st_total_nodes row,
          sst_pins_total = st_pins_count row, sst_tombstones_total = st_tombstones_count row,
          sst_logical_counter = st_logical_counter row,
          sst_gc_runs_total = gs_cycles_total gc_state,
          sst_gc_pages_reclaimed_total = mt_gc_pages_reclaimed_total metrics,
          sst_gc_bytes_reclaimed_total = mt_gc_bytes_reclaimed_total metrics,
          sst_gc_last_finished_logical_counter = gs_last_finished_at gc_state\<rparr>)"

definition rpc_stats :: "'w host \<Rightarrow> gc_metrics \<Rightarrow> string \<Rightarrow> ('w, store_stats \<times> experiment_stats option) rpc" where
  "rpc_stats h metrics experiment_id =
     sbind (slift (if experiment_id = [] then Ok None
                   else obind (validate_experiment_id h experiment_id) (\<lambda>e. Ok (Some e)))) (\<lambda>exp_id_opt.
     sbind (ask_meta h (\<lambda>db. meta_stats db exp_id_opt)) (\<lambda>row.
     sbind (ask_meta h read_gc_state) (\<lambda>gc_state s.
     (Ok (store_stats_of (sv_store s) row gc_state metrics,
          if exp_id_opt = None then None else Some (experiment_stats_of experiment_id row)), s))))"

section \<open>Triggering a collection\<close>

record gc_config =
  gcf_auto :: bool
  gcf_trigger_disk_pct :: byte
  gcf_check_interval_secs :: u64
  gcf_compact_threshold :: rat
  gcf_tombstone_grace_cycles :: u32

definition trigger_opts :: "gc_config \<Rightarrow> bool \<Rightarrow> gc_opts" where
  "trigger_opts gc_config compact_aggressively =
     (if compact_aggressively
      then \<lparr>go_compact_threshold = 9 / 10, go_rotate_active_first = True,
            go_tombstone_grace_cycles = gcf_tombstone_grace_cycles gc_config\<rparr>
      else \<lparr>go_compact_threshold = gcf_compact_threshold gc_config, go_rotate_active_first = False,
            go_tombstone_grace_cycles = gcf_tombstone_grace_cycles gc_config\<rparr>)"

definition trigger_answer :: "bool \<Rightarrow> bool \<Rightarrow> trigger_gc_response" where
  "trigger_answer started already_running =
     \<lparr>tg_started = started, tg_already_running = already_running, tg_nodes_reaped = 0, tg_manifests_deleted = 0,
      tg_pages_reclaimed = 0, tg_bytes_reclaimed = 0, tg_packs_compacted = 0, tg_duration_ms = 0\<rparr>"

definition trigger_report :: "gc_report \<Rightarrow> trigger_gc_response" where
  "trigger_report report =
     \<lparr>tg_started = True, tg_already_running = False, tg_nodes_reaped = gr_nodes_reaped report,
      tg_manifests_deleted = gr_manifests_deleted report, tg_pages_reclaimed = gr_pages_reclaimed report,
      tg_bytes_reclaimed = gr_bytes_reclaimed report, tg_packs_compacted = gr_packs_compacted report,
      tg_duration_ms = gr_duration_ms report\<rparr>"

text \<open>
  \<open>TriggerGc\<close>.  A detached cycle is left to a task: the second component is its options, and
  \<open>run_and_record\<close> is what the task runs.
\<close>

definition rpc_trigger_gc ::
  "'w host \<Rightarrow> bool \<Rightarrow> gc_config \<Rightarrow> (gc_opts \<Rightarrow> gc_report cycle_op) \<Rightarrow> bool \<Rightarrow> bool \<Rightarrow>
     (server_state \<times> gc_metrics, 'w status, trigger_gc_response \<times> gc_opts option) op" where
  "rpc_trigger_gc h locked gc_config cycle compact_aggressively detach s =
     (let opts = trigger_opts gc_config compact_aggressively in
      if detach then (Ok (trigger_answer True False, Some opts), s)
      else case run_and_record locked (cycle opts) s of
          (Ok report, s) \<Rightarrow> (Ok (trigger_report report, None), s)
        | (Err GcAlreadyRunning, s) \<Rightarrow> (Ok (trigger_answer False True, None), s)
        | (Err (GcStore _), s) \<Rightarrow> (fail h CodeInternal ''GC store error'', s)
        | (Err (GcMeta e), s) \<Rightarrow> (Err (meta_error_to_status (h_prost h) e), s)
        | (Panic, s) \<Rightarrow> (fail h CodeInternal ''gc task panicked'', s))"

end
