(* ===== verification/Rpc_Epoch.thy ===== *)
theory Rpc_Epoch
  imports Rpc_Service
begin

text \<open>
  The service beside a running collection.  \<open>CreateNode\<close> and \<open>Pin\<close> register their reference with the
  epoch before they write the metadata, so in every interleaving of the collector's critical
  sections, of clients of the store and of requests that write metadata, each reference that a node
  or a pin holds can be resolved.
\<close>

section \<open>Requests that write metadata\<close>

text \<open>The environment of SQLite may differ from one request to the next: a begin, a flush or a commit may fail.\<close>

inductive rpc_call :: "'w host \<Rightarrow> server_state \<Rightarrow> server_state \<Rightarrow> bool" for h where
  call_put_input_log: "rpc_call h s s'" if "rpc_put_input_log (h\<lparr>h_env := env\<rparr>) container s = (res, s')"
| call_create_node: "rpc_call h s s'" if "rpc_create_node (h\<lparr>h_env := env\<rparr>) r s = (res, s')"
| call_update_nodes: "rpc_call h s s'" if "rpc_update_nodes (h\<lparr>h_env := env\<rparr>) e ups s = (res, s')"
| call_put_metadata: "rpc_call h s s'" if "rpc_put_metadata (h\<lparr>h_env := env\<rparr>) k v g s = (res, s')"
| call_delete_metadata: "rpc_call h s s'" if "rpc_delete_metadata (h\<lparr>h_env := env\<rparr>) k g s = (res, s')"
| call_prune_subtree: "rpc_call h s s'" if "rpc_prune_subtree (h\<lparr>h_env := env\<rparr>) e n allow s = (res, s')"
| call_pin: "rpc_call h s s'" if "rpc_pin (h\<lparr>h_env := env\<rparr>) b note s = (res, s')"
| call_unpin: "rpc_call h s s'" if "rpc_unpin (h\<lparr>h_env := env\<rparr>) b s = (res, s')"

text \<open>The store of a collection under way, with the metadata.\<close>

record server_world =
  sw_gc :: gc_world
  sw_meta :: writer_actor

abbreviation server_of :: "server_world \<Rightarrow> server_state" where
  "server_of w \<equiv> \<lparr>sv_store = wd_store (sw_gc w), sv_meta = sw_meta w\<rparr>"

text \<open>
  Runs with a number of requests: between them, steps of the collector and of the store's clients.
  The references that the metadata has named since the fence count as acknowledged.
\<close>

inductive server_run :: "'w host \<Rightarrow> nat \<Rightarrow> server_world \<Rightarrow> server_world \<Rightarrow> bool" for h where
  run_none: "server_run h 0 w w"
| run_store: "server_run h n w (v\<lparr>sw_gc := g\<rparr>)"
    if "server_run h n w v" "gc_step (h_blake3 h) (h_zstd h) (h_crc32 h) (sw_gc v) g"
| run_rpc: "server_run h (Suc n) w
      (v\<lparr>sw_gc := (sw_gc v)\<lparr>wd_store := sv_store s, wd_acked := wd_acked (sw_gc v) \<union> root_refs (wa_db (sv_meta s))\<rparr>,
         sw_meta := sv_meta s\<rparr>)"
    if "server_run h n w v" "rpc_call h (server_of v) s"

section \<open>The metadata after a request\<close>

lemma ask_state:
  "snd (ask_node u env cmd a) = snd (ask u env cmd a)" "snd (ask_u64 u env cmd a) = snd (ask u env cmd a)"
  "snd (ask_bool u env cmd a) = snd (ask u env cmd a)" "snd (ask_unit u env cmd a) = snd (ask u env cmd a)"
  by (cases "ask u env cmd a"; cases "fst (ask u env cmd a)"; simp add: ask_defs sbind_def slift_def)+

text \<open>A request leaves the store, or registers a reference in it; the metadata keeps its invariant and names
  at most the registered reference in addition.\<close>

definition harmless :: "'w host \<Rightarrow> nat \<Rightarrow> server_state \<Rightarrow> server_state \<Rightarrow> bool" where
  "harmless h n s s' \<longleftrightarrow>
     actor_inv (h_blake3 h) n (sv_meta s') \<and>
     (\<exists>R. root_refs (wa_db (sv_meta s')) \<subseteq> root_refs (wa_db (sv_meta s)) \<union> R \<and>
        (sv_store s' = sv_store s \<and> R = {} \<or>
         client_step (h_blake3 h) (h_zstd h) (h_crc32 h) (sv_store s) R (sv_store s')))"

lemma harmless_refl: "actor_inv (h_blake3 h) (Suc n) (sv_meta s) \<Longrightarrow> harmless h n s s"
  by (auto simp: harmless_def actor_inv_less)

lemma harmless_slift:
  assumes "actor_inv (h_blake3 h) (Suc n) (sv_meta s)" "\<And>x. r = Ok x \<Longrightarrow> harmless h n s (snd (f x s))"
  shows "harmless h n s (snd (sbind (slift r) f s))"
  using assms harmless_refl[OF assms(1)] by (cases r) (simp_all add: sbind_def slift_def)

lemma harmless_then:
  assumes "harmless h n s (snd (m s))" "\<And>x s. snd (f x s) = s"
  shows "harmless h n s (snd (sbind m f s))"
  using assms by (cases "m s"; cases "fst (m s)") (simp_all add: sbind_def)

lemma ask_refs:
  assumes inv: "actor_inv (u_blake3 u) (Suc n) a" and cmd: "cmd_valid cmd" "cmd \<noteq> Shutdown"
  shows "actor_inv (u_blake3 u) n (snd (ask u env cmd a)) \<and>
    root_refs (wa_db (snd (ask u env cmd a))) \<subseteq> root_refs (wa_db a) \<union> new_refs cmd"
  by (rule ask_inv[OF inv cmd, where env = env])
    (use dispatch_refs[of u "wa_config a" cmd "wa_counter a" "wa_db a"] in auto)

lemma tell_meta_harmless:
  assumes "actor_inv (h_blake3 h) (Suc n) (sv_meta s)" "cmd_valid cmd" "cmd \<noteq> Shutdown" "new_refs cmd = {}"
    and "snd (f (sv_meta s)) = snd (ask (h_uses h) (h_env h) cmd (sv_meta s))"
  shows "harmless h n s (snd (tell_meta h f s))"
  using ask_refs[OF assms(1-3), of "h_env h"] assms(4,5)
  by (cases "f (sv_meta s)") (auto simp: harmless_def tell_meta_def)

lemma validate_closure_no_panic: "validate_closure blake3 zstd st r \<noteq> Panic"
proof -
  have "validate_chain n blake3 zstd st c \<noteq> Panic" for n c
  proof (induction n arbitrary: c)
    case (Suc n)
    have "m_parent m \<noteq> None" if "read_manifest blake3 zstd st c = Ok m" "m_delta m" for m
      using read_manifest_inv[OF that(1)] that(2) by (simp add: manifest_inv_def)
    moreover have "read_manifest blake3 zstd st c \<noteq> Panic"
      by (auto simp: read_manifest_def read_manifest_bytes_def obind_eq_Panic no_panic split: option.splits)
    ultimately show ?case
      using Suc by (auto simp: obind_eq_Panic Let_def split: option.splits)
  qed simp
  then show ?thesis
    by (simp add: validate_closure_def)
qed

lemma register_harmless:
  assumes inv: "actor_inv (h_blake3 h) (Suc n) (sv_meta s)" and cmd: "cmd_valid cmd" "cmd \<noteq> Shutdown" "new_refs cmd \<subseteq> {r}"
    and f: "\<And>a. snd (f a) = snd (ask (h_uses h) (h_env h) cmd a)"
  shows "harmless h n s (snd (register_then h r code message f s))"
proof -
  obtain res st where reg: "register_live_ref (h_blake3 h) (h_zstd h) r (sv_store s) = (res, st)"
    by fastforce
  have inv0: "actor_inv (h_blake3 h) n (sv_meta s)"
    using inv by (rule actor_inv_less) simp
  have meta: "actor_inv (h_blake3 h) n (snd (f (sv_meta s)))"
    "root_refs (wa_db (snd (f (sv_meta s)))) \<subseteq> root_refs (wa_db (sv_meta s)) \<union> {r}"
    using ask_refs[OF inv cmd(1,2), of "h_env h"] cmd(3) by (auto simp: f)
  show ?thesis
  proof (cases res)
    case (Ok x)
    then have "client_step (h_blake3 h) (h_zstd h) (h_crc32 h) (sv_store s) {r} st"
      using reg register_step by (simp add: unit_eq)
    then show ?thesis
      using Ok reg meta by (cases "f (sv_meta s)")
        (auto simp: harmless_def register_then_def sbind_def at_store_def tell_meta_def joined_def)
  next
    case (Err e)
    then have "client_step (h_blake3 h) (h_zstd h) (h_crc32 h) (sv_store s) {} st"
      using reg register_refused by simp
    then show ?thesis
      using Err reg inv0 by (auto simp: harmless_def register_then_def sbind_def at_store_def joined_def fail_def)
  next
    case Panic
    then show ?thesis
      using reg validate_closure_no_panic by (auto simp: register_live_ref_def Let_def split: option.splits if_splits)
  qed
qed

lemma valid_exp_id: "validate_experiment_id h s = Ok e \<Longrightarrow> exp_valid e"
  by (auto simp: validate_experiment_id_def experiment_id_new_def exp_valid_def Let_def split: if_splits)

lemma create_node_harmless:
  assumes "actor_inv (h_blake3 h) (Suc n) (sv_meta s)"
  shows "harmless h n s (snd (rpc_create_node h r s))"
  unfolding rpc_create_node_def Let_def
  by (intro harmless_slift[OF assms] harmless_then
        register_harmless[OF assms, where cmd = "CreateNode _"])
    (simp_all add: meta_calls ask_state cmd_valid_def new_refs_def create_params_def valid_exp_id sreturn_def)

lemma harmless_ask:
  assumes "actor_inv (h_blake3 h) (Suc n) (sv_meta s)" "\<And>x. harmless h n s (snd (f x s))"
  shows "harmless h n s (snd (sbind (ask_meta h q) f s))"
  using assms(2) harmless_refl[OF assms(1)] by (auto simp: sbind_def ask_meta_def split: outcome.splits)

lemma pin_harmless:
  assumes "actor_inv (h_blake3 h) (Suc n) (sv_meta s)"
  shows "harmless h n s (snd (rpc_pin h b note s))"
  unfolding rpc_pin_def Let_def
  by (rule harmless_slift[OF assms], rule harmless_ask[OF assms], rule harmless_then,
      rule register_harmless[OF assms, where cmd = "PinCmd _ _"])
    (simp_all add: meta_calls ask_state cmd_valid_def new_refs_def sreturn_def)

lemma tell_ask_harmless:
  assumes "actor_inv (h_blake3 h) (Suc n) (sv_meta s)" "cmd_valid cmd" "cmd \<noteq> Shutdown" "new_refs cmd = {}"
  shows "harmless h n s (snd (tell_meta h (ask_u64 (h_uses h) (h_env h) cmd) s))"
    "harmless h n s (snd (tell_meta h (ask_bool (h_uses h) (h_env h) cmd) s))"
  by (rule tell_meta_harmless[OF assms], simp add: ask_state)+

lemma tell_calls_harmless:
  assumes "actor_inv (h_blake3 h) (Suc n) (sv_meta s)"
  shows "harmless h n s (snd (rpc_update_nodes h e ups s))"
    "harmless h n s (snd (rpc_put_metadata h k v g s))"
    "harmless h n s (snd (rpc_delete_metadata h k g s))"
    "harmless h n s (snd (rpc_prune_subtree h e i allow s))"
    "harmless h n s (snd (rpc_unpin h b s))"
  unfolding rpc_update_nodes_def rpc_put_metadata_def rpc_delete_metadata_def rpc_prune_subtree_def rpc_unpin_def
  using harmless_refl[OF assms]
  by (auto intro!: harmless_slift[OF assms] tell_ask_harmless[OF assms]
      simp: meta_calls cmd_valid_def new_refs_def slift_def)

lemma put_input_log_harmless:
  assumes "actor_inv (h_blake3 h) (Suc n) (sv_meta s)"
  shows "harmless h n s (snd (rpc_put_input_log h container s))"
  unfolding rpc_put_input_log_def Let_def
  by (rule harmless_slift[OF assms], rule harmless_then, rule tell_meta_harmless[OF assms, where cmd = "PutInputLog _ _"])
    (simp_all add: meta_calls ask_state cmd_valid_def new_refs_def sreturn_def)

lemma harmless_env [simp]: "harmless (h\<lparr>h_env := env\<rparr>) = harmless h"
  by (intro ext) (simp add: harmless_def)

lemma rpc_call_harmless:
  assumes call: "rpc_call h s s'" and inv: "actor_inv (h_blake3 h) (Suc n) (sv_meta s)"
  shows "harmless h n s s'"
proof -
  have inv': "actor_inv (h_blake3 (h\<lparr>h_env := env\<rparr>)) (Suc n) (sv_meta s)" for env
    using inv by simp
  note calls = put_input_log_harmless[OF inv'] create_node_harmless[OF inv'] pin_harmless[OF inv'] tell_calls_harmless[OF inv']
  show ?thesis
    using call by cases (use calls in \<open>metis snd_conv harmless_env\<close>)+
qed

section \<open>Every reference resolves\<close>

definition served :: "'w host \<Rightarrow> nat \<Rightarrow> server_world \<Rightarrow> bool" where
  "served h n w \<longleftrightarrow> world_inv (h_blake3 h) (h_zstd h) (sw_gc w) \<and> actor_inv (h_blake3 h) n (sw_meta w)
     \<and> root_refs (wa_db (sw_meta w)) \<subseteq> wd_acked (sw_gc w)"

lemma world_inv_acked:
  "world_inv blake3 zstd w \<Longrightarrow> acked \<subseteq> wd_acked w \<Longrightarrow> world_inv blake3 zstd (w\<lparr>wd_acked := acked\<rparr>)"
  unfolding world_inv_def by auto

lemma served_call:
  assumes "served h (Suc n) v" "rpc_call h (server_of v) s"
  shows "served h n (v\<lparr>sw_gc := (sw_gc v)\<lparr>wd_store := sv_store s,
        wd_acked := wd_acked (sw_gc v) \<union> root_refs (wa_db (sv_meta s))\<rparr>, sw_meta := sv_meta s\<rparr>)
    \<and> (\<forall>r \<in> wd_acked (sw_gc v). kept (h_blake3 h) (h_zstd h) (wd_store (sw_gc v)) (sv_store s) r)"
proof -
  let ?w = "sw_gc v"
  have inv: "world_inv (h_blake3 h) (h_zstd h) ?w" "root_refs (wa_db (sw_meta v)) \<subseteq> wd_acked ?w"
    "actor_inv (h_blake3 h) (Suc n) (sv_meta (server_of v))"
    using assms(1) by (simp_all add: served_def)
  have "harmless h n (server_of v) s"
    using assms(2) inv(3) by (rule rpc_call_harmless)
  then obtain R where meta: "actor_inv (h_blake3 h) n (sv_meta s)"
    and R: "root_refs (wa_db (sv_meta s)) \<subseteq> root_refs (wa_db (sw_meta v)) \<union> R"
      "sv_store s = wd_store ?w \<and> R = {} \<or> client_step (h_blake3 h) (h_zstd h) (h_crc32 h) (wd_store ?w) R (sv_store s)"
    by (auto simp: harmless_def)
  let ?w' = "?w\<lparr>wd_store := sv_store s, wd_acked := wd_acked ?w \<union> R\<rparr>"
  have "(gc_step (h_blake3 h) (h_zstd h) (h_crc32 h))\<^sup>*\<^sup>* ?w ?w'"
    using R(2) gc_step.client by fastforce
  then have w': "world_inv (h_blake3 h) (h_zstd h) ?w'"
    "\<forall>r \<in> wd_acked ?w. kept (h_blake3 h) (h_zstd h) (wd_store ?w) (sv_store s) r"
    using gc_steps_inv[OF _ inv(1)] by fastforce+
  have "wd_acked ?w \<union> root_refs (wa_db (sv_meta s)) \<subseteq> wd_acked ?w'"
    using R(1) inv(2) by auto
  from world_inv_acked[OF w'(1) this] show ?thesis
    using w'(2) meta by (simp add: served_def)
qed

lemma served_run:
  assumes "server_run h k w w'" "served h (k + n) w"
  shows "served h n w' \<and> wd_acked (sw_gc w) \<subseteq> wd_acked (sw_gc w')
    \<and> (\<forall>r \<in> wd_acked (sw_gc w). kept (h_blake3 h) (h_zstd h) (wd_store (sw_gc w)) (wd_store (sw_gc w')) r)"
  using assms
proof (induction arbitrary: n)
  case (run_none w)
  then show ?case
    using gc_steps_inv[of _ _ "h_crc32 h" "sw_gc w" "sw_gc w"] by (simp add: served_def)
next
  case (run_store k w v g)
  then have v: "served h n v" "wd_acked (sw_gc w) \<subseteq> wd_acked (sw_gc v)"
    "\<forall>r \<in> wd_acked (sw_gc w). kept (h_blake3 h) (h_zstd h) (wd_store (sw_gc w)) (wd_store (sw_gc v)) r"
    by blast+
  have "world_inv (h_blake3 h) (h_zstd h) g \<and> wd_acked (sw_gc v) \<subseteq> wd_acked g \<and>
      (\<forall>r \<in> wd_acked (sw_gc v). kept (h_blake3 h) (h_zstd h) (wd_store (sw_gc v)) (wd_store g) r)"
    using v(1) by (intro gc_steps_inv[OF r_into_rtranclp, of _ _ "h_crc32 h"] run_store.hyps) (simp add: served_def)
  then show ?case
    using v kept_trans by (fastforce simp: served_def)
next
  case (run_rpc k w v s)
  have v: "served h (Suc n) v" "wd_acked (sw_gc w) \<subseteq> wd_acked (sw_gc v)"
    "\<forall>r \<in> wd_acked (sw_gc w). kept (h_blake3 h) (h_zstd h) (wd_store (sw_gc w)) (wd_store (sw_gc v)) r"
    using run_rpc.IH[of "Suc n"] run_rpc.prems by simp_all
  show ?case
    using served_call[OF v(1) run_rpc.hyps(2)] v(2,3) kept_trans by fastforce
qed

text \<open>C38: Beside a collection, whatever the order of its critical sections, of uploads and of the requests that
  write metadata, and whichever transactions SQLite refuses, every snapshot that a node or a pin
  names in the end can be resolved; the snapshots that had been named at the fence have the same
  manifests and the same bytes.\<close>

theorem every_reference_resolves:
  assumes base: "base_inv (h_blake3 h) st" and meta: "actor_inv (h_blake3 h) k a"
    and roots: "gc_root_refs (wa_db a) = Ok roots"
      "\<forall>r \<in> set roots. validate_closure (h_blake3 h) (h_zstd h) st r = Ok ()"
    and run: "server_run h k \<lparr>sw_gc = gc_start (h_blake3 h) (h_zstd h) roots st, sw_meta = a\<rparr> w"
  shows "(\<forall>r \<in> root_refs (wa_db (sw_meta w)). validate_closure (h_blake3 h) (h_zstd h) (wd_store (sw_gc w)) r = Ok ())
    \<and> (\<forall>r \<in> set roots. kept (h_blake3 h) (h_zstd h) (st\<lparr>ss_epoch := Some []\<rparr>) (wd_store (sw_gc w)) r)"
proof -
  have refs: "set roots = root_refs (wa_db a)"
    using gc_root_refs_exact meta roots(1) unfolding actor_inv_def by fastforce
  have "served h (k + 0) \<lparr>sw_gc = gc_start (h_blake3 h) (h_zstd h) roots st, sw_meta = a\<rparr>"
    using gc_start_inv[OF base, of "h_zstd h" roots] meta refs roots(2) by (auto simp: served_def gc_start_def)
  note fin = served_run[OF run this]
  then show ?thesis
    using roots(2) by (auto simp: served_def world_inv_def gc_start_def)
qed

section \<open>A run\<close>

text \<open>A pin of a stored snapshot arrives after the fence of a collection that knows no root.\<close>

definition demo_host :: "wire host" where
  "demo_host = \<lparr>h_uses = cycle_uses, h_prost = demo_prost, h_zstd = Some, h_crc32 = (\<lambda>_. 7), h_order = id, h_now = 0,
     h_env = fine_env\<rparr>"

definition pin_actor :: writer_actor where
  "pin_actor = \<lparr>wa_db = demo_db, wa_counter = 4, wa_batch_max = WRITE_BATCH_MAX, wa_config = meta_config_default\<rparr>"

definition demo_epoch :: "page_store \<Rightarrow> server_world" where
  "demo_epoch ps = \<lparr>sw_gc = gc_start len_hash Some [] (snap_with ps demo_trash), sw_meta = pin_actor\<rparr>"

definition pinned_actor :: writer_actor where
  "pinned_actor = snd (ask cycle_uses fine_env (PinCmd (SnapshotRef 136) None) pin_actor)"

lemma pin_actor_ask: "ask cycle_uses fine_env (PinCmd (SnapshotRef 136) None) pin_actor = (Ok (RUnit (Ok ())), pinned_actor)"
  by (simp add: pinned_actor_def ask_def execute_batch_def pin_actor_def fine_env_def dispatch_cmd_def pin_impl_def
      panicked_def send_result_def Let_def)

lemma pinned_actor_refs: "SnapshotRef 136 \<in> root_refs (wa_db pinned_actor)"
  by (simp add: pinned_actor_def ask_def execute_batch_def pin_actor_def fine_env_def dispatch_cmd_def pin_impl_def
      panicked_def succeeded_def send_result_def flush_counter_def demo_db_def root_refs_def snapshot_ref_to_sql_def Let_def
      del: snapshot_ref_to_bytes.simps)

lemma demo_pin:
  assumes "register_live_ref len_hash Some (SnapshotRef 136) st = (Ok (), st')"
  shows "rpc_pin demo_host (snapshot_ref_to_bytes (SnapshotRef 136)) [] \<lparr>sv_store = st, sv_meta = pin_actor\<rparr>
    = (Ok True, \<lparr>sv_store = st', sv_meta = pinned_actor\<rparr>)"
proof -
  have "list_pins (wa_db pin_actor) = Ok []"
    by (simp add: list_pins_def pin_actor_def demo_db_def)
  moreover have "u_blake3 cycle_uses = len_hash"
    by (simp add: cycle_uses_def)
  ultimately show ?thesis
    using assms pin_actor_ask
    by (simp add: rpc_pin_def demo_host_def validate_hash32_def slift_def sbind_def ask_meta_def joined_def
        register_then_def at_store_def tell_meta_def meta_pin_def ask_unit_def sreturn_def Let_def
        del: snapshot_ref_to_bytes.simps)
qed

theorem every_reference_resolves_witness:
  "\<exists>ps w. server_run demo_host 1 (demo_epoch ps) w \<and> SnapshotRef 136 \<in> root_refs (wa_db (sw_meta w))
     \<and> validate_closure len_hash Some (wd_store (sw_gc w)) (SnapshotRef 136) = Ok ()"
proof -
  obtain ps where ps: "store_inv len_hash ps" "dirty_ok ps" "dom (index_get (ps_index ps)) = {PageHash 4096}"
    using demo_one_pack by blast
  let ?st = "snap_with ps demo_trash"
  have b: "h_blake3 demo_host = len_hash" "h_zstd demo_host = Some" "demo_host\<lparr>h_env := fine_env\<rparr> = demo_host"
    by (simp_all add: demo_host_def cycle_uses_def)
  have base: "base_inv len_hash ?st"
    using ps(1,2) by (simp add: base_inv_def demo_trash_def)
  have "validate_closure len_hash Some (?st\<lparr>ss_epoch := Some [SnapshotRef 136]\<rparr>) (SnapshotRef 136) = Ok ()"
    by simp (rule demo_closed, use ps(3) in \<open>simp_all add: demo_trash_def\<close>)
  then have "register_live_ref len_hash Some (SnapshotRef 136) (?st\<lparr>ss_epoch := Some []\<rparr>)
      = (Ok (), ?st\<lparr>ss_epoch := Some [SnapshotRef 136]\<rparr>)"
    by (simp add: register_live_ref_def)
  note pin = demo_pin[OF this]
  have "server_of (demo_epoch ps) = \<lparr>sv_store = ?st\<lparr>ss_epoch := Some []\<rparr>, sv_meta = pin_actor\<rparr>"
    by (simp add: demo_epoch_def gc_start_def)
  then have "rpc_call demo_host (server_of (demo_epoch ps))
      \<lparr>sv_store = ?st\<lparr>ss_epoch := Some [SnapshotRef 136]\<rparr>, sv_meta = pinned_actor\<rparr>"
    using call_pin[where h = demo_host and env = fine_env, unfolded b(3), OF pin] by metis
  from run_rpc[OF run_none this] obtain w where w: "server_run demo_host 1 (demo_epoch ps) w" "sw_meta w = pinned_actor"
    by fastforce
  have "actor_inv (h_blake3 demo_host) 1 pin_actor" "gc_root_refs (wa_db pin_actor) = Ok []"
    using demo_inv by (simp_all add: actor_inv_def pin_actor_def gc_root_refs_def) (simp add: demo_db_def)
  from every_reference_resolves[OF _ this, of ?st w] base w(1)
  have "\<forall>r \<in> root_refs (wa_db (sw_meta w)). validate_closure len_hash Some (wd_store (sw_gc w)) r = Ok ()"
    unfolding demo_epoch_def b by simp
  then show ?thesis
    using w pinned_actor_refs by (intro exI[of _ ps] exI[of _ w]) simp
qed

end
