(* ===== verification/Client_Retry.thy ===== *)
theory Client_Retry
  imports Rpc_Errors
begin

text \<open>
  The retry policy of the client, \<^verbatim>\<open>crates/snapstore-client/src/retry.rs\<close>.  A duration is a number of
  nanoseconds.  \<open>results i\<close> is what attempt number \<open>i\<close> returns and \<open>took i\<close> the time from the end of the
  pause before it to its end, with what \<open>sleep\<close> overslept.  The loop is a partial function: not
  returning would be the value \<open>None\<close>.
\<close>

definition millis :: "nat \<Rightarrow> nat" where
  "millis n = n * 1000000"

definition MAX_ELAPSED :: nat where
  "MAX_ELAPSED = millis 30000"

definition INITIAL_DELAY :: nat where
  "INITIAL_DELAY = millis 50"

definition MAX_DELAY :: nat where
  "MAX_DELAY = millis 5000"

definition is_retryable :: "'w client_error \<Rightarrow> bool" where
  "is_retryable err =
     (if is_non_retryable err then False
      else case err of
        CeStatus s \<Rightarrow> sx_code s = CodeUnavailable \<or> sx_code s = CodeDeadlineExceeded
      | CeTransport _ \<Rightarrow> True
      | _ \<Rightarrow> False)"

partial_function (option) retry_loop ::
  "(nat \<Rightarrow> ('w client_error, 'a) outcome) \<Rightarrow> (nat \<Rightarrow> nat) \<Rightarrow> nat \<Rightarrow> nat \<Rightarrow> nat \<Rightarrow>
     (('w client_error, 'a) outcome \<times> nat \<times> nat) option" where
  "retry_loop results took attempt elapsed delay =
     (let elapsed = elapsed + took attempt in
      case results attempt of
        Err e \<Rightarrow>
          if is_retryable e then
            if elapsed \<ge> MAX_ELAPSED then Some (Err e, attempt, elapsed)
            else let jitter_ms = attempt * 7 mod 20;
                     sleep_dur = min (delay + millis jitter_ms) MAX_DELAY
                 in retry_loop results took (attempt + 1) (elapsed + sleep_dur) (min (delay * 2) MAX_DELAY)
          else Some (Err e, attempt, elapsed)
      | r \<Rightarrow> Some (r, attempt, elapsed))"

declare retry_loop.simps [code]

text \<open>The result, the number of the last attempt and the time that has passed.\<close>

definition with_retry ::
  "(nat \<Rightarrow> ('w client_error, 'a) outcome) \<Rightarrow> (nat \<Rightarrow> nat) \<Rightarrow> (('w client_error, 'a) outcome \<times> nat \<times> nat) option" where
  "with_retry results took = retry_loop results took 0 0 INITIAL_DELAY"

section \<open>The loop ends\<close>

text \<open>The least time that \<open>n\<close> pauses take.\<close>

fun slept :: "nat \<Rightarrow> nat \<Rightarrow> nat" where
  "slept 0 delay = 0"
| "slept (Suc n) delay = min delay MAX_DELAY + slept n (min (delay * 2) MAX_DELAY)"

definition transient :: "(nat \<Rightarrow> ('w client_error, 'a) outcome) \<Rightarrow> nat \<Rightarrow> bool" where
  "transient results i \<longleftrightarrow> (\<exists>e. results i = Err e \<and> is_retryable e)"

lemma retry_loop_ends:
  assumes "elapsed + slept n delay \<ge> MAX_ELAPSED" "elapsed \<le> MAX_ELAPSED + MAX_DELAY"
  shows "\<exists>k el. retry_loop results took attempt elapsed delay = Some (results k, k, el)
    \<and> attempt \<le> k \<and> k \<le> attempt + n \<and> (\<forall>i \<in> {attempt..<k}. transient results i)
    \<and> el \<le> MAX_ELAPSED + MAX_DELAY + took k
    \<and> (transient results k \<longrightarrow> el \<ge> MAX_ELAPSED)"
  using assms
proof (induction n arbitrary: attempt elapsed delay)
  case 0
  then show ?case
    by (subst retry_loop.simps) (auto simp: Let_def transient_def split: outcome.split intro!: exI[of _ attempt])
next
  case (Suc n)
  show ?case
  proof (cases "transient results attempt \<and> elapsed + took attempt < MAX_ELAPSED")
    case True
    then obtain e where e: "results attempt = Err e" "is_retryable e"
      by (auto simp: transient_def)
    let ?el = "elapsed + took attempt + min (delay + millis (attempt * 7 mod 20)) MAX_DELAY"
    have step: "retry_loop results took attempt elapsed delay = retry_loop results took (attempt + 1) ?el (min (delay * 2) MAX_DELAY)"
      using e True by (subst retry_loop.simps) (simp add: Let_def)
    have "MAX_ELAPSED \<le> ?el + slept n (min (delay * 2) MAX_DELAY)" "?el \<le> MAX_ELAPSED + MAX_DELAY"
      using Suc.prems(1) True by simp_all linarith+
    from Suc.IH[OF this, of "attempt + 1"] obtain k el where k: "retry_loop results took (attempt + 1) ?el (min (delay * 2) MAX_DELAY) = Some (results k, k, el)"
      "attempt + 1 \<le> k" "k \<le> attempt + 1 + n" "\<forall>i \<in> {attempt + 1..<k}. transient results i" "el \<le> MAX_ELAPSED + MAX_DELAY + took k"
      "transient results k \<longrightarrow> el \<ge> MAX_ELAPSED"
      by blast
    have "\<forall>i \<in> {attempt..<k}. transient results i"
      using k(4) True by (metis Suc_eq_plus1 atLeastLessThan_iff le_neq_implies_less less_eq_Suc_le)
    then show ?thesis
      using k step by (intro exI[of _ k] exI[of _ el]) auto
  next
    case False
    then show ?thesis
      using Suc.prems(2)
      by (subst retry_loop.simps) (auto simp: Let_def transient_def split: outcome.split intro!: exI[of _ attempt])
  qed
qed

text \<open>C40: A call under the retry policy returns, whatever the server does: after at most 13 attempts, and
  at most 35 seconds after its start apart from its last attempt.  The result is that of the last
  attempt; all earlier ones failed with an unavailable server, a passed deadline or a broken
  transport, and when the last one did too the budget of 30 seconds is used up.\<close>

theorem retry_returns:
  "\<exists>k el. with_retry results took = Some (results k, k, el)
    \<and> k \<le> 12 \<and> (\<forall>i < k. transient results i)
    \<and> el \<le> MAX_ELAPSED + MAX_DELAY + took k
    \<and> (transient results k \<longrightarrow> el \<ge> MAX_ELAPSED)"
proof -
  have twelve: "(12 :: nat) = Suc (Suc (Suc (Suc (Suc (Suc (Suc (Suc (Suc (Suc (Suc (Suc 0)))))))))))"
    by simp
  have "MAX_ELAPSED \<le> 0 + slept 12 INITIAL_DELAY"
    unfolding twelve by (simp add: MAX_ELAPSED_def INITIAL_DELAY_def MAX_DELAY_def millis_def)
  from retry_loop_ends[OF this, of results took 0] show ?thesis
    by (simp add: with_retry_def atLeast0LessThan Ball_def)
qed

theorem retry_returns_witness:
  "\<exists>el. with_retry (\<lambda>_. Err (CeCasFailed 3) :: (unit client_error, nat) outcome) (\<lambda>_. 7) = Some (Err (CeCasFailed 3), 0, el)
     \<and> el \<le> MAX_ELAPSED + MAX_DELAY + 7"
proof -
  let ?results = "\<lambda>_. Err (CeCasFailed 3) :: (unit client_error, nat) outcome"
  have "\<not> transient ?results i" for i
    by (simp add: transient_def is_retryable_def is_non_retryable_def)
  moreover obtain k el where "with_retry ?results (\<lambda>_. 7) = Some (?results k, k, el)" "\<forall>i < k. transient ?results i"
    "el \<le> MAX_ELAPSED + MAX_DELAY + 7"
    using retry_returns[of ?results "\<lambda>_. 7"] by blast
  ultimately show ?thesis
    by (cases k) auto
qed

text \<open>The module says that the total time stays below 30 seconds.  A server that is never available is
  asked for the last time more than 31 seconds after the start.\<close>

lemma retry_overruns_budget:
  "\<exists>k el. with_retry (\<lambda>_. Err (CeTransport [])) (\<lambda>_. 0) = Some (Err (CeTransport []), k, el) \<and> el > millis 31000"
  by (simp add: with_retry_def retry_loop.simps is_retryable_def is_non_retryable_def Let_def
      MAX_ELAPSED_def INITIAL_DELAY_def MAX_DELAY_def millis_def)

end
