(* ===== verification/Meta_Schema.thy ===== *)
theory Meta_Schema
  imports Meta_Serial Meta_Query
begin

text \<open>
  Opening the database, \<^verbatim>\<open>crates/snapstore-meta/src/schema.rs\<close> and \<open>MetaDb::open\<close>: the
  version-stepping migrations, each in one transaction, and the logical counter that is derived
  again from what is stored.  The wall clock and the random UUID are arguments; a transaction
  whose statements succeed is taken to commit.
\<close>

section \<open>Migrations\<close>

definition SUPPORTED_VERSION :: i64 where
  "SUPPORTED_VERSION = 2"

text \<open>\<open>INSERT OR IGNORE INTO _migrations\<close>.\<close>

definition note_migration :: "nat \<Rightarrow> string \<Rightarrow> i64 \<Rightarrow> tree_db \<Rightarrow> tree_db" where
  "note_migration i name now db =
     (if i \<in> fst ` set (db_migrations db) then db
      else db\<lparr>db_migrations := db_migrations db @ [(i, name, now)]\<rparr>)"

lemma note_migration_keeps [simp]:
  "db_has_meta (note_migration i nm now db) = db_has_meta db"
  "db_has_gc_state (note_migration i nm now db) = db_has_gc_state db"
  "db_meta (note_migration i nm now db) = db_meta db"
  "db_gc_state (note_migration i nm now db) = db_gc_state db"
  "db_nodes (note_migration i nm now db) = db_nodes db"
  "db_input_logs (note_migration i nm now db) = db_input_logs db"
  "db_kv_metadata (note_migration i nm now db) = db_kv_metadata db"
  "db_pins (note_migration i nm now db) = db_pins db"
  "db_tombstones (note_migration i nm now db) = db_tombstones db"
  "tree_inv blake3 c (note_migration i nm now db) = tree_inv blake3 c db"
  by (simp_all add: note_migration_def tree_inv_def)

definition seed_meta_rows :: "string \<Rightarrow> i64 \<Rightarrow> tree_db \<Rightarrow> tree_db" where
  "seed_meta_rows store_uuid now db =
     (let db = (if db_meta db = None
                then db\<lparr>db_meta := Some \<lparr>m_schema_version = 1, m_store_uuid = store_uuid,
                                         m_logical_counter = 0\<rparr>\<rparr>
                else db)
      in note_migration 1 ''001_initial'' now db)"

text \<open>The statements of \<^verbatim>\<open>001_initial.sql\<close> and \<^verbatim>\<open>002_gc_state.sql\<close>.\<close>

definition migration_001 :: "(tree_db, meta_error, unit) op" where
  "migration_001 db =
     (if db_has_meta db then (Err (MeSqlite TableExists), db)
      else (Ok (), db\<lparr>db_has_meta := True, db_meta := None, db_nodes := [], db_input_logs := [],
                      db_kv_metadata := [], db_pins := [], db_tombstones := []\<rparr>))"

definition migration_002 :: "(tree_db, meta_error, unit) op" where
  "migration_002 db =
     (if db_has_gc_state db then (Err (MeSqlite TableExists), db)
      else (Ok (), db\<lparr>db_has_gc_state := True, db_gc_state := Some \<lparr>g_cycles_total = 0,
             g_last_fence_counter = 0, g_last_finished_at = 0, g_last_freed_bytes = 0\<rparr>\<rparr>))"

definition set_version :: "i64 \<Rightarrow> tree_db \<Rightarrow> tree_db" where
  "set_version v db = db\<lparr>db_meta := map_option (\<lambda>m. m\<lparr>m_schema_version := v\<rparr>) (db_meta db)\<rparr>"

text \<open>One step; an error drops the transaction, which rolls it back.\<close>

definition apply_migration_step :: "string \<Rightarrow> i64 \<Rightarrow> i64 \<Rightarrow> (tree_db, meta_error, unit) op" where
  "apply_migration_step store_uuid now target_version db =
     (let r = (if target_version = 1 then
                 sbind migration_001 (\<lambda>_ db. (Ok (), seed_meta_rows store_uuid now db)) db
               else if target_version = 2 then
                 sbind migration_002 (\<lambda>_ db.
                   (Ok (), note_migration 2 ''002_gc_state'' now (set_version 2 db))) db
               else (Err (MeIo ''no migration DDL defined for schema version''), db))
      in case r of (Ok _, db') \<Rightarrow> (Ok (), db') | (e, _) \<Rightarrow> (e, db))"

text \<open>
  \<open>steps_left\<close> bounds the iterations: a database without tables takes two steps, one whose
  \<open>meta\<close> row is missing is seeded and takes one, one of version 1 takes one.
\<close>

definition steps_left :: "tree_db \<Rightarrow> nat" where
  "steps_left db =
     (if \<not> db_has_meta db then 4
      else case db_meta db of None \<Rightarrow> 3 | Some m \<Rightarrow> nat (sint SUPPORTED_VERSION - sint (m_schema_version m)))"

lemma apply_step_cases:
  assumes "apply_migration_step uuid now v db = (Ok (), db')"
  shows "(v = 1 \<and> \<not> db_has_meta db \<and> db_has_meta db'
          \<and> db_meta db' = Some \<lparr>m_schema_version = 1, m_store_uuid = uuid, m_logical_counter = 0\<rparr>)
       \<or> (v = 2 \<and> \<not> db_has_gc_state db \<and> db_has_meta db' = db_has_meta db
          \<and> db_meta db' = map_option (\<lambda>m. m\<lparr>m_schema_version := 2\<rparr>) (db_meta db))"
proof -
  consider "v = 1" "\<not> db_has_meta db" | "v = 2" "\<not> db_has_gc_state db"
    | "v = 1" "db_has_meta db" | "v = 2" "db_has_gc_state db" | "v \<noteq> 1" "v \<noteq> 2"
    by blast
  then show ?thesis
    by cases (use assms in \<open>auto simp: apply_migration_step_def migration_001_def migration_002_def
        sbind_def seed_meta_rows_def set_version_def\<close>)
qed

lemma seed_decreases:
  "db_has_meta db \<Longrightarrow> db_meta db = None \<Longrightarrow> steps_left (seed_meta_rows uuid now db) < steps_left db"
  by (simp add: steps_left_def seed_meta_rows_def SUPPORTED_VERSION_def)

lemma step_decreases:
  assumes "\<not> (db_has_meta db \<and> db_meta db = None)"
    and v: "v = (if \<not> db_has_meta db then 0 else m_schema_version (the (db_meta db)))"
    and step: "apply_migration_step uuid now (v + 1) db = (Ok u, db')"
  shows "steps_left db' < steps_left db"
proof -
  have one: "sint (1 :: i64) = 1" "sint (2 :: i64) = 2"
    by simp_all
  have "v = 1" if "v + 1 = 2"
    using that by (metis add_right_cancel one_add_one)
  then consider "\<not> db_has_meta db" "db_has_meta db'"
      "db_meta db' = Some \<lparr>m_schema_version = 1, m_store_uuid = uuid, m_logical_counter = 0\<rparr>"
    | "v = 1" "db_has_meta db' = db_has_meta db"
      "db_meta db' = map_option (\<lambda>m. m\<lparr>m_schema_version := 2\<rparr>) (db_meta db)"
    using apply_step_cases[of uuid now "v + 1" db db'] step by (cases u) auto
  then show ?thesis
  proof cases
    case 1
    then show ?thesis
      by (simp add: steps_left_def SUPPORTED_VERSION_def one)
  next
    case 2
    then obtain m where "db_has_meta db" "db_meta db = Some m" "m_schema_version m = 1"
      using assms(1) v by (cases "db_meta db") (auto split: if_splits)
    with 2 show ?thesis
      by (simp add: steps_left_def SUPPORTED_VERSION_def one)
  qed
qed

function run_migration :: "string \<Rightarrow> i64 \<Rightarrow> (tree_db, meta_error, unit) op" where
  "run_migration uuid now db =
     (if db_has_meta db \<and> db_meta db = None
      then run_migration uuid now (seed_meta_rows uuid now db)
      else
      let current_version = (if \<not> db_has_meta db then 0 else m_schema_version (the (db_meta db))) in
      if sint current_version > sint SUPPORTED_VERSION
      then (Err (MeFutureVersion current_version SUPPORTED_VERSION), db)
      else if current_version = SUPPORTED_VERSION then (Ok (), db)
      else case apply_migration_step uuid now (current_version + 1) db of
        (Ok _, db) \<Rightarrow> run_migration uuid now db
      | (Err e, db) \<Rightarrow> (Err e, db)
      | (Panic, db) \<Rightarrow> (Panic, db))"
  by pat_completeness auto
termination
  by (relation "measure (\<lambda>(uuid, now, db). steps_left db)")
    (auto simp: seed_decreases intro: step_decreases[OF _ refl sym])

declare run_migration.simps [simp del]

section \<open>Opening\<close>

definition max_i64 :: "i64 \<Rightarrow> i64 \<Rightarrow> i64" where
  "max_i64 a b = (if sint a < sint b then b else a)"

definition rederive_counter :: "tree_db \<Rightarrow> u64" where
  "rederive_counter db =
     (let persisted = (case db_meta db of Some m \<Rightarrow> m_logical_counter m | None \<Rightarrow> 0);
          max_created = max_signed (map c_created_at (db_nodes db));
          max_updated = max_signed (map c_updated_at (db_nodes db));
          max_val = max_i64 (max_i64 persisted max_created) max_updated
      in if max_val = -1 then -1 else max_val + 1)"

definition meta_open :: "string \<Rightarrow> i64 \<Rightarrow> meta_config \<Rightarrow> tree_db \<Rightarrow> (meta_error, writer_actor) outcome" where
  "meta_open uuid now config db =
     (case run_migration uuid now db of
        (Ok _, db) \<Rightarrow> Ok \<lparr>wa_db = db, wa_counter = rederive_counter db,
                          wa_batch_max = WRITE_BATCH_MAX, wa_config = config\<rparr>
      | (Err e, _) \<Rightarrow> Err e
      | (Panic, _) \<Rightarrow> Panic)"

section \<open>What opening gives\<close>

lemma max_signed_ge: "v \<in> set vs \<Longrightarrow> sint v \<le> sint (max_signed vs)"
proof -
  let ?f = "\<lambda>(x :: i64) m. if sint m < sint x then x else m"
  have up: "sint m \<le> sint (fold ?f vs m) \<and> (\<forall>v \<in> set vs. sint v \<le> sint (fold ?f vs m))" for vs m
  proof (induction vs arbitrary: m)
    case (Cons x vs)
    have "sint m \<le> sint (?f x m)" "sint x \<le> sint (?f x m)"
      by simp_all
    then show ?case
      using Cons[of "?f x m"] by (auto intro: order_trans)
  qed simp
  show "v \<in> set vs \<Longrightarrow> ?thesis"
    using up by (cases vs) (auto simp: max_signed_def)
qed

lemma max_signed_in: "max_signed vs \<in> insert 0 (set vs)"
proof -
  let ?f = "\<lambda>(x :: i64) m. if sint m < sint x then x else m"
  have "fold ?f vs m \<in> insert m (set vs)" for vs m
    by (induction vs arbitrary: m) auto
  then show ?thesis
    by (cases vs) (auto simp: max_signed_def)
qed

lemma max_i64_props: "sint a \<le> sint (max_i64 a b)" "sint b \<le> sint (max_i64 a b)" "max_i64 a b \<in> {a, b}"
  by (simp_all add: max_i64_def)

lemma nodes_inv_rebound:
  assumes "nodes_inv c ns" "\<And>r. r \<in> set ns \<Longrightarrow> unat (c_created_at r) < c' \<and> unat (c_updated_at r) < c'"
  shows "nodes_inv c' ns"
  using assms unfolding nodes_inv_def by blast

lemma rederive_counter_above:
  assumes inv: "tree_inv blake3 c db" and c: "c \<le> 2 ^ 63"
    and m: "db_meta db = Some m" "unat (m_logical_counter m) < 2 ^ 63"
  shows "unat (m_logical_counter m) < unat (rederive_counter db)"
    "r \<in> set (db_nodes db) \<Longrightarrow> unat (c_created_at r) < unat (rederive_counter db)"
    "r \<in> set (db_nodes db) \<Longrightarrow> unat (c_updated_at r) < unat (rederive_counter db)"
    "unat (rederive_counter db) \<le> 2 ^ 63"
proof -
  define cr where "cr = max_signed (map c_created_at (db_nodes db))"
  define up where "up = max_signed (map c_updated_at (db_nodes db))"
  define mx where "mx = max_i64 (max_i64 (m_logical_counter m) cr) up"
  have stamp: "unat (c_created_at r) < 2 ^ 63" "unat (c_updated_at r) < 2 ^ 63" if "r \<in> set (db_nodes db)" for r
    using nodes_inv_row(2,3)[OF tree_inv_nodes[OF inv] that] c by linarith+
  have "cr \<in> insert 0 (c_created_at ` set (db_nodes db))" "up \<in> insert 0 (c_updated_at ` set (db_nodes db))"
    using max_signed_in by (metis cr_def list.set_map, metis up_def list.set_map)
  then have small: "unat cr < 2 ^ 63" "unat up < 2 ^ 63"
    using stamp by auto
  then have mx: "unat mx < 2 ^ 63"
    using max_i64_props(3) m(2) unfolding mx_def by (metis empty_iff insert_iff)
  have le: "unat v \<le> unat mx" if "sint v \<le> sint mx" "unat v < 2 ^ 63" for v :: i64
    using that(1) sint_small[OF that(2)] sint_small[OF mx] by linarith
  have suc: "unat (mx + 1) = Suc (unat mx)"
    using mx by (simp add: unat_word_ariths)
  then have "mx \<noteq> -1"
    by auto
  with suc have counter: "unat (rederive_counter db) = Suc (unat mx)"
    by (simp add: rederive_counter_def m(1) mx_def cr_def up_def)
  have "sint (m_logical_counter m) \<le> sint mx" "sint cr \<le> sint mx" "sint up \<le> sint mx"
    using max_i64_props(1,2) unfolding mx_def by (metis order_trans)+
  then show "unat (m_logical_counter m) < unat (rederive_counter db)"
    "r \<in> set (db_nodes db) \<Longrightarrow> unat (c_created_at r) < unat (rederive_counter db)"
    "r \<in> set (db_nodes db) \<Longrightarrow> unat (c_updated_at r) < unat (rederive_counter db)"
    "unat (rederive_counter db) \<le> 2 ^ 63"
    using le[of "m_logical_counter m"] le[of "c_created_at r"] le[of "c_updated_at r"] m(2) stamp mx
      max_signed_ge[of "c_created_at r" "map c_created_at (db_nodes db)"]
      max_signed_ge[of "c_updated_at r" "map c_updated_at (db_nodes db)"]
    by (auto simp: counter less_Suc_eq_le cr_def[symmetric] up_def[symmetric])
qed



text \<open>Rows kept, version 2 reached.\<close>

definition migrated :: "tree_db \<Rightarrow> tree_db \<Rightarrow> bool" where
  "migrated db db' \<longleftrightarrow> db_has_meta db' \<and> db_has_gc_state db'
     \<and> map_option m_schema_version (db_meta db') = Some SUPPORTED_VERSION
     \<and> db_nodes db' = db_nodes db \<and> db_input_logs db' = db_input_logs db
     \<and> db_kv_metadata db' = db_kv_metadata db \<and> db_pins db' = db_pins db
     \<and> db_tombstones db' = db_tombstones db \<and> db_gc_state db' \<noteq> None"

lemma migrate_from_1:
  assumes "db_has_meta db" "db_meta db = Some m" "m_schema_version m = 1" "\<not> db_has_gc_state db"
  shows "\<exists>db'. run_migration uuid now db = (Ok (), db') \<and> migrated db db'"
proof -
  let ?db = "note_migration 2 ''002_gc_state'' now (set_version 2 (snd (migration_002 db)))"
  have "apply_migration_step uuid now 2 db = (Ok (), ?db)"
    using assms by (simp add: apply_migration_step_def migration_002_def sbind_def)
  then have step: "run_migration uuid now db = run_migration uuid now ?db"
    using assms by (subst run_migration.simps) (simp add: SUPPORTED_VERSION_def)
  have fin: "run_migration uuid now ?db = (Ok (), ?db)"
    using assms by (subst run_migration.simps)
      (simp add: SUPPORTED_VERSION_def set_version_def migration_002_def)
  have "migrated db ?db"
    using assms by (simp add: migrated_def set_version_def migration_002_def
        SUPPORTED_VERSION_def)
  with step fin show ?thesis
    by auto
qed

text \<open>The migration loop ends.  On a new file it creates the tables, on a database of version 1
  (also one whose version row is missing) it adds what is new and keeps every row; both reach
  the supported version.  A database of a later version is refused and not touched.\<close>

theorem migration_reaches_supported_version:
  "(\<not> db_has_meta db \<and> \<not> db_has_gc_state db \<longrightarrow>
      (\<exists>db'. run_migration uuid now db = (Ok (), db') \<and> tree_inv blake3 c db' \<and> db_nodes db' = []
         \<and> map_option m_schema_version (db_meta db') = Some SUPPORTED_VERSION))
   \<and> (db_has_meta db \<and> \<not> db_has_gc_state db \<and> (db_meta db = None \<or> map_option m_schema_version (db_meta db) = Some 1)
      \<longrightarrow> (\<exists>db'. run_migration uuid now db = (Ok (), db') \<and> migrated db db'))
   \<and> (db_has_meta db \<and> db_meta db = Some m \<and> sint (m_schema_version m) > sint SUPPORTED_VERSION
      \<longrightarrow> run_migration uuid now db = (Err (MeFutureVersion (m_schema_version m) SUPPORTED_VERSION), db))"
proof (intro conjI impI)
  assume new: "\<not> db_has_meta db \<and> \<not> db_has_gc_state db"
  let ?db = "seed_meta_rows uuid now (snd (migration_001 db))"
  have "apply_migration_step uuid now 1 db = (Ok (), ?db)"
    using new by (simp add: apply_migration_step_def migration_001_def sbind_def)
  then have step: "run_migration uuid now db = run_migration uuid now ?db"
    using new by (subst run_migration.simps) (simp add: SUPPORTED_VERSION_def)
  have seeded: "db_has_meta ?db" "\<not> db_has_gc_state ?db" "db_nodes ?db = []" "db_input_logs ?db = []"
    "db_kv_metadata ?db = []" "db_pins ?db = []" "db_tombstones ?db = []"
    "db_meta ?db = Some \<lparr>m_schema_version = 1, m_store_uuid = uuid, m_logical_counter = 0\<rparr>"
    using new by (simp_all add: seed_meta_rows_def migration_001_def)
  then obtain db' where db': "run_migration uuid now ?db = (Ok (), db')" "migrated ?db db'"
    using migrate_from_1[OF seeded(1,8) _ seeded(2), of uuid now] by auto
  then have "tree_inv blake3 c db'"
    using seeded by (auto simp: migrated_def tree_inv_def nodes_inv_def)
  with db' step seeded(3) show "\<exists>db'. run_migration uuid now db = (Ok (), db') \<and> tree_inv blake3 c db'
      \<and> db_nodes db' = [] \<and> map_option m_schema_version (db_meta db') = Some SUPPORTED_VERSION"
    by (auto simp: migrated_def)
next
  assume old: "db_has_meta db \<and> \<not> db_has_gc_state db
    \<and> (db_meta db = None \<or> map_option m_schema_version (db_meta db) = Some 1)"
  show "\<exists>db'. run_migration uuid now db = (Ok (), db') \<and> migrated db db'"
  proof (cases "db_meta db")
    case None
    let ?db = "seed_meta_rows uuid now db"
    have seeded: "db_has_meta ?db" "\<not> db_has_gc_state ?db"
      "db_meta ?db = Some \<lparr>m_schema_version = 1, m_store_uuid = uuid, m_logical_counter = 0\<rparr>"
      "db_nodes ?db = db_nodes db" "db_input_logs ?db = db_input_logs db"
      "db_kv_metadata ?db = db_kv_metadata db" "db_pins ?db = db_pins db" "db_tombstones ?db = db_tombstones db"
      using old None by (simp_all add: seed_meta_rows_def)
    have "run_migration uuid now db = run_migration uuid now ?db"
      using old None by (subst run_migration.simps) simp
    then show ?thesis
      using migrate_from_1[OF seeded(1,3) _ seeded(2), of uuid now] seeded(4-) by (auto simp: migrated_def)
  next
    case (Some m)
    then show ?thesis
      using old migrate_from_1[of db m uuid now] by auto
  qed
next
  assume late: "db_has_meta db \<and> db_meta db = Some m \<and> sint (m_schema_version m) > sint SUPPORTED_VERSION"
  then show "run_migration uuid now db = (Err (MeFutureVersion (m_schema_version m) SUPPORTED_VERSION), db)"
    by (subst run_migration.simps) simp
qed

definition blank_db :: tree_db where
  "blank_db = demo_db\<lparr>db_has_meta := False, db_has_gc_state := False, db_meta := None, db_gc_state := None\<rparr>"

theorem migration_reaches_supported_version_witness:
  "\<exists>db'. run_migration [] 5 blank_db = (Ok (), db') \<and> tree_inv (\<lambda>_. 0) 1 db'"
  using migration_reaches_supported_version[of blank_db "[]" 5 "\<lambda>_. 0" 1]
  by (auto simp: blank_db_def)

end
