(* ===== verification/Spec2Isabelle.thy ===== *)
theory Spec2Isabelle
  imports Rpc_Epoch Client_Retry Meta_Schema
begin

text \<open>
  A verification development for snapshot-store: a content-addressed store of virtual-machine
  snapshots.  Guest pages live in append-only pack files, a snapshot is a manifest that names its
  pages by hash, delta manifests name a parent, and a collector compacts packs and deletes
  manifests nobody needs.

  \<^bold>\<open>How the program fits together.\<close>  A client sends pages to the page store
  (\<^verbatim>\<open>snapstore-pagestore\<close>), which hashes, deduplicates and appends them, and then commits a
  manifest container (\<^verbatim>\<open>snapstore-manifest\<close>) to the snapshot store (\<^verbatim>\<open>snapstore-store\<close>).  The
  commit checks the parent and the pages, waits for the sync barrier, publishes the manifest by a
  rename and registers the new reference with a running collection.  Reading walks the chain of
  parents, flattens it child-first and streams the pages.  The collector marks from its roots,
  copies live records out of sparse packs, repoints the index, unlinks packs and deletes manifests,
  while clients go on.  The tree of search nodes that refers to snapshots, the pins, the input logs and
  small key-value entries live in a metadata database (\<^verbatim>\<open>snapstore-meta\<close>) behind one writer
  thread that batches commands into transactions.  The server (\<^verbatim>\<open>snapstore-server\<close>) puts both behind a
  gRPC service and runs collection cycles that take their roots from the metadata; the client
  (\<^verbatim>\<open>snapstore-client\<close>) turns statuses into typed errors and retries transient failures.

  \<^bold>\<open>Conventions.\<close>  A fallible function returns an \<^typ>\<open>('e, 'a) outcome\<close>: \<open>Ok\<close>, \<open>Err\<close> with the
  source's error, or \<open>Panic\<close> for an unwrap, index or slice that fails.  A method that changes its
  object maps the old state to a result and the new state.  Integers have their width as words;
  \<open>usize\<close> is a natural number below \<^const>\<open>usize_limit\<close> with the checked operations written out.
  A hash is a 256-bit word.  A file is its bytes, an append-only writer also its buffer and cursor; a
  directory is an association list.  BLAKE3, CRC-32, zstd and the clock are parameters of the
  definitions that use them, and no theorem assumes that the hash has no collisions: where a page
  could be confused with another the statements speak of the hash.

  \<^bold>\<open>Theories\<close>
  \<^item> \<^verbatim>\<open>Prelude\<close>: outcomes and state passing, slices and little-endian integers, association lists,
    checked and saturating arithmetic, facts shared by all.
  \<^item> \<^verbatim>\<open>Snap_Types\<close> (\<^verbatim>\<open>snapstore-types/src/lib.rs\<close>): identifiers, locations, experiment ids.
  \<^item> \<^verbatim>\<open>Manifest\<close>, \<^verbatim>\<open>Flatten\<close>, \<^verbatim>\<open>Input_Log\<close> (\<^verbatim>\<open>snapstore-manifest/src/lib.rs\<close>): the two container
    formats and the merge of a chain.  The decoders accept exactly the canonical encodings and never
    panic; flattening takes each page from the manifest nearest the child, and an incremental
    flatten over its baseline equals the full one.
  \<^item> \<^verbatim>\<open>Pack\<close> (\<^verbatim>\<open>snapstore-pagestore/src/pack.rs\<close>): the pack file, its writer, recovery scan and reads.
    Recovery keeps exactly the longest good prefix; a pack cut anywhere reopens with a prefix of its
    records.
  \<^item> \<^verbatim>\<open>Page_Index\<close> (\<^verbatim>\<open>index.rs\<close>), \<^verbatim>\<open>Read_Cache\<close> (\<^verbatim>\<open>read_cache.rs\<close>): the sharded index refines one map; sidecars
    round-trip; the handle cache is a bounded recency queue.
  \<^item> \<^verbatim>\<open>Page_Store\<close>, \<^verbatim>\<open>Page_Read\<close>, \<^verbatim>\<open>Page_Ingest\<close>, \<^verbatim>\<open>Page_Open\<close> (\<^verbatim>\<open>ingest.rs\<close>): the page store, its invariant
    \<^const>\<open>store_inv\<close>, ingest, reads and the opening of a directory after a stop.
  \<^item> \<^verbatim>\<open>Page_Iface\<close>: the interface of the page store that the snapshot store reads through, as a locale
    interpreted on the page store.
  \<^item> \<^verbatim>\<open>Snapshot_Store\<close>, \<^verbatim>\<open>Snapshot_Read\<close>, \<^verbatim>\<open>Snapshot_Commit\<close>, \<^verbatim>\<open>Snapshot_Counters\<close>
    (\<^verbatim>\<open>snapstore-store/src/lib.rs\<close>): manifests, commit, resolve, the collector's epoch, counters.  The
    invariant \<^const>\<open>snap_inv\<close> says that every stored manifest has its parents and pages.
  \<^item> \<^verbatim>\<open>Gc_Engine\<close> (\<^verbatim>\<open>snapstore-store/src/gc.rs\<close>): the collector; \<^verbatim>\<open>Gc_Copy\<close>, \<^verbatim>\<open>Gc_Steps\<close>: what copying,
    marking, finalizing and unlinking do; \<^verbatim>\<open>Gc_Safety\<close>: the collector and its clients as a step relation
    and the safety of every interleaving; \<^verbatim>\<open>Gc_Refine\<close>, \<^verbatim>\<open>Gc_Sweep\<close>: the functions of the collector, with
    clients at every hook, make only such steps; \<^verbatim>\<open>Gc_Complete\<close>: a collection leaves exactly the reachable
    manifests, and what makes one give up.
  \<^item> \<^verbatim>\<open>Meta_Types\<close>, \<^verbatim>\<open>Meta_Commands\<close> (\<^verbatim>\<open>snapstore-meta/src/types.rs\<close>, \<^verbatim>\<open>error.rs\<close>, \<^verbatim>\<open>actor.rs\<close>,
    \<^verbatim>\<open>migrations/\<close>): the tables of the metadata database and the write commands, each statement of
    SQL as the function on tables that it denotes; \<^verbatim>\<open>Meta_Tree\<close>, \<^verbatim>\<open>Meta_Invariant\<close>: the invariant
    \<^const>\<open>tree_inv\<close> (a forest with earlier parents, unique keys, stamps below the counter, logs
    present) and that every command keeps it; \<^verbatim>\<open>Meta_Actor\<close>, \<^verbatim>\<open>Meta_Serial\<close>: batches, savepoints and
    the actor loop, which cannot be told from running the commands one by one; \<^verbatim>\<open>Meta_Reap\<close>: pruning
    and reaping; \<^verbatim>\<open>Meta_Query\<close>, \<^verbatim>\<open>Meta_Path\<close> (\<^verbatim>\<open>pool.rs\<close>): the reads, paging and paths;
    \<^verbatim>\<open>Meta_Schema\<close> (\<^verbatim>\<open>schema.rs\<close>): migrations and opening; \<^verbatim>\<open>Meta_Db\<close> (\<^verbatim>\<open>lib.rs\<close>): the write calls and
    what they keep of the rows that are not pruned.
  \<^item> \<^verbatim>\<open>Gc_Cycle\<close> (\<^verbatim>\<open>snapstore-server/src/gc.rs\<close>): the cycle of the server, from reaping tombstones over the
    fence and the roots to the persisted state.  Whatever it returns, live rows, pins and the snapshots
    they name survive and the epoch is closed.
  \<^item> \<^verbatim>\<open>Rpc_Errors\<close> (\<^verbatim>\<open>errors.rs\<close> of the server, \<^verbatim>\<open>error.rs\<close> and \<^verbatim>\<open>details.rs\<close> of the client): statuses and their
    details; every error reaches the client as what it stands for.  \<^verbatim>\<open>Client_Retry\<close> (\<^verbatim>\<open>retry.rs\<close>): the
    retry loop ends within its budget and one pause.
  \<^item> \<^verbatim>\<open>Rpc_Types\<close>, \<^verbatim>\<open>Rpc_Service\<close> (\<^verbatim>\<open>snapstore-server/src/service.rs\<close>): the messages and all handlers;
    \<^verbatim>\<open>Rpc_Epoch\<close>: the service beside a collection, where in every interleaving each reference held by a
    node or a pin resolves.

  \<^bold>\<open>Bounds and fuel.\<close>  The chain walks take the number of manifests that may still be visited, started
  at the source's cap \<^const>\<open>MAX_CHAIN\<close>, so that running out is the source's own error.  All other
  recursions are structural or have a termination proof.  The straggler loop of the collector ends when
  clients stop registering: it recurses on the list of what they do between its rounds, which is
  any finite list.  Theorems about growing stores ask for enough unused 32-bit pack ids; for a
  collection \<^const>\<open>cycle_cost\<close> bounds the ids it uses.  A recursive query of SQL is
  \<^const>\<open>rec_cte\<close>, a partial function whose value is \<open>None\<close> if the query never ends; on tables with
  \<^const>\<open>tree_inv\<close> it always ends.  The retry loop \<^const>\<open>retry_loop\<close> and the stream \<^const>\<open>query_loop\<close> are partial
  functions as well.  The logical counter of the metadata is taken to stay below
  $2^{64}$, and below $2^{63}$ where it is compared as a signed number.

  \<^bold>\<open>Not modelled.\<close>  Disk and network failures other than missing files and bad bytes; the operating
  system's crash behaviour below a file's bytes; SQLite itself (its answers to
  transaction statements and its addition are parameters); the protobuf codec (a parameter) and the
  executor under the service; the process around the service (sockets, configuration file, health
  and metrics endpoints); the local page channel over Unix sockets and shared memory; the client's
  wrappers over generated stubs; the command line, the crash-test harness and the generators of test
  data, which are not part of the running program.
\<close>

end
